(* ===== verification/Prelude.thy ===== *)
theory Prelude
  imports Main "HOL-Library.Word" "HOL-Library.Monad_Syntax"
begin

text \<open>
  The vocabulary every component shares: the machine integers of the C code as words, C
  memory as byte lists whose accesses may fault, and the functions of the C library the
  sources call (\<open>string.h\<close>, \<open>ctype.h\<close>, \<open>strtol\<close>).

  A C object of \<open>n\<close> bytes is a list of length \<open>n\<close>. A function that touches memory
  returns an \<open>option\<close>: \<open>None\<close> is an access outside the object (undefined behaviour in
  C) or a failed \<open>assert\<close>, so that "the code never leaves its buffer" is the statement
  that the model never returns \<open>None\<close>. Everything the code does on purpose, its error
  returns included, is a value under \<open>Some\<close>.
\<close>

section \<open>Machine types\<close>

type_synonym byte = "8 word"
type_synonym u16 = "16 word"
type_synonym u32 = "32 word"
type_synonym bytes = "byte list"

named_theorems memsafe \<open>accesses that stay inside their object\<close>
named_theorems cmem \<open>the meaning of a memory access that stays inside its object\<close>

text \<open>A string literal of the source as the bytes it denotes.\<close>

definition cstr :: "string \<Rightarrow> bytes" where
  "cstr s = map of_char s"

text \<open>A value converted to \<open>size_t\<close> (64 bits on both targets, arm64-v8a and x86_64).\<close>

definition c_size :: "int \<Rightarrow> int" where
  "c_size i = i mod 2 ^ 64"

definition c_assert :: "bool \<Rightarrow> unit option" where
  "c_assert b = (if b then Some () else None)"

lemma c_size_nonneg [simp]: "0 \<le> c_size i"
  by (simp add: c_size_def)

lemma c_size_id [simp]: "0 \<le> i \<Longrightarrow> i < 2 ^ 64 \<Longrightarrow> c_size i = i"
  by (simp add: c_size_def)

lemma c_assert_Some [simp]: "c_assert b = Some u \<longleftrightarrow> b"
  by (auto simp: c_assert_def)

lemma c_assert_True [simp]: "c_assert True = Some ()"
  by (simp add: c_assert_def)

declare bind_option_cong [fundef_cong]

lemma unat_byte: "unat (x :: byte) < 256"
proof -
  have "unat x < 2 ^ LENGTH(8)" by (rule unsigned_less)
  then show ?thesis by simp
qed

lemma unat_u16: "unat (x :: u16) < 65536"
proof -
  have "unat x < 2 ^ LENGTH(16)" by (rule unsigned_less)
  then show ?thesis by simp
qed

lemma list5_cases:
  assumes "length xs = 5"
  obtains a b c d e where "xs = [a, b, c, d, e]"
  using assms by (auto simp: length_Suc_conv numeral_eq_Suc)

section \<open>Memory\<close>

definition rd :: "bytes \<Rightarrow> nat \<Rightarrow> byte option" where
  "rd b i = (if i < length b then Some (b ! i) else None)"

definition wr :: "bytes \<Rightarrow> nat \<Rightarrow> byte \<Rightarrow> bytes option" where
  "wr b i v = (if i < length b then Some (b[i := v]) else None)"

text \<open>
  A block read and a block write. Positions and sizes are integers, as pointer differences
  and lengths are in the code: a negative one is outside every object, and a negative
  length that a call converts to \<open>size_t\<close> is a huge one.
\<close>

definition rdn :: "bytes \<Rightarrow> int \<Rightarrow> int \<Rightarrow> bytes option" where
  "rdn b i n = (if 0 \<le> i \<and> 0 \<le> n \<and> i + n \<le> int (length b)
                then Some (take (nat n) (drop (nat i) b)) else None)"

definition wrn :: "bytes \<Rightarrow> int \<Rightarrow> bytes \<Rightarrow> bytes option" where
  "wrn b i xs = (if 0 \<le> i \<and> i + int (length xs) \<le> int (length b)
                 then Some (take (nat i) b @ xs @ drop (nat i + length xs) b) else None)"

definition memmove :: "bytes \<Rightarrow> int \<Rightarrow> int \<Rightarrow> int \<Rightarrow> bytes option" where
  "memmove b dst src n = do { xs \<leftarrow> rdn b src (c_size n); wrn b dst xs }"

definition memset :: "bytes \<Rightarrow> int \<Rightarrow> byte \<Rightarrow> int \<Rightarrow> bytes option" where
  "memset b dst c n =
     (if 0 \<le> dst \<and> dst + c_size n \<le> int (length b)
      then wrn b dst (replicate (nat (c_size n)) c) else None)"

lemma rd_Some [cmem]: "i < length b \<Longrightarrow> rd b i = Some (b ! i)"
  by (simp add: rd_def)

lemma rd_eq_Some_iff: "rd b i = Some x \<longleftrightarrow> i < length b \<and> x = b ! i"
  by (auto simp: rd_def)

lemma rd_eq_None_iff: "rd b i = None \<longleftrightarrow> length b \<le> i"
  by (auto simp: rd_def)

lemma wr_Some [cmem]: "i < length b \<Longrightarrow> wr b i v = Some (b[i := v])"
  by (simp add: wr_def)

lemma wr_eq_Some_iff: "wr b i v = Some c \<longleftrightarrow> i < length b \<and> c = b[i := v]"
  by (auto simp: wr_def)

lemma rdn_nat [cmem]: "i + n \<le> length b \<Longrightarrow> rdn b (int i) (int n) = Some (take n (drop i b))"
  by (simp add: rdn_def)

lemma wrn_nat [cmem]:
  "i + length xs \<le> length b \<Longrightarrow>
   wrn b (int i) xs = Some (take i b @ xs @ drop (i + length xs) b)"
  by (simp add: wrn_def)

lemma length_wrn: "wrn b i xs = Some c \<Longrightarrow> length c = length b"
  by (auto simp: wrn_def split: if_splits)

lemma length_wr: "wr b i v = Some c \<Longrightarrow> length c = length b"
  by (auto simp: wr_def split: if_splits)

lemma memmove_nat [cmem]:
  assumes "src + n \<le> length b" and "dst + n \<le> length b" and "n < 2 ^ 64"
  shows "memmove b (int dst) (int src) (int n) =
         Some (take dst b @ take n (drop src b) @ drop (dst + n) b)"
proof -
  have sz: "c_size (int n) = int n"
    using assms(3) by (intro c_size_id) auto
  have "rdn b (int src) (int n) = Some (take n (drop src b))"
    using assms(1) by (rule rdn_nat)
  moreover have "length (take n (drop src b)) = n"
    using assms(1) by simp
  ultimately show ?thesis
    using assms(2) by (simp add: memmove_def sz wrn_nat)
qed

lemma length_memmove: "memmove b d s n = Some c \<Longrightarrow> length c = length b"
  by (auto simp: memmove_def bind_eq_Some_conv dest: length_wrn)

lemma length_memset: "memset b d x n = Some c \<Longrightarrow> length c = length b"
  by (auto simp: memset_def dest: length_wrn split: if_splits)

section \<open>ctype.h and string.h\<close>

definition isblank :: "byte \<Rightarrow> bool" where
  "isblank c \<longleftrightarrow> c = 32 \<or> c = 9"

definition isspace :: "byte \<Rightarrow> bool" where
  "isspace c \<longleftrightarrow> c = 32 \<or> 9 \<le> c \<and> c \<le> 13"

definition isdigit :: "byte \<Rightarrow> bool" where
  "isdigit c \<longleftrightarrow> 48 \<le> c \<and> c \<le> 57"

definition tolower :: "byte \<Rightarrow> byte" where
  "tolower c = (if 65 \<le> c \<and> c \<le> 90 then c + 32 else c)"

definition toupper :: "byte \<Rightarrow> byte" where
  "toupper c = (if 97 \<le> c \<and> c \<le> 122 then c - 32 else c)"

lemma isblank_isspace: "isblank c \<Longrightarrow> isspace c"
  by (auto simp: isblank_def isspace_def)

lemma isdigit_not_isspace: "isdigit c \<Longrightarrow> \<not> isspace c"
  by (auto simp: isdigit_def isspace_def word_le_nat_alt)

text \<open>
  \<open>memchr b i n c\<close> looks for \<open>c\<close> in the \<open>n\<close> bytes from position \<open>i\<close>. As the standard
  asks, it reads byte by byte and stops at the first match, so it faults only when it runs
  off the object before one.
\<close>

fun memchr :: "bytes \<Rightarrow> nat \<Rightarrow> nat \<Rightarrow> byte \<Rightarrow> nat option option" where
  "memchr b i 0 c = Some None"
| "memchr b i (Suc n) c = do {
     x \<leftarrow> rd b i;
     if x = c then Some (Some i) else memchr b (Suc i) n c
   }"

fun memcmp :: "bytes \<Rightarrow> bytes \<Rightarrow> int" where
  "memcmp (x # xs) (y # ys) =
     (if x < y then - 1 else if y < x then 1 else memcmp xs ys)"
| "memcmp _ _ = 0"

text \<open>\<open>strncmp (b + i, lit, strlen (lit)) == 0\<close> for a literal \<open>lit\<close>, and its caseless form.\<close>

fun strneq :: "bytes \<Rightarrow> nat \<Rightarrow> bytes \<Rightarrow> bool option" where
  "strneq b i [] = Some True"
| "strneq b i (y # ys) = do {
     x \<leftarrow> rd b i;
     if x = y then strneq b (Suc i) ys else Some False
   }"

fun strncaseeq :: "bytes \<Rightarrow> nat \<Rightarrow> bytes \<Rightarrow> bool option" where
  "strncaseeq b i [] = Some True"
| "strncaseeq b i (y # ys) = do {
     x \<leftarrow> rd b i;
     if tolower x = tolower y then strncaseeq b (Suc i) ys else Some False
   }"

text \<open>\<open>strncmp (a + i, b + j, n) == 0\<close> for two buffers: the comparison stops at a NUL.\<close>

fun strneq2 :: "bytes \<Rightarrow> nat \<Rightarrow> bytes \<Rightarrow> nat \<Rightarrow> nat \<Rightarrow> bool option" where
  "strneq2 a i b j 0 = Some True"
| "strneq2 a i b j (Suc n) = do {
     x \<leftarrow> rd a i;
     y \<leftarrow> rd b j;
     if x \<noteq> y then Some False
     else if x = 0 then Some True
     else strneq2 a (Suc i) b (Suc j) n
   }"

lemma memchr_Some_SomeD:
  "memchr b i n c = Some (Some j) \<Longrightarrow>
   i \<le> j \<and> j < i + n \<and> j < length b \<and> b ! j = c \<and> (\<forall>k. i \<le> k \<and> k < j \<longrightarrow> b ! k \<noteq> c)"
proof (induction b i n c rule: memchr.induct)
  case (1 b i c)
  then show ?case by simp
next
  case (2 b i n c)
  then show ?case
    by (auto simp: bind_eq_Some_conv rd_eq_Some_iff split: if_splits)
       (metis Suc_leI le_less_Suc_eq not_less)+
qed

lemma memchr_Some_NoneD:
  "memchr b i n c = Some None \<Longrightarrow> i \<le> k \<Longrightarrow> k < i + n \<Longrightarrow> k < length b \<and> b ! k \<noteq> c"
proof (induction b i n c rule: memchr.induct)
  case (1 b i c)
  then show ?case by simp
next
  case (2 b i n c)
  then show ?case
    by (cases "k = i") (auto simp: bind_eq_Some_conv rd_eq_Some_iff split: if_splits)
qed

lemma memchr_safe [memsafe]: "i + n \<le> length b \<Longrightarrow> memchr b i n c \<noteq> None"
  by (induction b i n c rule: memchr.induct) (auto simp: rd_def)

lemma memchr_finds:
  assumes "i \<le> j" and "j < i + n" and "j < length b" and "b ! j = c"
  shows "\<exists>k. memchr b i n c = Some (Some k) \<and> k \<le> j"
  using assms
proof (induction b i n c rule: memchr.induct)
  case (1 b i c)
  then show ?case by simp
next
  case (2 b i n c)
  show ?case
  proof (cases "b ! i = c")
    case True
    with 2 show ?thesis by (auto simp: rd_def)
  next
    case False
    with 2 have "Suc i \<le> j" by (metis Suc_leI le_neq_implies_less)
    with 2 False show ?thesis by (auto simp: rd_def)
  qed
qed

lemma strneq_safe [memsafe]: "i + length ys \<le> length b \<Longrightarrow> strneq b i ys \<noteq> None"
  by (induction b i ys rule: strneq.induct) (auto simp: rd_def)

lemma strncaseeq_safe [memsafe]: "i + length ys \<le> length b \<Longrightarrow> strncaseeq b i ys \<noteq> None"
  by (induction b i ys rule: strncaseeq.induct) (auto simp: rd_def)

lemma strncaseeq_nth:
  "strncaseeq b i ys = Some True \<Longrightarrow> k < length ys \<Longrightarrow>
   i + k < length b \<and> tolower (b ! (i + k)) = tolower (ys ! k)"
proof (induction b i ys arbitrary: k rule: strncaseeq.induct)
  case (1 b i)
  then show ?case by simp
next
  case (2 b i y ys)
  then show ?case
    by (cases k) (auto simp: bind_eq_Some_conv rd_eq_Some_iff split: if_splits)
qed

lemma strneq2_safe [memsafe]:
  "i + n \<le> length a \<Longrightarrow> j + n \<le> length b \<Longrightarrow> strneq2 a i b j n \<noteq> None"
  by (induction a i b j n rule: strneq2.induct) (auto simp: rd_def)

lemma memcmp_sym: "memcmp ys xs = - memcmp xs ys"
  by (induction xs ys rule: memcmp.induct) auto

lemma memcmp_eq_0: "length xs = length ys \<Longrightarrow> memcmp xs ys = 0 \<longleftrightarrow> xs = ys"
  by (induction xs ys rule: list_induct2) auto

lemma memcmp_trans:
  "length xs = length ys \<Longrightarrow> length ys = length zs \<Longrightarrow>
   memcmp xs ys < 0 \<Longrightarrow> memcmp ys zs < 0 \<Longrightarrow> memcmp xs zs < 0"
  by (induction xs ys zs rule: list_induct3) (auto split: if_splits)

section \<open>strtol\<close>

text \<open>
  \<open>strtol (b + i, &end, base)\<close> for the bases the code uses (0 and 10): white space, a
  sign, the prefix that selects the base when it is 0, then digits. The result is the value
  clamped to \<open>long\<close> and the position where the parse stopped, which is \<open>i\<close> when there
  were no digits.
\<close>

definition LONG_MAX :: int where "LONG_MAX = 9223372036854775807"

definition LONG_MIN :: int where "LONG_MIN = - 9223372036854775808"

definition digit_val :: "byte \<Rightarrow> int" where
  "digit_val c =
     (if 48 \<le> c \<and> c \<le> 57 then uint c - 48
      else if 97 \<le> c \<and> c \<le> 122 then uint c - 87
      else if 65 \<le> c \<and> c \<le> 90 then uint c - 55
      else 99)"

fun skip_spaces :: "bytes \<Rightarrow> nat \<Rightarrow> nat \<Rightarrow> nat option" where
  "skip_spaces b i 0 = None"
| "skip_spaces b i (Suc f) = do {
     x \<leftarrow> rd b i;
     if isspace x then skip_spaces b (Suc i) f else Some i
   }"

fun read_digits :: "bytes \<Rightarrow> nat \<Rightarrow> nat \<Rightarrow> int \<Rightarrow> int \<Rightarrow> (int \<times> nat) option" where
  "read_digits b i 0 base acc = None"
| "read_digits b i (Suc f) base acc = do {
     x \<leftarrow> rd b i;
     if digit_val x < base then read_digits b (Suc i) f base (acc * base + digit_val x)
     else Some (acc, i)
   }"

definition strtol :: "bytes \<Rightarrow> nat \<Rightarrow> int \<Rightarrow> (int \<times> nat) option" where
  "strtol b i base = do {
     j \<leftarrow> skip_spaces b i (Suc (length b));
     s \<leftarrow> rd b j;
     let neg = (s = 45);
     let j1 = (if s = 45 \<or> s = 43 then Suc j else j);
     z \<leftarrow> rd b j1;
     x \<leftarrow> (if z = 48 then rd b (Suc j1) else Some 0);
     h \<leftarrow> (if base = 0 \<and> z = 48 \<and> (x = 120 \<or> x = 88) then rd b (j1 + 2) else Some 0);
     let hex = (base = 0 \<and> z = 48 \<and> (x = 120 \<or> x = 88) \<and> digit_val h < 16);
     let bs = (if base \<noteq> 0 then base else if hex then 16 else if z = 48 then 8 else 10);
     let j2 = (if hex then j1 + 2 else j1);
     (v, e) \<leftarrow> read_digits b j2 (Suc (length b)) bs 0;
     let r = (if neg then - v else v);
     Some (max LONG_MIN (min LONG_MAX r), if e = j2 then i else e)
   }"

end
