(* ===== verification/Kavl.thy ===== *)
theory Kavl
  imports Prelude
begin

text \<open>
  The intrusive AVL tree of \<open>byedpi/kavl.h\<close>, which \<open>mpool.c\<close> instantiates. A node is its
  element with the balance factor and the subtree size the C struct \<open>KAVL_HEAD\<close> holds; the
  size is a 32-bit \<open>unsigned\<close>. The pointer paths the C code records while it descends are
  lists of frames, innermost first, so that rebuilding along a path is writing the child
  pointers back. The arrays \<open>path\<close>, \<open>stack\<close> and \<open>dir\<close> have \<open>KAVL_MAX_DEPTH\<close> entries:
  a longer path is an access outside the array, hence \<open>None\<close>, and so is a rotation that
  would follow a null child. The counter \<open>cnt_\<close> is left out: every caller passes a null
  pointer for it.

  The lemmas show that insertion and deletion keep the balance, the sizes and the order,
  that they never leave the arrays, and what they do to the sequence of elements.
\<close>

section \<open>The code\<close>

datatype 'a kavl = Null | Node "'a kavl" 'a int u32 "'a kavl"

datatype 'a frame = Frame bool 'a int u32 "'a kavl"

fun kavl_size :: "'a kavl \<Rightarrow> u32" where
  "kavl_size Null = 0"
| "kavl_size (Node l a b s r) = s"

fun balance :: "'a kavl \<Rightarrow> int" where
  "balance Null = 0"
| "balance (Node l a b s r) = b"

fun set_balance :: "int \<Rightarrow> 'a kavl \<Rightarrow> 'a kavl" where
  "set_balance b' Null = Null"
| "set_balance b' (Node l a b s r) = Node l a b' s r"

text \<open>\<open>p[0]\<close> is the left child (\<open>False\<close>), \<open>p[1]\<close> the right one (\<open>True\<close>).\<close>

fun child :: "bool \<Rightarrow> 'a kavl \<Rightarrow> 'a kavl" where
  "child d Null = Null"
| "child d (Node l a b s r) = (if d then r else l)"

fun map_child :: "bool \<Rightarrow> ('a kavl \<Rightarrow> 'a kavl) \<Rightarrow> 'a kavl \<Rightarrow> 'a kavl" where
  "map_child d f Null = Null"
| "map_child d f (Node l a b s r) = (if d then Node l a b s (f r) else Node (f l) a b s r)"

fun plug :: "'a frame \<Rightarrow> 'a kavl \<Rightarrow> 'a kavl" where
  "plug (Frame d a b s sib) t = (if d then Node sib a b s t else Node t a b s sib)"

fun plugs :: "'a frame list \<Rightarrow> 'a kavl \<Rightarrow> 'a kavl" where
  "plugs [] t = t"
| "plugs (f # fs) t = plugs fs (plug f t)"

fun kavl_find :: "('a \<Rightarrow> 'a \<Rightarrow> int) \<Rightarrow> 'a kavl \<Rightarrow> 'a \<Rightarrow> 'a option" where
  "kavl_find cmp Null x = None"
| "kavl_find cmp (Node l a b s r) x =
     (let c = cmp x a in
      if c < 0 then kavl_find cmp l x
      else if 0 < c then kavl_find cmp r x
      else Some a)"

text \<open>
  \<open>dir = False\<close> rotates to the left, \<open>(a,(b,c)q)p => ((a,b)p,c)q\<close>. The size of \<open>p\<close> loses
  what \<open>q\<close> takes with it.
\<close>

fun kavl_rotate1 :: "bool \<Rightarrow> 'a kavl \<Rightarrow> 'a kavl option" where
  "kavl_rotate1 False (Node a p pb ps (Node b q qb qs c)) =
     Some (Node (Node a p pb (ps - (qs - kavl_size b)) b) q qb ps c)"
| "kavl_rotate1 True (Node (Node c q qb qs b) p pb ps a) =
     Some (Node c q qb ps (Node b p pb (ps - (qs - kavl_size b)) a))"
| "kavl_rotate1 _ _ = None"

fun kavl_rotate2 :: "bool \<Rightarrow> 'a kavl \<Rightarrow> 'a kavl option" where
  "kavl_rotate2 False (Node a p pb ps (Node (Node b r rb rs c) q qb qs d)) =
     (let x = kavl_size b; b1 = 1;
          qb' = (if rb = b1 then 0 else if rb = 0 then 0 else b1);
          pb' = (if rb = b1 then - b1 else 0)
      in Some (Node (Node a p pb' (ps - (qs - x)) b) r 0 ps (Node c q qb' (qs - (x + 1)) d)))"
| "kavl_rotate2 True (Node (Node d q qb qs (Node c r rb rs b)) p pb ps a) =
     (let x = kavl_size b; b1 = - 1;
          qb' = (if rb = b1 then 0 else if rb = 0 then 0 else b1);
          pb' = (if rb = b1 then - b1 else 0)
      in Some (Node (Node d q qb' (qs - (x + 1)) c) r 0 ps (Node b p pb' (ps - (qs - x)) a)))"
| "kavl_rotate2 _ _ = None"

definition KAVL_MAX_DEPTH :: nat where "KAVL_MAX_DEPTH = 64"

subsection \<open>Insertion\<close>

text \<open>
  The descent. \<open>below\<close> is the path from \<open>bp\<close>, the deepest node with a non-zero balance (or
  the root), \<open>over\<close> the path over it. \<open>Inl\<close> is the node equal to \<open>x\<close>.
\<close>

fun kavl_path :: "('a \<Rightarrow> 'a \<Rightarrow> int) \<Rightarrow> 'a \<Rightarrow> 'a kavl \<Rightarrow> 'a frame list \<Rightarrow> 'a frame list \<Rightarrow>
                  'a + 'a frame list \<times> 'a frame list" where
  "kavl_path cmp x Null over below = Inr (over, below)"
| "kavl_path cmp x (Node l a b s r) over below =
     (let c = cmp x a;
          over' = (if b \<noteq> 0 then below @ over else over);
          below' = (if b \<noteq> 0 then [] else below)
      in if c = 0 then Inl a
         else if 0 < c then kavl_path cmp x r over' (Frame True a b s l # below')
         else kavl_path cmp x l over' (Frame False a b s r # below'))"

text \<open>\<open>++path[i]->size\<close>, and the balance update of the nodes from \<open>bp\<close> down.\<close>

fun inc_size :: "'a frame \<Rightarrow> 'a frame" where
  "inc_size (Frame d a b s t) = Frame d a b (s + 1) t"

fun inc_balance :: "'a frame \<Rightarrow> 'a frame" where
  "inc_balance (Frame d a b s t) = Frame d a (if d then b + 1 else b - 1) s t"

definition kavl_insert_rebalance :: "'a kavl \<Rightarrow> 'a kavl option" where
  "kavl_insert_rebalance bp =
     (if - 2 < balance bp \<and> balance bp < 2 then Some bp
      else let which = (balance bp < 0); b1 = (if which then - 1 else 1) in
        if balance (child (\<not> which) bp) = b1
        then map_option (\<lambda>r. set_balance 0 (map_child which (set_balance 0) r)) (kavl_rotate1 which bp)
        else kavl_rotate2 which bp)"

definition kavl_insert :: "('a \<Rightarrow> 'a \<Rightarrow> int) \<Rightarrow> 'a kavl \<Rightarrow> 'a \<Rightarrow> ('a \<times> 'a kavl) option" where
  "kavl_insert cmp root x =
     (case kavl_path cmp x root [] [] of
        Inl a \<Rightarrow> Some (a, root)
      | Inr (over, below) \<Rightarrow> do {
          c_assert (length below + length over \<le> KAVL_MAX_DEPTH);
          let new = Node Null x 0 1 Null;
          if below = [] then Some (x, new)
          else do {
            r \<leftarrow> kavl_insert_rebalance (plugs (map (inc_balance \<circ> inc_size) below) new);
            Some (x, plugs (map inc_size over) r)
          }
        })"

subsection \<open>Deletion\<close>

fun dec_size :: "'a frame \<Rightarrow> 'a frame" where
  "dec_size (Frame d a b s t) = Frame d a b (s - 1) t"

text \<open>The descent to the node equal to \<open>x\<close>, and to the leftmost node.\<close>

fun kavl_erase_path :: "('a \<Rightarrow> 'a \<Rightarrow> int) \<Rightarrow> 'a \<Rightarrow> 'a kavl \<Rightarrow> 'a frame list \<Rightarrow>
                        ('a kavl \<times> 'a frame list) option" where
  "kavl_erase_path cmp x Null fs = None"
| "kavl_erase_path cmp x (Node l a b s r) fs =
     (let c = cmp x a in
      if c = 0 then Some (Node l a b s r, fs)
      else if 0 < c then kavl_erase_path cmp x r (Frame True a b s l # fs)
      else kavl_erase_path cmp x l (Frame False a b s r # fs))"

fun kavl_first_path :: "'a kavl \<Rightarrow> 'a frame list \<Rightarrow> ('a kavl \<times> 'a frame list) option" where
  "kavl_first_path Null fs = None"
| "kavl_first_path (Node l a b s r) fs =
     (if l = Null then Some (Node l a b s r, fs)
      else kavl_first_path l (Frame False a b s r # fs))"

text \<open>
  The upward loop: \<open>which\<close> is the side that became lower. A rotation leaves the sibling
  \<open>r\<close> on top with \<open>q\<close> as its child on that side.
\<close>

fun kavl_erase_fix :: "'a frame list \<Rightarrow> 'a kavl \<Rightarrow> 'a kavl option" where
  "kavl_erase_fix [] t = Some t"
| "kavl_erase_fix (Frame which a b s sib # fs) t =
     (let b1 = (if which then - 1 else 1);
          q = plug (Frame which a (b + b1) s sib) t in
      if b + b1 = b1 then Some (plugs fs q)
      else if b + b1 = 2 * b1 then
        (if sib = Null then None
         else if balance sib = - b1 then kavl_rotate2 which q \<bind> kavl_erase_fix fs
         else if balance sib = 0 then
           map_option (\<lambda>r. plugs fs (set_balance (- b1) (map_child which (set_balance b1) r)))
             (kavl_rotate1 which q)
         else map_option (\<lambda>r. set_balance 0 (map_child which (set_balance 0) r)) (kavl_rotate1 which q)
              \<bind> kavl_erase_fix fs)
      else kavl_erase_fix fs q)"

text \<open>
  The node found is unlinked: when its right child is missing its left child takes its
  place; otherwise its successor does, which is the right child itself or the end of the
  left spine below it.
\<close>

fun kavl_unlink :: "'a kavl \<Rightarrow> 'a frame list \<Rightarrow> 'a kavl option" where
  "kavl_unlink Null fs = None"
| "kavl_unlink (Node l a b s Null) fs = do {
     c_assert (length fs + 1 \<le> KAVL_MAX_DEPTH);
     kavl_erase_fix (map dec_size fs) l
   }"
| "kavl_unlink (Node l a b s (Node Null qa qb qs qr)) fs = do {
     c_assert (length fs + 2 \<le> KAVL_MAX_DEPTH);
     kavl_erase_fix (Frame True qa b (s - 1) l # map dec_size fs) qr
   }"
| "kavl_unlink (Node l a b s q) fs =
     (case kavl_first_path q [] of
        Some (Node rl ra rb rs rr, gs) \<Rightarrow> do {
          c_assert (length gs + length fs + 2 \<le> KAVL_MAX_DEPTH);
          kavl_erase_fix (map dec_size gs @ Frame True ra b (s - 1) l # map dec_size fs) rr
        }
      | _ \<Rightarrow> None)"

definition kavl_erase :: "('a \<Rightarrow> 'a \<Rightarrow> int) \<Rightarrow> 'a kavl \<Rightarrow> 'a \<Rightarrow> ('a option \<times> 'a kavl) option" where
  "kavl_erase cmp root x =
     (case kavl_erase_path cmp x root [] of
        Some (Node l a b s r, fs) \<Rightarrow>
          map_option (Pair (Some a)) (kavl_unlink (Node l a b s r) fs)
      | _ \<Rightarrow> Some (None, root))"

text \<open>The path of the smallest element holds the fake root, the nodes above and the element itself.\<close>

definition kavl_erase_first :: "'a kavl \<Rightarrow> ('a option \<times> 'a kavl) option" where
  "kavl_erase_first root =
     (case kavl_first_path root [] of
        Some (Node l a b s r, fs) \<Rightarrow> do {
          c_assert (length fs + 2 \<le> KAVL_MAX_DEPTH);
          t \<leftarrow> kavl_unlink (Node l a b s r) fs;
          Some (Some a, t)
        }
      | _ \<Rightarrow> Some (None, root))"

section \<open>Balance, sizes and order\<close>

fun height :: "'a kavl \<Rightarrow> nat" where
  "height Null = 0"
| "height (Node l a b s r) = Suc (max (height l) (height r))"

fun inorder :: "'a kavl \<Rightarrow> 'a list" where
  "inorder Null = []"
| "inorder (Node l a b s r) = inorder l @ a # inorder r"

text \<open>The type invariant: every balance is the height difference, every size the node count.\<close>

fun avl :: "'a kavl \<Rightarrow> bool" where
  "avl Null = True"
| "avl (Node l a b s r) \<longleftrightarrow> avl l \<and> avl r \<and> b = int (height r) - int (height l)
     \<and> - 1 \<le> b \<and> b \<le> 1 \<and> s = of_nat (size l + size r + 1)"

text \<open>The same for a path whose hole has height \<open>h\<close> and \<open>n\<close> nodes.\<close>

fun frames_ok :: "'a frame list \<Rightarrow> nat \<Rightarrow> nat \<Rightarrow> bool" where
  "frames_ok [] h n = True"
| "frames_ok (Frame d a b s t # fs) h n \<longleftrightarrow> avl t
     \<and> b = (if d then int h - int (height t) else int (height t) - int h)
     \<and> - 1 \<le> b \<and> b \<le> 1 \<and> s = of_nat (n + size t + 1)
     \<and> frames_ok fs (Suc (max h (height t))) (n + size t + 1)"

fun fheight :: "'a frame list \<Rightarrow> nat \<Rightarrow> nat" where
  "fheight [] h = h"
| "fheight (Frame d a b s t # fs) h = fheight fs (Suc (max h (height t)))"

fun fsize :: "'a frame list \<Rightarrow> nat \<Rightarrow> nat" where
  "fsize [] n = n"
| "fsize (Frame d a b s t # fs) n = fsize fs (n + size t + 1)"

fun lefts :: "'a frame list \<Rightarrow> 'a list" where
  "lefts [] = []"
| "lefts (Frame d a b s t # fs) = lefts fs @ (if d then inorder t @ [a] else [])"

fun rights :: "'a frame list \<Rightarrow> 'a list" where
  "rights [] = []"
| "rights (Frame d a b s t # fs) = (if d then [] else a # inorder t) @ rights fs"

fun fbal :: "'a frame \<Rightarrow> int" where
  "fbal (Frame d a b s t) = b"

lemma plugs_append [simp]: "plugs (fs @ gs) t = plugs gs (plugs fs t)"
  by (induction fs arbitrary: t) auto

lemma height_plugs: "height (plugs fs t) = fheight fs (height t)"
proof (induction fs arbitrary: t)
  case (Cons f fs)
  then show ?case by (cases f) (auto simp: max.commute)
qed simp

lemma size_plugs: "size (plugs fs t) = fsize fs (size t)"
proof (induction fs arbitrary: t)
  case (Cons f fs)
  then show ?case by (cases f) (auto simp: add.commute)
qed simp

lemma inorder_plugs: "inorder (plugs fs t) = lefts fs @ inorder t @ rights fs"
proof (induction fs arbitrary: t)
  case (Cons f fs)
  then show ?case by (cases f) auto
qed simp

lemma avl_plugs: "avl (plugs fs t) \<longleftrightarrow> avl t \<and> frames_ok fs (height t) (size t)"
proof (induction fs arbitrary: t)
  case (Cons f fs)
  then show ?case by (cases f) (auto simp: max.commute add_ac)
qed simp

lemma size_inorder: "size t = length (inorder t)"
  by (induction t) auto

lemma avl_size: "avl t \<Longrightarrow> kavl_size t = of_nat (size t)"
  by (cases t) auto

lemma frames_ok_append:
  "frames_ok (fs @ gs) h n \<longleftrightarrow> frames_ok fs h n \<and> frames_ok gs (fheight fs h) (fsize fs n)"
  by (induction fs h n rule: frames_ok.induct) auto

lemma fheight_append [simp]: "fheight (fs @ gs) h = fheight gs (fheight fs h)"
  by (induction fs h rule: fheight.induct) auto

lemma fsize_append [simp]: "fsize (fs @ gs) n = fsize gs (fsize fs n)"
  by (induction fs n rule: fsize.induct) auto

lemma lefts_append [simp]: "lefts (fs @ gs) = lefts gs @ lefts fs"
  by (induction fs rule: lefts.induct) auto

lemma rights_append [simp]: "rights (fs @ gs) = rights fs @ rights gs"
  by (induction fs rule: rights.induct) auto

text \<open>Changing sizes or balances of a path changes nothing else.\<close>

lemma frame_updates [simp]:
  "lefts (map inc_size fs) = lefts fs" "rights (map inc_size fs) = rights fs"
  "lefts (map dec_size fs) = lefts fs" "rights (map dec_size fs) = rights fs"
  "lefts (map (inc_balance \<circ> inc_size) fs) = lefts fs"
  "rights (map (inc_balance \<circ> inc_size) fs) = rights fs"
  "fheight (map inc_size fs) h = fheight fs h" "fsize (map inc_size fs) n = fsize fs n"
  "fheight (map dec_size fs) h = fheight fs h" "fsize (map dec_size fs) n = fsize fs n"
  "fheight (map (inc_balance \<circ> inc_size) fs) h = fheight fs h"
  "fsize (map (inc_balance \<circ> inc_size) fs) n = fsize fs n"
proof -
  show "lefts (map inc_size fs) = lefts fs" "rights (map inc_size fs) = rights fs"
    "lefts (map dec_size fs) = lefts fs" "rights (map dec_size fs) = rights fs"
    "lefts (map (inc_balance \<circ> inc_size) fs) = lefts fs"
    "rights (map (inc_balance \<circ> inc_size) fs) = rights fs"
    by (induction fs rule: lefts.induct; simp)+
  show "fheight (map inc_size fs) h = fheight fs h"
    "fheight (map dec_size fs) h = fheight fs h"
    "fheight (map (inc_balance \<circ> inc_size) fs) h = fheight fs h"
    by (induction fs h rule: fheight.induct; simp)+
  show "fsize (map inc_size fs) n = fsize fs n" "fsize (map dec_size fs) n = fsize fs n"
    "fsize (map (inc_balance \<circ> inc_size) fs) n = fsize fs n"
    by (induction fs n rule: fsize.induct; simp)+
qed

lemma fheight_Suc: "\<exists>k. fheight fs (Suc h) = Suc k"
proof (induction fs arbitrary: h)
  case (Cons f fs)
  then show ?case by (cases f) auto
qed simp

lemma fsize_Suc: "fsize fs (Suc n) = Suc (fsize fs n)"
  by (induction fs n rule: fsize.induct) auto

lemma frames_ok_inc: "frames_ok fs h n \<Longrightarrow> frames_ok (map inc_size fs) h (Suc n)"
  by (induction fs h n rule: frames_ok.induct) (auto simp: add_ac)

section \<open>Insertion\<close>

text \<open>What the descent keeps of \<open>bp\<close>: only the node at the end of \<open>below\<close> can be unbalanced.\<close>

definition path_inv :: "'a frame list \<Rightarrow> 'a frame list \<Rightarrow> bool" where
  "path_inv over below \<longleftrightarrow> (\<forall>f \<in> set (butlast below). fbal f = 0)
     \<and> (below = [] \<longrightarrow> over = []) \<and> (below \<noteq> [] \<and> fbal (last below) = 0 \<longrightarrow> over = [])"

lemma kavl_path_inv:
  assumes "kavl_path cmp x t over below = Inr (over', below')" and "path_inv over below"
  shows "plugs (below' @ over') Null = plugs (below @ over) t \<and> path_inv over' below'
     \<and> (below' = [] \<longrightarrow> t = Null)"
  using assms
proof (induction cmp x t over below rule: kavl_path.induct)
  case (1 cmp x over below)
  then show ?case by auto
next
  case (2 cmp x l a b s r over below)
  have inv: "path_inv (if b \<noteq> 0 then below @ over else over) (Frame d a b s t # (if b \<noteq> 0 then [] else below))"
    for d t
    using 2(4) by (auto simp: path_inv_def)
  consider "0 < cmp x a" | "cmp x a < 0"
    using 2(3) by (auto simp: Let_def split: if_splits) 
  then show ?case
  proof cases
    case 1
    then show ?thesis
      using 2(1)[OF refl refl refl _ _ _ inv] 2(3) by (auto simp: Let_def split: if_splits)
  next
    case c: 2
    then show ?thesis
      using 2(2)[OF refl refl refl _ _ _ inv] 2(3) by (auto simp: Let_def split: if_splits)
  qed
qed

lemma grow_zero:
  assumes "frames_ok fs h n" and "\<forall>f \<in> set fs. fbal f = 0"
    and "avl t" and "height t = Suc h" and "size t = Suc n" and "balance t \<noteq> 0 \<or> h = 0"
  shows "avl (plugs (map (inc_balance \<circ> inc_size) fs) t)
     \<and> height (plugs (map (inc_balance \<circ> inc_size) fs) t) = Suc (fheight fs h)
     \<and> (balance (plugs (map (inc_balance \<circ> inc_size) fs) t) \<noteq> 0 \<or> fheight fs h = 0)"
  using assms
proof (induction fs h n arbitrary: t rule: frames_ok.induct)
  case (2 d a b s t' fs h n)
  define t2 where "t2 = plug (inc_balance (inc_size (Frame d a b s t'))) t"
  have "avl t2" "height t2 = Suc (Suc (max h (height t')))" "size t2 = Suc (n + size t' + 1)" "balance t2 \<noteq> 0"
    unfolding t2_def using 2(2-6) by (cases d; force simp: max_def add_ac)+
  then have "avl (plugs (map (inc_balance \<circ> inc_size) fs) t2)
     \<and> height (plugs (map (inc_balance \<circ> inc_size) fs) t2) = Suc (fheight fs (Suc (max h (height t'))))
     \<and> (balance (plugs (map (inc_balance \<circ> inc_size) fs) t2) \<noteq> 0 \<or> fheight fs (Suc (max h (height t'))) = 0)"
    using 2(2,3) by (intro 2(1)) auto
  moreover have "plugs (map (inc_balance \<circ> inc_size) (Frame d a b s t' # fs)) t =
      plugs (map (inc_balance \<circ> inc_size) fs) t2"
    by (simp add: t2_def)
  ultimately show ?case
    unfolding fheight.simps by (simp only:)
qed auto

lemma kavl_rebalance_grown:
  assumes f: "frames_ok [Frame d a b s sib] h n"
    and t: "avl t" "height t = Suc h" "size t = Suc n" "balance t \<noteq> 0 \<or> h = 0"
  shows "\<exists>r. kavl_insert_rebalance (plug (inc_balance (inc_size (Frame d a b s sib))) t) = Some r
     \<and> avl r \<and> inorder r = inorder (plug (Frame d a b s sib) t)
     \<and> height r = fheight [Frame d a b s sib] h + (if b = 0 then 1 else 0)"
proof (cases "- 2 < (if d then b + 1 else b - 1) \<and> (if d then b + 1 else b - 1) < 2")
  case True
  then show ?thesis
    using assms by (auto simp: kavl_insert_rebalance_def add_ac max_def)
next
  case False
  show ?thesis
  proof (cases d)
    case True
    with False f have b: "b = 1" "int h = int (height sib) + 1" by auto
    obtain l q qb qs r where tq: "t = Node l q qb qs r"
      using t(2) by (cases t) auto
    have qb: "qb = 1 \<or> qb = - 1"
      using t b by (auto simp: tq)
    show ?thesis
    proof (cases "qb = 1")
      case q: True
      then show ?thesis
        using True b f t by (auto simp: kavl_insert_rebalance_def tq add_ac max_def avl_size)
    next
      case q: False
      with qb have q1: "qb = - 1" by simp
      then obtain rl ra rb rs rr where l: "l = Node rl ra rb rs rr"
        using t by (cases l) (auto simp: tq)
      show ?thesis
        using True b q1 f t
        by (auto simp: kavl_insert_rebalance_def tq l add_ac max_def avl_size Let_def split: if_splits)
    qed
  next
    case d: False
    with False f have b: "b = - 1" "int h = int (height sib) + 1" by auto
    obtain l q qb qs r where tq: "t = Node l q qb qs r"
      using t(2) by (cases t) auto
    have qb: "qb = 1 \<or> qb = - 1"
      using t b by (auto simp: tq)
    show ?thesis
    proof (cases "qb = - 1")
      case q: True
      then show ?thesis
        using d b f t by (auto simp: kavl_insert_rebalance_def tq add_ac max_def avl_size)
    next
      case q: False
      with qb have q1: "qb = 1" by simp
      then obtain rl ra rb rs rr where l: "r = Node rl ra rb rs rr"
        using t by (cases r) (auto simp: tq)
      show ?thesis
        using d b q1 f t
        by (auto simp: kavl_insert_rebalance_def tq l add_ac max_def avl_size Let_def split: if_splits)
    qed
  qed
qed

lemma length_le_fheight: "h + length fs \<le> fheight fs h"
proof (induction fs arbitrary: h)
  case (Cons f fs)
  obtain d a b s t where f: "f = Frame d a b s t"
    by (cases f)
  show ?case
    using Cons[of "Suc (max h (height t))"] by (simp add: f)
qed simp

lemma kavl_insert_new:
  assumes path: "kavl_path cmp x t [] [] = Inr (over, below)" and t: "avl t" "height t \<le> 63"
  shows "\<exists>t'. kavl_insert cmp t x = Some (x, t') \<and> avl t'
     \<and> inorder t = lefts (below @ over) @ rights (below @ over)
     \<and> inorder t' = lefts (below @ over) @ x # rights (below @ over)"
proof -
  define new where "new = Node Null x 0 1 Null"
  have pl: "plugs (below @ over) Null = t" "path_inv over below"
    using kavl_path_inv[OF path] by (simp_all add: path_inv_def)
  have ok: "frames_ok (below @ over) 0 0"
    using t avl_plugs[of "below @ over" Null] pl by simp
  have depth: "length below + length over \<le> KAVL_MAX_DEPTH"
    using length_le_fheight[of 0 "below @ over"] height_plugs[of "below @ over" Null] pl t
    by (simp add: KAVL_MAX_DEPTH_def)
  have io: "inorder t = lefts (below @ over) @ rights (below @ over)"
    using inorder_plugs[of "below @ over" Null] pl by simp
  show ?thesis
  proof (cases "below = []")
    case True
    then show ?thesis
      using pl path depth io by (auto simp: path_inv_def kavl_insert_def)
  next
    case False
    then obtain fs f where below: "below = fs @ [f]"
      by (metis append_butlast_last_id)
    obtain d a b s sib where fr: "f = Frame d a b s sib"
      by (cases f)
    have okf: "frames_ok fs 0 0" "frames_ok [f] (fheight fs 0) (fsize fs 0)"
      "frames_ok over (fheight below 0) (fsize below 0)"
      using ok by (simp_all add: below fr frames_ok_append)
    have zero: "\<forall>g \<in> set fs. fbal g = 0"
      using pl(2) by (simp add: path_inv_def below)
    define t1 where "t1 = plugs (map (inc_balance \<circ> inc_size) fs) new"
    have t1: "avl t1" "height t1 = Suc (fheight fs 0)" "size t1 = Suc (fsize fs 0)"
      "balance t1 \<noteq> 0 \<or> fheight fs 0 = 0" "inorder t1 = lefts fs @ x # rights fs"
      using grow_zero[OF okf(1) zero, of new]
      by (auto simp: t1_def new_def size_plugs inorder_plugs fsize_Suc)
    obtain r where r: "kavl_insert_rebalance (plug (inc_balance (inc_size f)) t1) = Some r" "avl r"
      "inorder r = inorder (plug f t1)" "height r = fheight [f] (fheight fs 0) + (if b = 0 then 1 else 0)"
      using kavl_rebalance_grown[of d a b s sib, OF okf(2)[unfolded fr] t1(1-4)] by (auto simp: fr)
    have szr: "size r = Suc (fsize below 0)"
      using r(3) t1(3) size_inorder[of r] by (auto simp: below fr simp flip: size_inorder)
    have hr: "over = [] \<or> height r = fheight below 0"
      using pl(2) r(4) by (auto simp: path_inv_def below fr)
    have "avl (plugs (map inc_size over) r)"
      using hr okf(3) frames_ok_inc[OF okf(3)] r(2) by (auto simp: avl_plugs szr)
    moreover have "kavl_insert cmp t x = Some (x, plugs (map inc_size over) r)"
      using depth r(1) by (simp add: kavl_insert_def path below t1_def new_def)
    moreover have "inorder (plugs (map inc_size over) r) = lefts (below @ over) @ x # rights (below @ over)"
      using r(3) t1(5) by (simp add: inorder_plugs below fr)
    ultimately show ?thesis
      using io by blast
  qed
qed

section \<open>Deletion\<close>

lemma frames_ok_dec: "frames_ok fs h (Suc n) \<Longrightarrow> frames_ok (map dec_size fs) h n"
  by (induction fs h "Suc n" arbitrary: n rule: frames_ok.induct) (auto simp: add_ac)

text \<open>One step of the upward loop, when the hole has become one lower: the four rotations.\<close>

lemma kavl_shrink_rotate2:
  assumes f: "frames_ok [Frame which a b s sib] (Suc h) n" and t: "avl t" "height t = h" "size t = n"
    and b1: "b1 = (if which then - 1 else 1)" and b: "b = b1" and bal: "balance sib = - b1"
  shows "\<exists>r. kavl_rotate2 which (plug (Frame which a (b + b1) s sib) t) = Some r \<and> avl r
           \<and> height r = Suc (Suc h) \<and> inorder r = inorder (plug (Frame which a b s sib) t)"
proof -
  have hs: "height sib = Suc (Suc h)"
    using f b b1 by (cases which) auto
  then obtain l c sb ss r where sib: "sib = Node l c sb ss r"
    by (cases sib) auto
  show ?thesis
  proof (cases which)
    case True
    have hr: "height r = Suc h" "height l = h"
      using True bal f b1 hs by (auto simp: sib)
    then obtain rl ra rb rs rr where r: "r = Node rl ra rb rs rr"
      by (cases r) auto
    have "rb = - 1 \<and> height rl = h \<and> Suc (height rr) = h \<or> rb = 0 \<and> height rl = h \<and> height rr = h
          \<or> rb = 1 \<and> Suc (height rl) = h \<and> height rr = h"
      using True hr f by (auto simp: sib r)
    then show ?thesis
      using True hr f t b b1 by (elim disjE) (auto simp: sib r avl_size Let_def)
  next
    case False
    have hr: "height l = Suc h" "height r = h"
      using False bal f b1 hs by (auto simp: sib)
    then obtain rl ra rb rs rr where l: "l = Node rl ra rb rs rr"
      by (cases l) auto
    have "rb = - 1 \<and> height rl = h \<and> Suc (height rr) = h \<or> rb = 0 \<and> height rl = h \<and> height rr = h
          \<or> rb = 1 \<and> Suc (height rl) = h \<and> height rr = h"
      using False hr f by (auto simp: sib l)
    then show ?thesis
      using False hr f t b b1 by (elim disjE) (auto simp: sib l avl_size Let_def)
  qed
qed

lemma kavl_shrink_rotate1:
  assumes f: "frames_ok [Frame which a b s sib] (Suc h) n" and t: "avl t" "height t = h" "size t = n"
    and b1: "b1 = (if which then - 1 else 1)" and b: "b = b1" and bal: "balance sib \<noteq> - b1"
    and c: "c1 = (if balance sib = 0 then - b1 else 0)" "c2 = (if balance sib = 0 then b1 else 0)"
  shows "\<exists>r. kavl_rotate1 which (plug (Frame which a (b + b1) s sib) t) = Some r
           \<and> avl (set_balance c1 (map_child which (set_balance c2) r))
           \<and> height (set_balance c1 (map_child which (set_balance c2) r)) =
               Suc (Suc h) + (if balance sib = 0 then 1 else 0)
           \<and> inorder (set_balance c1 (map_child which (set_balance c2) r)) = inorder (plug (Frame which a b s sib) t)"
proof -
  have hs: "height sib = Suc (Suc h)"
    using f b b1 by (cases which) auto
  then obtain l x sb ss r where sib: "sib = Node l x sb ss r"
    by (cases sib) auto
  show ?thesis
  proof (cases which)
    case True
    have "sb = 0 \<and> height l = Suc h \<and> height r = Suc h \<or> sb = - 1 \<and> height l = Suc h \<and> height r = h"
      using True bal f b1 hs by (auto simp: sib)
    then show ?thesis
      using True f t b b1 c by (elim disjE) (auto simp: sib avl_size)
  next
    case False
    have "sb = 0 \<and> height l = Suc h \<and> height r = Suc h \<or> sb = 1 \<and> height r = Suc h \<and> height l = h"
      using False bal f b1 hs by (auto simp: sib)
    then show ?thesis
      using False f t b b1 c by (elim disjE) (auto simp: sib avl_size)
  qed
qed

lemma size_plug_inorder:
  assumes "inorder r = inorder (plug (Frame which a b s sib) t)"
  shows "size r = size t + size sib + 1"
  using assms size_inorder[of r] by (cases which) (auto simp flip: size_inorder)

lemma kavl_erase_fix_spec:
  assumes "frames_ok fs (Suc h) n" and "avl t" and "height t = h" and "size t = n"
  shows "\<exists>r. kavl_erase_fix fs t = Some r \<and> avl r \<and> inorder r = lefts fs @ inorder t @ rights fs"
  using assms
proof (induction fs t arbitrary: h n rule: kavl_erase_fix.induct)
  case (1 t)
  then show ?case by simp
next
  case (2 which a b s sib fs t)
  define b1 :: int where "b1 = (if which then - 1 else 1)"
  define q where "q = plug (Frame which a (b + b1) s sib) t"
  have f: "frames_ok [Frame which a b s sib] (Suc h) n"
    and up: "frames_ok fs (Suc (max (Suc h) (height sib))) (n + size sib + 1)"
    using 2(4) by simp_all
  have io: "lefts (Frame which a b s sib # fs) @ inorder t @ rights (Frame which a b s sib # fs)
        = lefts fs @ inorder (plug (Frame which a b s sib) t) @ rights fs"
    by simp
  have eq: "kavl_erase_fix (Frame which a b s sib # fs) t =
     (if b + b1 = b1 then Some (plugs fs q)
      else if b + b1 = 2 * b1 then
        (if sib = Null then None
         else if balance sib = - b1 then kavl_rotate2 which q \<bind> kavl_erase_fix fs
         else if balance sib = 0 then
           map_option (\<lambda>r. plugs fs (set_balance (- b1) (map_child which (set_balance b1) r)))
             (kavl_rotate1 which q)
         else map_option (\<lambda>r. set_balance 0 (map_child which (set_balance 0) r)) (kavl_rotate1 which q)
              \<bind> kavl_erase_fix fs)
      else kavl_erase_fix fs q)"
    by (simp only: kavl_erase_fix.simps Let_def b1_def q_def)
  have rebuilt: "\<exists>r'. Some (plugs fs r) = Some r' \<and> avl r'
        \<and> inorder r' = lefts fs @ inorder (plug (Frame which a b s sib) t) @ rights fs"
    if "avl r" "height r = Suc (max (Suc h) (height sib))"
       "inorder r = inorder (plug (Frame which a b s sib) t)" for r
    using that up size_plug_inorder[OF that(3)] 2(7) by (simp add: avl_plugs inorder_plugs)
  consider "b = 0" | "b = - b1" | "b = b1"
  proof -
    have "b = - 1 \<or> b = 0 \<or> b = 1"
      using f by auto
    then show ?thesis
      using that by (cases which) (auto simp: b1_def)
  qed
  then show ?case
  proof cases
    case 1
    have "avl q" "height q = Suc (max (Suc h) (height sib))" "inorder q = inorder (plug (Frame which a b s sib) t)"
      using 1 f 2(5-7) by (cases which; auto simp: q_def b1_def add_ac)+
    then show ?thesis
      using rebuilt[of q] 1 unfolding eq io by simp
  next
    case b: 2
    have hs: "height sib = h"
      using b f by (cases which) (auto simp: b1_def)
    have q: "avl q" "height q = Suc h" "size q = n + size sib + 1"
      "inorder q = inorder (plug (Frame which a b s sib) t)"
      using b f 2(5-7) hs by (cases which; auto simp: q_def b1_def add_ac)+
    have nb: "b1 \<noteq> 0" "- b1 + b1 \<noteq> b1" "- b1 + b1 \<noteq> 2 * b1"
      by (auto simp: b1_def)
    have "\<exists>r. kavl_erase_fix fs q = Some r \<and> avl r \<and> inorder r = lefts fs @ inorder q @ rights fs"
      using 2(3)[OF b1_def q_def, of "Suc h" "n + size sib + 1"] nb b q up hs by auto
    then show ?thesis
      unfolding eq io using nb b q(4) by simp
  next
    case b: 3
    have nb: "b1 \<noteq> 0" "b1 + b1 \<noteq> b1" "b1 + b1 = 2 * b1"
      by (auto simp: b1_def)
    have hs: "height sib = Suc (Suc h)"
      using b f by (cases which) (auto simp: b1_def)
    have sn: "sib \<noteq> Null"
      using hs by auto
    note rot2 = kavl_shrink_rotate2[OF f 2(5-7) b1_def b, folded q_def]
    note rot1 = kavl_shrink_rotate1[OF f 2(5-7) b1_def b, folded q_def]
    consider "balance sib = - b1" | "balance sib = 0" | "balance sib \<noteq> - b1" "balance sib \<noteq> 0"
      by auto
    then show ?thesis
    proof cases
      case c: 1
      obtain r where r: "kavl_rotate2 which q = Some r" "avl r" "height r = Suc (Suc h)"
        "inorder r = inorder (plug (Frame which a b s sib) t)"
        using rot2[OF c] by auto
      have "\<exists>r'. kavl_erase_fix fs r = Some r' \<and> avl r' \<and> inorder r' = lefts fs @ inorder r @ rights fs"
        using 2(1)[OF b1_def q_def _ _ sn c, of r "Suc (Suc h)" "n + size sib + 1"]
          nb b r up hs size_plug_inorder[OF r(4)] 2(7) by auto
      then show ?thesis
        unfolding eq io using nb b c sn r by simp
    next
      case c: 2
      obtain r where r: "kavl_rotate1 which q = Some r"
        "avl (set_balance (- b1) (map_child which (set_balance b1) r))"
        "height (set_balance (- b1) (map_child which (set_balance b1) r)) = Suc (Suc (Suc h))"
        "inorder (set_balance (- b1) (map_child which (set_balance b1) r)) = inorder (plug (Frame which a b s sib) t)"
        using rot1[OF _ refl refl] c nb by auto
      show ?thesis
        using rebuilt[OF r(2) _ r(4)] r(3) hs unfolding eq io using nb b c sn r(1) by simp
    next
      case c: 3
      obtain r0 where r0: "kavl_rotate1 which q = Some r0"
        "avl (set_balance 0 (map_child which (set_balance 0) r0))"
        "height (set_balance 0 (map_child which (set_balance 0) r0)) = Suc (Suc h)"
        "inorder (set_balance 0 (map_child which (set_balance 0) r0)) = inorder (plug (Frame which a b s sib) t)"
        using rot1[OF c(1) refl refl] c nb by auto
      define r where "r = set_balance 0 (map_child which (set_balance 0) r0)"
      have "\<exists>r'. kavl_erase_fix fs r = Some r' \<and> avl r' \<and> inorder r' = lefts fs @ inorder r @ rights fs"
        using 2(2)[OF b1_def q_def _ _ sn c, of r "Suc (Suc h)" "n + size sib + 1"]
          nb b r0 up hs size_plug_inorder[OF r0(4)] 2(7) by (auto simp: r_def)
      then show ?thesis
        unfolding eq io using nb b c sn r0 by (simp add: r_def)
    qed
  qed
qed

lemma kavl_erase_path_spec:
  "kavl_erase_path cmp x t fs = Some (p, gs) \<Longrightarrow> plugs gs p = plugs fs t \<and> p \<noteq> Null"
  by (induction cmp x t fs rule: kavl_erase_path.induct) (auto simp: Let_def split: if_splits)

lemma kavl_first_path_spec:
  "kavl_first_path t fs = Some (p, gs) \<Longrightarrow>
   plugs gs p = plugs fs t \<and> (\<exists>a b s r. p = Node Null a b s r) \<and> lefts gs = lefts fs"
  by (induction t fs rule: kavl_first_path.induct) (auto split: if_splits)

lemma kavl_first_path_Some: "t \<noteq> Null \<Longrightarrow> \<exists>p gs. kavl_first_path t fs = Some (p, gs)"
  by (induction t fs rule: kavl_first_path.induct) auto

lemma kavl_unlink_spec:
  assumes ok: "avl (plugs fs (Node l a b s r))" and h: "height (plugs fs (Node l a b s r)) \<le> 63"
  shows "\<exists>t'. kavl_unlink (Node l a b s r) fs = Some t' \<and> avl t'
     \<and> inorder t' = lefts fs @ inorder l @ inorder r @ rights fs"
proof -
  let ?p = "Node l a b s r"
  have p: "avl ?p" "frames_ok fs (height ?p) (size ?p)"
    using ok by (simp_all add: avl_plugs)
  have depth: "length fs + height ?p \<le> 63"
    using length_le_fheight[of "height ?p" fs] h by (simp add: height_plugs)
  have fs: "frames_ok (map dec_size fs) (height ?p) (size l + size r)"
    using frames_ok_dec[of fs "height ?p" "size l + size r"] p(2) by simp
  show ?thesis
  proof (cases r)
    case Null
    have hl: "height ?p = Suc (height l)"
      using Null by simp
    then obtain t' where "kavl_erase_fix (map dec_size fs) l = Some t'" "avl t'"
      "inorder t' = lefts fs @ inorder l @ rights fs"
      using kavl_erase_fix_spec[of "map dec_size fs" "height l" "size l" l] fs p(1) by (auto simp: Null)
    then show ?thesis
      using Null depth by (simp add: KAVL_MAX_DEPTH_def)
  next
    case (Node ql qa qb qs qr)
    obtain rl ra rb rs rr gs where first: "kavl_first_path r [] = Some (Node rl ra rb rs rr, gs)"
      and rl: "rl = Null"
      using kavl_first_path_Some[of r "[]"] kavl_first_path_spec[of r "[]"] Node by fastforce
    have r: "plugs gs (Node Null ra rb rs rr) = r" "lefts gs = []"
      using kavl_first_path_spec[OF first] rl by auto
    have avr: "avl (Node Null ra rb rs rr)" "frames_ok gs (Suc (height rr)) (Suc (size rr))"
      using avl_plugs[of gs "Node Null ra rb rs rr"] r p(1) by auto
    have sz: "size r = Suc (fsize gs (size rr))"
      using r(1) size_plugs[of gs "Node Null ra rb rs rr"] by (simp add: fsize_Suc)
    have hr: "height r = fheight gs (Suc (height rr))"
      using r(1) height_plugs[of gs "Node Null ra rb rs rr"] by simp
    let ?F = "Frame True ra b (s - 1) l"
    have gs: "frames_ok (map dec_size gs) (Suc (height rr)) (size rr)"
      using frames_ok_dec avr(2) by blast
    have top: "frames_ok (?F # map dec_size fs) (height r) (fsize gs (size rr))"
      using p(1) fs sz by (simp add: max.commute add_ac)
    have all: "frames_ok (map dec_size gs @ ?F # map dec_size fs) (Suc (height rr)) (size rr)"
      using gs top hr by (simp add: frames_ok_append del: frames_ok.simps)
    have io: "inorder r = ra # inorder rr @ rights gs"
      using r inorder_plugs[of gs "Node Null ra rb rs rr"] by simp
    obtain t' where t': "kavl_erase_fix (map dec_size gs @ ?F # map dec_size fs) rr = Some t'" "avl t'"
      "inorder t' = lefts fs @ inorder l @ inorder r @ rights fs"
      using kavl_erase_fix_spec[OF all] avr(1) r(2) io by auto
    have len: "length gs + length fs + 2 \<le> KAVL_MAX_DEPTH"
      using depth hr length_le_fheight[of "Suc (height rr)" gs] by (auto simp: KAVL_MAX_DEPTH_def)
    show ?thesis
    proof (cases ql)
      case Null
      then have "gs = []" "ra = qa" "rr = qr"
        using first Node by auto
      then show ?thesis
        using t' len Null Node by auto
    next
      case (Node l' a' b' s' r')
      then show ?thesis
        using t' len first \<open>r = Kavl.Node ql qa qb qs qr\<close> by auto
    qed
  qed
qed

text \<open>A balanced tree of fewer than \<open>2\<^sup>3\<^sup>2 - 1\<close> nodes fits the path arrays.\<close>

lemma avl_height_bound: "avl t \<Longrightarrow> 2 ^ (height t div 2) \<le> size t + 1"
proof (induction t rule: measure_induct_rule[where f = size])
  case (less t)
  show ?case
  proof (cases t)
    case (Node l a b s r)
    define h where "h = max (height l) (height r)"
    show ?thesis
    proof (cases "h = 0")
      case True
      then show ?thesis by (simp add: Node h_def)
    next
      case False
      have hl: "h - 1 \<le> height l" "h - 1 \<le> height r"
        using less(2) by (auto simp: Node h_def)
      have "2 ^ ((h - 1) div 2) \<le> size l + 1" "2 ^ ((h - 1) div 2) \<le> size r + 1"
        using less(1)[of l] less(1)[of r] less(2) hl
        by (auto simp: Node intro: order_trans[OF power_increasing[OF div_le_mono]])
      moreover have "height t div 2 = Suc ((h - 1) div 2)"
      proof -
        obtain k where "h = Suc k"
          using False by (cases h) auto
        moreover have "height t = Suc h"
          by (simp add: Node h_def)
        ultimately show ?thesis by simp
      qed
      ultimately show ?thesis
        by (simp add: Node)
    qed
  qed simp
qed

lemma avl_height_63:
  assumes "avl t" and "size t < 2 ^ 32 - 1"
  shows "height t \<le> 63"
proof (rule ccontr)
  assume "\<not> height t \<le> 63"
  then have "32 \<le> height t div 2" by simp
  then have "(2 :: nat) ^ 32 \<le> 2 ^ (height t div 2)"
    by (intro power_increasing) auto
  then show False
    using avl_height_bound[OF assms(1)] assms(2) by linarith
qed

section \<open>The tree as an ordered map\<close>

text \<open>
  A comparison function that follows a key in a linear order. Under it the tree is a finite
  map from keys to elements; \<open>kavl_inv\<close> is the invariant the operations keep.
\<close>

definition kavl_inv :: "('a \<Rightarrow> 'k::linorder) \<Rightarrow> 'a kavl \<Rightarrow> bool" where
  "kavl_inv key t \<longleftrightarrow> avl t \<and> sorted_wrt (<) (map key (inorder t))"

definition kavl_map :: "('a \<Rightarrow> 'k) \<Rightarrow> 'a kavl \<Rightarrow> 'k \<rightharpoonup> 'a" where
  "kavl_map key t = map_of (map (\<lambda>a. (key a, a)) (inorder t))"

lemma map_of_notin: "k \<notin> key ` set xs \<Longrightarrow> map_of (map (\<lambda>a. (key a, a)) xs) k = None"
  by (induction xs) auto

lemma map_of_middle:
  assumes "key x \<notin> key ` set xs" and "key x \<notin> key ` set ys"
  shows "map_of (map (\<lambda>a. (key a, a)) (xs @ x # ys)) =
         (map_of (map (\<lambda>a. (key a, a)) (xs @ ys)))(key x \<mapsto> x)"
  using assms by (auto simp: map_add_def fun_eq_iff map_of_notin split: option.splits)

lemma map_of_without:
  assumes "key x \<notin> key ` set xs" and "key x \<notin> key ` set ys"
  shows "map_of (map (\<lambda>a. (key a, a)) (xs @ ys)) =
         (map_of (map (\<lambda>a. (key a, a)) (xs @ x # ys)))(key x := None)"
  using assms by (auto simp: map_add_def fun_eq_iff map_of_notin split: option.splits)

locale kavl_order =
  fixes cmp :: "'a \<Rightarrow> 'a \<Rightarrow> int" and key :: "'a \<Rightarrow> 'k::linorder"
  assumes cmp_less: "cmp x y < 0 \<longleftrightarrow> key x < key y"
    and cmp_eq: "cmp x y = 0 \<longleftrightarrow> key x = key y"
begin

lemma cmp_greater: "0 < cmp x y \<longleftrightarrow> key y < key x"
  using cmp_less[of x y] cmp_eq[of x y] by (metis antisym_conv3 linorder_less_linear less_asym)

lemmas cmp_simps = cmp_less cmp_eq cmp_greater

lemma find_in_order:
  "sorted_wrt (<) (map key (inorder t)) \<Longrightarrow> kavl_find cmp t x = kavl_map key t (key x)"
proof (induction t)
  case Null
  then show ?case by (simp add: kavl_map_def)
next
  case (Node l a b s r)
  have l: "\<forall>y \<in> set (inorder l). key y < key a" and r: "\<forall>y \<in> set (inorder r). key a < key y"
    using Node.prems by (auto simp: sorted_wrt_append)
  have nl: "key x \<notin> key ` set (inorder l)" if "key a \<le> key x"
    using l that by force
  have nr: "key x \<notin> key ` set (inorder r)" if "key x \<le> key a"
    using r that by force
  consider "key x < key a" | "key x = key a" | "key a < key x"
    by (metis linorder_less_linear)
  then show ?case
  proof cases
    case 1
    then show ?thesis
      using Node nr by (simp add: cmp_simps kavl_map_def sorted_wrt_append map_add_def map_of_notin split: option.splits)
  next
    case 2
    then show ?thesis
      using nl by (simp add: cmp_simps kavl_map_def map_add_def map_of_notin)
  next
    case 3
    then have "\<not> key x < key a" "key x \<noteq> key a"
      by auto
    then show ?thesis
      using 3 Node nl by (simp add: cmp_simps kavl_map_def sorted_wrt_append map_add_def map_of_notin split: option.splits)
  qed
qed

lemma path_order:
  assumes "kavl_path cmp x t over below = Inr (over', below')"
    and "sorted_wrt (<) (map key (inorder t))"
    and "\<forall>y \<in> set (lefts (below @ over)). key y < key x" and "\<forall>y \<in> set (rights (below @ over)). key x < key y"
  shows "(\<forall>y \<in> set (lefts (below' @ over')). key y < key x) \<and> (\<forall>y \<in> set (rights (below' @ over')). key x < key y)"
  using assms
proof (induction t arbitrary: over below)
  case Null
  then show ?case by simp
next
  case (Node l a b s r)
  have srt: "sorted_wrt (<) (map key (inorder l))" "sorted_wrt (<) (map key (inorder r))"
    and la: "\<forall>y \<in> set (inorder l). key y < key a" and ra: "\<forall>y \<in> set (inorder r). key a < key y"
    using Node.prems(2) by (auto simp: sorted_wrt_append)
  define ov be where "ov = (if b \<noteq> 0 then below @ over else over)" and "be = (if b \<noteq> 0 then [] else below)"
  have lr: "lefts (be @ ov) = lefts (below @ over)" "rights (be @ ov) = rights (below @ over)"
    by (simp_all add: ov_def be_def)
  consider "0 < cmp x a" "kavl_path cmp x r ov (Frame True a b s l # be) = Inr (over', below')"
    | "cmp x a < 0" "kavl_path cmp x l ov (Frame False a b s r # be) = Inr (over', below')"
    using Node.prems(1) by (auto simp: Let_def ov_def[symmetric] be_def[symmetric] split: if_splits)
  then show ?case
  proof cases
    case 1
    then have "key a < key x" by (simp add: cmp_simps)
    then show ?thesis
      using Node.IH(2)[OF 1(2) srt(2)] lr la Node.prems(3,4) by fastforce
  next
    case 2
    then have "key x < key a" by (simp add: cmp_simps)
    then show ?thesis
      using Node.IH(1)[OF 2(2) srt(1)] lr ra Node.prems(3,4) by fastforce
  qed
qed

lemma path_found:
  "kavl_path cmp x t over below = Inl a \<Longrightarrow> a \<in> set (inorder t) \<and> key a = key x"
  by (induction t arbitrary: over below) (auto simp: Let_def cmp_simps split: if_splits)

lemma map_of_member:
  "sorted_wrt (<) (map key xs) \<Longrightarrow> a \<in> set xs \<Longrightarrow> map_of (map (\<lambda>a. (key a, a)) xs) (key a) = Some a"
  by (induction xs) auto

theorem insert_correct:
  assumes inv: "kavl_inv key t" and small: "size t < 2 ^ 32 - 1"
  shows "\<exists>v t'. kavl_insert cmp t x = Some (v, t') \<and> kavl_inv key t'
     \<and> (case kavl_map key t (key x) of
          Some a \<Rightarrow> v = a \<and> t' = t
        | None \<Rightarrow> v = x \<and> kavl_map key t' = (kavl_map key t)(key x \<mapsto> x) \<and> size t' = Suc (size t))"
proof (cases "kavl_path cmp x t [] []")
  case (Inl a)
  have srt: "sorted_wrt (<) (map key (inorder t))"
    using inv by (simp add: kavl_inv_def)
  have "kavl_map key t (key x) = Some a"
    using path_found[OF Inl] map_of_member[OF srt, of a] by (simp add: kavl_map_def)
  then show ?thesis
    using Inl inv by (simp add: kavl_insert_def)
next
  case (Inr p)
  obtain over below where p: "p = (over, below)"
    by (cases p)
  define L R where "L = lefts (below @ over)" and "R = rights (below @ over)"
  obtain t' where t': "kavl_insert cmp t x = Some (x, t')" "avl t'" "inorder t = L @ R" "inorder t' = L @ x # R"
  proof -
    have "avl t" using inv by (simp add: kavl_inv_def)
    then show ?thesis
      using kavl_insert_new[OF Inr[unfolded p]] avl_height_63[OF _ small] that
      unfolding L_def R_def by blast
  qed
  have srt: "sorted_wrt (<) (map key L)" "sorted_wrt (<) (map key R)"
    using inv unfolding kavl_inv_def t'(3) by (simp_all add: sorted_wrt_append)
  have ord: "\<forall>y \<in> set L. key y < key x" "\<forall>y \<in> set R. key x < key y"
    using path_order[OF Inr[unfolded p]] inv unfolding kavl_inv_def L_def R_def by simp_all
  then have out: "key x \<notin> key ` set L" "key x \<notin> key ` set R"
    by auto
  have "kavl_map key t (key x) = None"
    using out t'(3) map_of_notin[of "key x" key "L @ R"] by (simp add: kavl_map_def image_Un)
  moreover have "kavl_map key t' = (kavl_map key t)(key x \<mapsto> x)"
    using map_of_middle[OF out] t' by (simp add: kavl_map_def)
  moreover have "kavl_inv key t'"
    using srt t'(2) ord unfolding kavl_inv_def t'(4) by (fastforce simp: sorted_wrt_append)
  moreover have "size t' = Suc (size t)"
    using t' by (simp add: size_inorder)
  ultimately show ?thesis
    using t'(1) by simp
qed

end

context kavl_order
begin

lemma erase_path_found:
  "kavl_erase_path cmp x t fs = Some (Node l a b s r, gs) \<Longrightarrow> key a = key x"
  by (induction t arbitrary: fs) (auto simp: Let_def cmp_simps split: if_splits)

lemma erase_path_missing:
  "sorted_wrt (<) (map key (inorder t)) \<Longrightarrow> kavl_erase_path cmp x t fs = None \<Longrightarrow>
   key x \<notin> key ` set (inorder t)"
proof (induction t arbitrary: fs)
  case (Node l a b s r)
  have srt: "sorted_wrt (<) (map key (inorder l))" "sorted_wrt (<) (map key (inorder r))"
    and la: "\<forall>y \<in> set (inorder l). key y < key a" and ra: "\<forall>y \<in> set (inorder r). key a < key y"
    using Node.prems(1) by (auto simp: sorted_wrt_append)
  consider "key a < key x" "kavl_erase_path cmp x r (Frame True a b s l # fs) = None"
    | "key x < key a" "kavl_erase_path cmp x l (Frame False a b s r # fs) = None"
    using Node.prems(2) by (auto simp: Let_def cmp_simps split: if_splits)
  then show ?case
  proof cases
    case 1
    then show ?thesis using Node.IH(2)[OF srt(2) 1(2)] la by fastforce
  next
    case 2
    then show ?thesis using Node.IH(1)[OF srt(1) 2(2)] ra by fastforce
  qed
qed simp

text \<open>Unlinking a node removes its key from the map and nothing else.\<close>

lemma unlink_correct:
  assumes inv: "kavl_inv key t" and small: "size t < 2 ^ 32 - 1" and t: "plugs fs (Node l a b s r) = t"
  shows "\<exists>t'. kavl_unlink (Node l a b s r) fs = Some t' \<and> kavl_inv key t'
     \<and> kavl_map key t (key a) = Some a \<and> kavl_map key t' = (kavl_map key t)(key a := None)
     \<and> inorder t = lefts fs @ inorder l @ a # inorder r @ rights fs
     \<and> inorder t' = lefts fs @ inorder l @ inorder r @ rights fs"
proof -
  define L R where "L = lefts fs @ inorder l" and "R = inorder r @ rights fs"
  have io: "inorder t = L @ a # R"
    using inorder_plugs[of fs "Node l a b s r"] t by (simp add: L_def R_def)
  have srt: "sorted_wrt (<) (map key (L @ a # R))" and av: "avl t"
    using inv unfolding kavl_inv_def io by simp_all
  then have out: "key a \<notin> key ` set L" "key a \<notin> key ` set R"
    by (auto simp: sorted_wrt_append)
  obtain t' where t': "kavl_unlink (Node l a b s r) fs = Some t'" "avl t'" "inorder t' = L @ R"
    using kavl_unlink_spec[of fs l a b s r] av avl_height_63[OF av small] t by (auto simp: L_def R_def)
  have "sorted_wrt (<) (map key (L @ R))"
    using srt by (auto simp: sorted_wrt_append)
  then have "kavl_inv key t'"
    using t' by (simp add: kavl_inv_def)
  moreover have "kavl_map key t (key a) = Some a"
    using map_of_middle[OF out] by (simp add: kavl_map_def io)
  moreover have "kavl_map key t' = (kavl_map key t)(key a := None)"
    unfolding kavl_map_def io t'(3) by (rule map_of_without[OF out])
  ultimately show ?thesis
    using t' io by (auto simp: L_def R_def)
qed

theorem erase_correct:
  assumes inv: "kavl_inv key t" and small: "size t < 2 ^ 32 - 1"
  shows "\<exists>t'. kavl_erase cmp t x = Some (kavl_map key t (key x), t') \<and> kavl_inv key t'
     \<and> kavl_map key t' = (kavl_map key t)(key x := None)"
proof (cases "kavl_erase_path cmp x t []")
  case None
  have "kavl_map key t (key x) = None"
    using erase_path_missing[OF _ None] inv map_of_notin unfolding kavl_inv_def kavl_map_def by metis
  then show ?thesis
    using inv None by (auto simp: kavl_erase_def fun_upd_idem)
next
  case (Some q)
  then obtain l a b s r fs where q: "q = (Node l a b s r, fs)" "plugs fs (Node l a b s r) = t" "key a = key x"
    using kavl_erase_path_spec[of cmp x t "[]"] erase_path_found
    by (cases q; cases "fst q") auto
  show ?thesis
    using unlink_correct[OF inv small q(2)] q Some by (auto simp: kavl_erase_def)
qed

theorem erase_first_correct:
  assumes inv: "kavl_inv key t" and small: "size t < 2 ^ 32 - 1"
  shows "case t of
           Null \<Rightarrow> kavl_erase_first t = Some (None, t)
         | _ \<Rightarrow> \<exists>a t'. kavl_erase_first t = Some (Some a, t') \<and> kavl_inv key t' \<and> inorder t = a # inorder t'"
proof (cases "t = Null")
  case False
  then obtain p fs where p: "kavl_first_path t [] = Some (p, fs)"
    using kavl_first_path_Some by blast
  then obtain a b s r where n: "p = Node Null a b s r" "plugs fs p = t" "lefts fs = []"
    using kavl_first_path_spec[OF p] by auto
  have "fheight fs (height p) \<le> 63"
    using avl_height_63[OF _ small] inv n(2) height_plugs[of fs p] by (simp add: kavl_inv_def)
  then have "length fs + 2 \<le> KAVL_MAX_DEPTH"
    using length_le_fheight[of "height p" fs] n(1) by (simp add: KAVL_MAX_DEPTH_def)
  then show ?thesis
    using unlink_correct[OF inv small n(2)[unfolded n(1)]] p n False
    by (auto simp: kavl_erase_first_def split: kavl.split)
qed (simp add: kavl_erase_first_def)

end

end
