(* ===== verification/Mpool.thy ===== *)
theory Mpool
  imports Kavl "HOL-Library.List_Lexorder" "HOL-Library.Product_Lexorder"
begin

text \<open>
  The memory pool of \<open>byedpi/mpool.c\<close>: a set of byte strings kept in a kavl tree ordered by
  length and then by \<open>memcmp\<close>, each with the strategy \<open>m\<close> and the time a cache entry has.
  \<open>len\<close> is the length of \<open>data\<close>. Whether an allocation succeeds is a parameter of the
  operation that makes it.

  The locale \<open>byte_store\<close> is what the clients (the strategy cache of \<open>extend.c\<close> and the
  host lists of \<open>main.c\<close>) rely on; the pool is its instance.
\<close>

section \<open>The code\<close>

record elem =
  data :: bytes
  e_m :: int
  e_time :: int

record mphdr =
  stat :: bool
  root :: "elem kavl"

definition scmp :: "elem \<Rightarrow> elem \<Rightarrow> int" where
  "scmp p q =
     (if length (data p) \<noteq> length (data q)
      then (if length (data p) < length (data q) then - 1 else 1)
      else memcmp (data p) (data q))"

definition mem_pool :: "bool \<Rightarrow> bool \<Rightarrow> mphdr option" where
  "mem_pool calloc_ok cst = (if calloc_ok then Some \<lparr>stat = cst, root = Null\<rparr> else None)"

definition fresh_elem :: "bytes \<Rightarrow> elem" where
  "fresh_elem str = \<lparr>data = str, e_m = 0, e_time = 0\<rparr>"

definition mem_get :: "mphdr \<Rightarrow> bytes \<Rightarrow> elem option" where
  "mem_get hdr str = kavl_find scmp (root hdr) (fresh_elem str)"

text \<open>
  \<open>calloc_ok\<close> is the allocation of the element, \<open>malloc_ok\<close> that of the copy of the string
  a non-static pool makes. The result is the element returned (\<open>None\<close> for a null pointer).
\<close>

definition mem_add :: "bool \<Rightarrow> bool \<Rightarrow> mphdr \<Rightarrow> bytes \<Rightarrow> (elem option \<times> mphdr) option" where
  "mem_add calloc_ok malloc_ok hdr str =
     (if \<not> calloc_ok then Some (None, hdr)
      else if \<not> stat hdr \<and> \<not> malloc_ok then Some (None, hdr)
      else do {
        (v, t) \<leftarrow> kavl_insert scmp (root hdr) (fresh_elem str);
        Some (Some v, hdr\<lparr>root := t\<rparr>)
      })"

definition mem_delete :: "mphdr \<Rightarrow> bytes \<Rightarrow> mphdr option" where
  "mem_delete hdr str = do {
     (e, t) \<leftarrow> kavl_erase scmp (root hdr) (fresh_elem str);
     Some (hdr\<lparr>root := t\<rparr>)
   }"

text \<open>
  The loop of \<open>mem_destroy\<close>, with the elements it frees in order. Every round removes one
  element, so that the fuel, one more than the number of elements, is never used up.
\<close>

fun mem_destroy_loop :: "nat \<Rightarrow> mphdr \<Rightarrow> elem list option" where
  "mem_destroy_loop 0 hdr = None"
| "mem_destroy_loop (Suc n) hdr =
     (if root hdr = Null then Some []
      else do {
        (e, t) \<leftarrow> kavl_erase_first (root hdr);
        case e of
          None \<Rightarrow> Some []
        | Some e \<Rightarrow> do {
            es \<leftarrow> mem_destroy_loop n (hdr\<lparr>root := t\<rparr>);
            Some (e # es)
          }
      })"

definition mem_destroy :: "mphdr \<Rightarrow> elem list option" where
  "mem_destroy hdr = mem_destroy_loop (Suc (size (root hdr))) hdr"

text \<open>A write through the element pointer \<open>mem_get\<close> and \<open>mem_add\<close> return.\<close>

fun kavl_modify :: "('a \<Rightarrow> 'a \<Rightarrow> int) \<Rightarrow> 'a kavl \<Rightarrow> 'a \<Rightarrow> ('a \<Rightarrow> 'a) \<Rightarrow> 'a kavl" where
  "kavl_modify cmp Null x f = Null"
| "kavl_modify cmp (Node l a b s r) x f =
     (let c = cmp x a in
      if c < 0 then Node (kavl_modify cmp l x f) a b s r
      else if 0 < c then Node l a b s (kavl_modify cmp r x f)
      else Node l (f a) b s r)"

definition mem_update :: "mphdr \<Rightarrow> bytes \<Rightarrow> (elem \<Rightarrow> elem) \<Rightarrow> mphdr" where
  "mem_update hdr str f = hdr\<lparr>root := kavl_modify scmp (root hdr) (fresh_elem str) f\<rparr>"

section \<open>The order of the pool\<close>

definition elem_key :: "elem \<Rightarrow> nat \<times> bytes" where
  "elem_key e = (length (data e), data e)"

lemma memcmp_less: "length xs = length ys \<Longrightarrow> memcmp xs ys < 0 \<longleftrightarrow> xs < ys"
  by (induction xs ys rule: list_induct2) auto

interpretation pool: kavl_order scmp elem_key
proof
  show "scmp x y < 0 \<longleftrightarrow> elem_key x < elem_key y" for x y
    by (auto simp: scmp_def elem_key_def less_prod_def memcmp_less)
  show "scmp x y = 0 \<longleftrightarrow> elem_key x = elem_key y" for x y
    by (auto simp: scmp_def elem_key_def memcmp_eq_0)
qed

section \<open>The pool as a map from strings to elements\<close>

definition mp_inv :: "mphdr \<Rightarrow> bool" where
  "mp_inv hdr \<longleftrightarrow> kavl_inv elem_key (root hdr)"

definition mp_count :: "mphdr \<Rightarrow> nat" where
  "mp_count hdr = size (root hdr)"

definition mp_map :: "mphdr \<Rightarrow> bytes \<rightharpoonup> elem" where
  "mp_map hdr str = kavl_map elem_key (root hdr) (length str, str)"

lemma elem_key_fresh [simp]: "elem_key (fresh_elem str) = (length str, str)"
  by (simp add: elem_key_def fresh_elem_def)

lemma mem_get_map: "mp_inv hdr \<Longrightarrow> mem_get hdr str = mp_map hdr str"
  using pool.find_in_order[of "root hdr" "fresh_elem str"]
  by (simp add: mem_get_def mp_map_def mp_inv_def kavl_inv_def)

lemma mem_add_map:
  assumes "mp_inv hdr" and "mp_count hdr < 2 ^ 32 - 1"
  shows "\<exists>v hdr'. mem_add True True hdr str = Some (Some v, hdr') \<and> mp_inv hdr' \<and> stat hdr' = stat hdr
     \<and> v = (case mp_map hdr str of Some a \<Rightarrow> a | None \<Rightarrow> fresh_elem str)
     \<and> mp_map hdr' = (mp_map hdr)(str \<mapsto> v) \<and> mp_count hdr' \<le> Suc (mp_count hdr)"
proof -
  obtain v t where v: "kavl_insert scmp (root hdr) (fresh_elem str) = Some (v, t)" "kavl_inv elem_key t"
    "case kavl_map elem_key (root hdr) (length str, str) of
       Some a \<Rightarrow> v = a \<and> t = root hdr
     | None \<Rightarrow> v = fresh_elem str
         \<and> kavl_map elem_key t = (kavl_map elem_key (root hdr))((length str, str) \<mapsto> fresh_elem str)
         \<and> size t = Suc (size (root hdr))"
    using pool.insert_correct[of "root hdr" "fresh_elem str"] assms
    unfolding mp_inv_def mp_count_def elem_key_fresh by blast
  then show ?thesis
    by (auto simp: mem_add_def mp_inv_def mp_map_def mp_count_def fun_eq_iff split: option.splits)
qed

lemma mem_delete_map:
  assumes "mp_inv hdr" and "mp_count hdr < 2 ^ 32 - 1"
  shows "\<exists>hdr'. mem_delete hdr str = Some hdr' \<and> mp_inv hdr' \<and> stat hdr' = stat hdr
     \<and> mp_map hdr' = (mp_map hdr)(str := None)"
  using pool.erase_correct[of "root hdr" "fresh_elem str"] assms
  by (auto simp: mem_delete_def mp_inv_def mp_map_def mp_count_def fun_eq_iff)

lemma kavl_modify_shape [simp]:
  "height (kavl_modify cmp t x f) = height t" "size (kavl_modify cmp t x f) = size t"
  by (induction t) (auto simp: Let_def)

lemma avl_modify: "avl t \<Longrightarrow> avl (kavl_modify cmp t x f)"
  by (induction t) (auto simp: Let_def)

lemma inorder_modify:
  assumes "sorted_wrt (<) (map elem_key (inorder t))"
  shows "inorder (kavl_modify scmp t x f) = map (\<lambda>a. if elem_key a = elem_key x then f a else a) (inorder t)"
  using assms
proof (induction t)
  case (Node l a b s r)
  have l: "\<forall>y \<in> set (inorder l). elem_key y < elem_key a" and r: "\<forall>y \<in> set (inorder r). elem_key a < elem_key y"
    using Node.prems by (auto simp: sorted_wrt_append)
  have id: "map (\<lambda>a. if elem_key a = elem_key x then f a else a) ys = ys"
    if "\<forall>y \<in> set ys. elem_key y \<noteq> elem_key x" for ys
    using that by (intro map_idI) auto
  consider "elem_key x < elem_key a" | "elem_key x = elem_key a" | "elem_key a < elem_key x"
    by (metis linorder_less_linear)
  then show ?case
  proof cases
    case 1
    then have "\<forall>y \<in> set (inorder r). elem_key y \<noteq> elem_key x" "elem_key a \<noteq> elem_key x"
      using r by fastforce+
    then show ?thesis
      using 1 Node by (simp add: pool.cmp_simps id sorted_wrt_append)
  next
    case 2
    then have "\<forall>y \<in> set (inorder l). elem_key y \<noteq> elem_key x" "\<forall>y \<in> set (inorder r). elem_key y \<noteq> elem_key x"
      using l r by force+
    then show ?thesis
      using 2 id[of "inorder l"] id[of "inorder r"] by (simp add: pool.cmp_simps)
  next
    case 3
    then have "\<forall>y \<in> set (inorder l). elem_key y \<noteq> elem_key x" "elem_key a \<noteq> elem_key x" "\<not> elem_key x < elem_key a"
      using l by fastforce+
    then show ?thesis
      using 3 Node by (simp add: pool.cmp_simps id sorted_wrt_append)
  qed
qed simp

lemma mem_update_map:
  assumes "mp_inv hdr" and f: "\<And>a. data (f a) = data a"
  shows "mp_inv (mem_update hdr str f) \<and> mp_map (mem_update hdr str f) =
         (\<lambda>k. if k = str then map_option f (mp_map hdr k) else mp_map hdr k)"
proof -
  have key: "elem_key (f a) = elem_key a" for a
    by (simp add: elem_key_def f)
  have srt: "sorted_wrt (<) (map elem_key (inorder (root hdr)))" and "avl (root hdr)"
    using assms(1) by (simp_all add: mp_inv_def kavl_inv_def)
  note io = inorder_modify[OF srt, of "fresh_elem str" f]
  have km: "map elem_key (map (\<lambda>a. if elem_key a = k then f a else a) xs) = map elem_key xs" for xs k
    by (induction xs) (auto simp: key)
  have "map_of (map (\<lambda>a. (elem_key a, a)) (map (\<lambda>a. if elem_key a = k then f a else a) xs)) k'
      = (if k' = k then map_option f else id) (map_of (map (\<lambda>a. (elem_key a, a)) xs) k')" for xs k k'
    by (induction xs) (auto simp: key)
  note mo = this[of "(length str, str)"]
  have "mp_inv (mem_update hdr str f)"
    using srt \<open>avl (root hdr)\<close>
    by (simp add: mp_inv_def kavl_inv_def mem_update_def avl_modify io km del: map_map)
  moreover have "mp_map (mem_update hdr str f) k = (if k = str then map_option f (mp_map hdr k) else mp_map hdr k)" for k
    using mo by (simp add: mp_map_def mem_update_def kavl_map_def io)
  ultimately show ?thesis
    by auto
qed

lemma mem_destroy_loop_all:
  assumes "mp_inv hdr" and "mp_count hdr < n" and "mp_count hdr < 2 ^ 32 - 1"
  shows "mem_destroy_loop n hdr = Some (inorder (root hdr))"
  using assms
proof (induction n hdr rule: mem_destroy_loop.induct)
  case (2 n hdr)
  show ?case
  proof (cases "root hdr")
    case (Node l a b s r)
    then obtain e t where e: "kavl_erase_first (root hdr) = Some (Some e, t)" "kavl_inv elem_key t"
      "inorder (root hdr) = e # inorder t"
      using pool.erase_first_correct[of "root hdr"] 2(2,4) by (auto simp: mp_inv_def mp_count_def)
    have "size t < size (root hdr)"
      using e(3) by (simp add: size_inorder)
    then have "mem_destroy_loop n (hdr\<lparr>root := t\<rparr>) = Some (inorder t)"
      using 2(1)[OF _ _ refl refl, of e t] 2(3,4) e Node by (auto simp: mp_inv_def mp_count_def)
    then show ?thesis
      using e Node by simp
  qed (use 2 in simp)
qed simp

section \<open>What the clients rely on\<close>

text \<open>
  A store of byte strings: adding a key succeeds while there is room, keeps what is there and
  makes the key present.
\<close>

primrec add_all :: "('s \<Rightarrow> bytes \<Rightarrow> 's option) \<Rightarrow> bytes list \<Rightarrow> 's \<Rightarrow> 's option" where
  "add_all add [] s = Some s"
| "add_all add (k # ks) s = do { s' \<leftarrow> add s k; add_all add ks s' }"

locale byte_store =
  fixes ok :: "'s \<Rightarrow> bool" and count :: "'s \<Rightarrow> nat" and limit :: nat
    and look :: "'s \<Rightarrow> bytes \<Rightarrow> 'v option" and add :: "'s \<Rightarrow> bytes \<Rightarrow> 's option"
  assumes add_ok: "ok s \<Longrightarrow> count s < limit \<Longrightarrow>
    \<exists>s'. add s k = Some s' \<and> ok s' \<and> count s' \<le> Suc (count s)
      \<and> dom (look s') = insert k (dom (look s)) \<and> look s \<subseteq>\<^sub>m look s'"
begin

lemma add_all_ok:
  "ok s \<Longrightarrow> count s + length ks \<le> limit \<Longrightarrow>
   \<exists>s'. add_all add ks s = Some s' \<and> ok s' \<and> count s' \<le> count s + length ks
     \<and> dom (look s') = set ks \<union> dom (look s) \<and> look s \<subseteq>\<^sub>m look s'"
proof (induction ks arbitrary: s)
  case (Cons k ks)
  obtain s1 where s1: "add s k = Some s1" "ok s1" "count s1 \<le> Suc (count s)"
    "dom (look s1) = insert k (dom (look s))" "look s \<subseteq>\<^sub>m look s1"
    using add_ok[of s k] Cons.prems by auto
  then obtain s' where "add_all add ks s1 = Some s'" "ok s'" "count s' \<le> count s1 + length ks"
    "dom (look s') = set ks \<union> dom (look s1)" "look s1 \<subseteq>\<^sub>m look s'"
    using Cons.IH[of s1] Cons.prems by auto
  then show ?case
    using s1 map_le_trans[of "look s" "look s1" "look s'"] by auto
qed simp

end

text \<open>A cache adds deletion and writing the value of a present key.\<close>

locale byte_cache = byte_store ok count limit look add
  for ok :: "'s \<Rightarrow> bool" and count and limit and look :: "'s \<Rightarrow> bytes \<Rightarrow> 'v option" and add +
  fixes del :: "'s \<Rightarrow> bytes \<Rightarrow> 's option" and upd :: "'s \<Rightarrow> bytes \<Rightarrow> 'v \<Rightarrow> 's" and val :: "'v \<Rightarrow> 'w"
  assumes del_ok: "ok s \<Longrightarrow> count s < limit \<Longrightarrow>
      \<exists>s'. del s k = Some s' \<and> ok s' \<and> look s' = (look s)(k := None)"
    and upd_ok: "ok s \<Longrightarrow> ok (upd s k v)"
    and upd_look: "ok s \<Longrightarrow> map_option val (look (upd s k v) k') =
      (if k' = k \<and> look s k \<noteq> None then Some (val v) else map_option val (look s k'))"
begin

lemma set_get:
  assumes "ok s" and "count s < limit"
  shows "\<exists>s'. add s k = Some s' \<and> ok (upd s' k v) \<and> map_option val (look (upd s' k v) k) = Some (val v)
    \<and> (\<forall>k'. k' \<noteq> k \<longrightarrow> map_option val (look (upd s' k v) k') = map_option val (look s k'))"
proof -
  obtain s' where s': "add s k = Some s'" "ok s'" "dom (look s') = insert k (dom (look s))" "look s \<subseteq>\<^sub>m look s'"
    using add_ok[OF assms, of k] by auto
  then obtain v0 where "look s' k = Some v0"
    by auto
  moreover have "look s' k' = look s k'" if "k' \<noteq> k" for k'
  proof (cases "look s k'")
    case None
    then show ?thesis using s'(3) that by (metis domIff insert_iff)
  next
    case (Some x)
    then show ?thesis using s'(4) by (simp add: map_le_def dom_def)
  qed
  ultimately have "map_option val (look (upd s' k v) k') =
      (if k' = k then Some (val v) else map_option val (look s k'))" for k'
    using upd_look[OF s'(2), of k v k'] by simp
  then show ?thesis
    using s'(1) upd_ok[OF s'(2)] by metis
qed

end

definition mem_add_ok :: "mphdr \<Rightarrow> bytes \<Rightarrow> mphdr option" where
  "mem_add_ok hdr str = map_option snd (mem_add True True hdr str)"

interpretation mstore: byte_store mp_inv mp_count "2 ^ 32 - 1" mem_get mem_add_ok
proof
  fix s k
  assume s: "mp_inv s" "mp_count s < 2 ^ 32 - 1"
  obtain v s' where s': "mem_add True True s k = Some (Some v, s')" "mp_inv s'"
    "v = (case mp_map s k of Some a \<Rightarrow> a | None \<Rightarrow> fresh_elem k)"
    "mp_map s' = (mp_map s)(k \<mapsto> v)" "mp_count s' \<le> Suc (mp_count s)"
    using mem_add_map[OF s, of k] by blast
  have "dom (mem_get s') = insert k (dom (mem_get s))" "mem_get s \<subseteq>\<^sub>m mem_get s'"
    using s(1) s' by (auto simp: mem_get_map map_le_def split: option.splits)
  then show "\<exists>s'. mem_add_ok s k = Some s' \<and> mp_inv s' \<and> mp_count s' \<le> Suc (mp_count s)
      \<and> dom (mem_get s') = insert k (dom (mem_get s)) \<and> mem_get s \<subseteq>\<^sub>m mem_get s'"
    using s' by (auto simp: mem_add_ok_def)
qed

text \<open>The value of a cache entry is its strategy and its time.\<close>

definition elem_val :: "elem \<Rightarrow> int \<times> int" where
  "elem_val e = (e_m e, e_time e)"

definition mem_set :: "mphdr \<Rightarrow> bytes \<Rightarrow> elem \<Rightarrow> mphdr" where
  "mem_set hdr str v = mem_update hdr str (\<lambda>a. a\<lparr>e_m := e_m v, e_time := e_time v\<rparr>)"

interpretation mcache: byte_cache mp_inv mp_count "2 ^ 32 - 1" mem_get mem_add_ok mem_delete mem_set elem_val
proof
  show "\<exists>s'. mem_delete s k = Some s' \<and> mp_inv s' \<and> mem_get s' = (mem_get s)(k := None)"
    if "mp_inv s" "mp_count s < 2 ^ 32 - 1" for s k
    using mem_delete_map[OF that, of k] that(1) by (auto simp: mem_get_map fun_eq_iff)
  show "mp_inv (mem_set s k v)" if "mp_inv s" for s k v
    using mem_update_map[OF that] by (simp add: mem_set_def)
  show "map_option elem_val (mem_get (mem_set s k v) k') =
      (if k' = k \<and> mem_get s k \<noteq> None then Some (elem_val v) else map_option elem_val (mem_get s k'))"
    if "mp_inv s" for s k v k'
    using mem_update_map[OF that, of "\<lambda>a. a\<lparr>e_m := e_m v, e_time := e_time v\<rparr>" k] that
    by (auto simp: mem_set_def mem_get_map elem_val_def map_option_case split: option.splits)
qed

section \<open>Properties\<close>

text \<open>
  C24. The pool is a map from byte strings to elements: \<open>mem_get\<close> looks a string up,
  \<open>mem_add\<close> returns the element of a string that is there and otherwise adds a fresh one, and
  \<open>mem_delete\<close> removes the string and nothing else. The operations keep the tree an AVL tree
  with right sizes, in order, and never leave the path array of \<open>kavl.h\<close>.
\<close>

theorem mem_pool_is_map:
  assumes "mp_inv hdr" and "mp_count hdr < 2 ^ 32 - 1"
  shows "mem_get hdr = mp_map hdr
     \<and> (\<exists>v hdr'. mem_add True True hdr str = Some (Some v, hdr') \<and> mp_inv hdr'
          \<and> v = (case mp_map hdr str of Some a \<Rightarrow> a | None \<Rightarrow> fresh_elem str)
          \<and> mp_map hdr' = (mp_map hdr)(str \<mapsto> v))
     \<and> (\<exists>hdr'. mem_delete hdr str = Some hdr' \<and> mp_inv hdr' \<and> mp_map hdr' = (mp_map hdr)(str := None))"
  using mem_add_map[OF assms, of str] mem_delete_map[OF assms, of str] mem_get_map[OF assms(1)]
  by (metis ext)

definition one_host :: mphdr where
  "one_host = \<lparr>stat = True, root = Node Null (fresh_elem (cstr ''a.b'')) 0 1 Null\<rparr>"

lemma one_host_ok: "mp_inv one_host" "mp_count one_host < 2 ^ 32 - 1"
  by (simp_all add: one_host_def mp_inv_def mp_count_def kavl_inv_def)

theorem mem_pool_is_map_witness:
  "mem_get one_host = mp_map one_host
     \<and> (\<exists>v hdr'. mem_add True True one_host (cstr ''c'') = Some (Some v, hdr') \<and> mp_inv hdr'
          \<and> v = (case mp_map one_host (cstr ''c'') of Some a \<Rightarrow> a | None \<Rightarrow> fresh_elem (cstr ''c''))
          \<and> mp_map hdr' = (mp_map one_host)(cstr ''c'' \<mapsto> v))
     \<and> (\<exists>hdr'. mem_delete one_host (cstr ''c'') = Some hdr' \<and> mp_inv hdr'
          \<and> mp_map hdr' = (mp_map one_host)(cstr ''c'' := None))"
  by (rule mem_pool_is_map) (rule one_host_ok)+

text \<open>
  C25. \<open>mem_destroy\<close> ends and frees every element of the pool exactly once, in order.
\<close>

theorem mem_destroy_frees_all:
  assumes "mp_inv hdr" and "mp_count hdr < 2 ^ 32 - 1"
  shows "mem_destroy hdr = Some (inorder (root hdr)) \<and> distinct (map data (inorder (root hdr)))"
proof -
  have "sorted_wrt (<) (map elem_key (inorder (root hdr)))"
    using assms(1) by (simp add: mp_inv_def kavl_inv_def)
  then have "distinct (map elem_key (inorder (root hdr)))"
    by (simp add: strict_sorted_iff)
  then have "distinct (map data (inorder (root hdr)))"
    by (auto simp: distinct_map inj_on_def elem_key_def)
  then show ?thesis
    using mem_destroy_loop_all[OF assms(1) _ assms(2), of "Suc (size (root hdr))"]
    by (simp add: mem_destroy_def mp_count_def)
qed

theorem mem_destroy_frees_all_witness:
  "mem_destroy one_host = Some [fresh_elem (cstr ''a.b'')]"
  using mem_destroy_frees_all[OF one_host_ok] by (simp add: one_host_def)

text \<open>
  C26. Any sequence of additions to a fresh pool succeeds, whatever the order: afterwards
  exactly these strings are found, and no path from the root is longer than 63, one less than
  \<open>KAVL_MAX_DEPTH\<close>.
\<close>

theorem mem_add_all_found:
  assumes "length ks < 2 ^ 32 - 1" and "mem_pool True c = Some hdr"
  shows "\<exists>hdr'. add_all mem_add_ok ks hdr = Some hdr' \<and> dom (mem_get hdr') = set ks
     \<and> height (root hdr') \<le> 63"
proof -
  have hdr: "mp_inv hdr" "mp_count hdr = 0" "dom (mem_get hdr) = {}"
    using assms(2) by (auto simp: mem_pool_def mp_inv_def mp_count_def kavl_inv_def mem_get_def)
  obtain hdr' where h: "add_all mem_add_ok ks hdr = Some hdr'" "mp_inv hdr'" "mp_count hdr' \<le> length ks"
    "dom (mem_get hdr') = set ks"
    using mstore.add_all_ok[OF hdr(1), of ks] assms(1) hdr by auto
  have "height (root hdr') \<le> 63"
    using h(2,3) assms(1) by (intro avl_height_63) (auto simp: mp_inv_def kavl_inv_def mp_count_def)
  with h show ?thesis by blast
qed

theorem mem_add_all_found_witness:
  "\<exists>hdr'. add_all mem_add_ok [cstr ''c'', cstr ''a'', cstr ''b''] \<lparr>stat = True, root = Null\<rparr> = Some hdr'
     \<and> dom (mem_get hdr') = set [cstr ''c'', cstr ''a'', cstr ''b''] \<and> height (root hdr') \<le> 63"
  by (rule mem_add_all_found[where c = True]) (simp_all add: mem_pool_def)

end
