(* ===== verification/Packets.thy ===== *)
theory Packets
  imports Prelude
begin

text \<open>
  The packet library of ByeDPI, \<open>byedpi/packets.c\<close>: recognising TLS ClientHello and
  ServerHello records and HTTP requests, finding the host name in them, rewriting them
  (\<open>change_tls_sni\<close>, \<open>mod_http\<close>, \<open>part_tls\<close>) and comparing a request with its
  response (\<open>is_http_redirect\<close>, \<open>neq_tls_sid\<close>).

  A pointer into a buffer is its offset. An out parameter is a component of the result,
  \<open>None\<close> when the function leaves it unwritten. A buffer a function writes is returned.
\<close>

unbundle bit_operations_syntax

section \<open>Two-byte fields\<close>

definition ANTOHS :: "bytes \<Rightarrow> nat \<Rightarrow> u16 option" where
  "ANTOHS d i = do {
     hi \<leftarrow> rd d i;
     lo \<leftarrow> rd d (i + 1);
     Some (push_bit 8 (ucast hi) + ucast lo)
   }"

definition SHTONA :: "bytes \<Rightarrow> nat \<Rightarrow> int \<Rightarrow> bytes option" where
  "SHTONA d i x = do {
     d1 \<leftarrow> wr d i (word_of_int (x div 256));
     wr d1 (i + 1) (word_of_int x)
   }"

section \<open>Fake packets\<close>

definition tls_data :: bytes where
  "tls_data = [
     0x16, 0x03, 0x01, 0x02, 0x00, 0x01, 0x00, 0x01, 0xfc, 0x03, 0x03, 0x03, 0x5f,
     0x6f, 0x2c, 0xed, 0x13, 0x22, 0xf8, 0xdc, 0xb2, 0xf2, 0x60, 0x48, 0x2d, 0x72,
     0x66, 0x6f, 0x57, 0xdd, 0x13, 0x9d, 0x1b, 0x37, 0xdc, 0xfa, 0x36, 0x2e, 0xba,
     0xf9, 0x92, 0x99, 0x3a, 0x20, 0xf9, 0xdf, 0x0c, 0x2e, 0x8a, 0x55, 0x89, 0x82,
     0x31, 0x63, 0x1a, 0xef, 0xa8, 0xbe, 0x08, 0x58, 0xa7, 0xa3, 0x5a, 0x18, 0xd3,
     0x96, 0x5f, 0x04, 0x5c, 0xb4, 0x62, 0xaf, 0x89, 0xd7, 0x0f, 0x8b, 0x00, 0x3e,
     0x13, 0x02, 0x13, 0x03, 0x13, 0x01, 0xc0, 0x2c, 0xc0, 0x30, 0x00, 0x9f, 0xcc,
     0xa9, 0xcc, 0xa8, 0xcc, 0xaa, 0xc0, 0x2b, 0xc0, 0x2f, 0x00, 0x9e, 0xc0, 0x24,
     0xc0, 0x28, 0x00, 0x6b, 0xc0, 0x23, 0xc0, 0x27, 0x00, 0x67, 0xc0, 0x0a, 0xc0,
     0x14, 0x00, 0x39, 0xc0, 0x09, 0xc0, 0x13, 0x00, 0x33, 0x00, 0x9d, 0x00, 0x9c,
     0x00, 0x3d, 0x00, 0x3c, 0x00, 0x35, 0x00, 0x2f, 0x00, 0xff, 0x01, 0x00, 0x01,
     0x75, 0x00, 0x00, 0x00, 0x16, 0x00, 0x14, 0x00, 0x00, 0x11, 0x77, 0x77, 0x77,
     0x2e, 0x77, 0x69, 0x6b, 0x69, 0x70, 0x65, 0x64, 0x69, 0x61, 0x2e, 0x6f, 0x72,
     0x67, 0x00, 0x0b, 0x00, 0x04, 0x03, 0x00, 0x01, 0x02, 0x00, 0x0a, 0x00, 0x16,
     0x00, 0x14, 0x00, 0x1d, 0x00, 0x17, 0x00, 0x1e, 0x00, 0x19, 0x00, 0x18, 0x01,
     0x00, 0x01, 0x01, 0x01, 0x02, 0x01, 0x03, 0x01, 0x04, 0x00, 0x10, 0x00, 0x0e,
     0x00, 0x0c, 0x02, 0x68, 0x32, 0x08, 0x68, 0x74, 0x74, 0x70, 0x2f, 0x31, 0x2e,
     0x31, 0x00, 0x16, 0x00, 0x00, 0x00, 0x17, 0x00, 0x00, 0x00, 0x31, 0x00, 0x00,
     0x00, 0x0d, 0x00, 0x2a, 0x00, 0x28, 0x04, 0x03, 0x05, 0x03, 0x06, 0x03, 0x08,
     0x07, 0x08, 0x08, 0x08, 0x09, 0x08, 0x0a, 0x08, 0x0b, 0x08, 0x04, 0x08, 0x05,
     0x08, 0x06, 0x04, 0x01, 0x05, 0x01, 0x06, 0x01, 0x03, 0x03, 0x03, 0x01, 0x03,
     0x02, 0x04, 0x02, 0x05, 0x02, 0x06, 0x02, 0x00, 0x2b, 0x00, 0x09, 0x08, 0x03,
     0x04, 0x03, 0x03, 0x03, 0x02, 0x03, 0x01, 0x00, 0x2d, 0x00, 0x02, 0x01, 0x01,
     0x00, 0x33, 0x00, 0x26, 0x00, 0x24, 0x00, 0x1d, 0x00, 0x20, 0x11, 0x8c, 0xb8,
     0x8c, 0xe8, 0x8a, 0x08, 0x90, 0x1e, 0xee, 0x19, 0xd9, 0xdd, 0xe8, 0xd4, 0x06,
     0xb1, 0xd1, 0xe2, 0xab, 0xe0, 0x16, 0x63, 0xd6, 0xdc, 0xda, 0x84, 0xa4, 0xb8,
     0x4b, 0xfb, 0x0e, 0x00, 0x15, 0x00, 0xac, 0x00, 0x00, 0x00, 0x00, 0x00, 0x00] @ replicate 166 0"

definition http_data :: bytes where
  "http_data = cstr ''GET / HTTP/1.1'' @ [13, 10] @ cstr ''Host: www.wikipedia.org'' @ [13, 10, 13, 10]"

definition udp_data :: bytes where
  "udp_data = replicate 64 0"

section \<open>TLS\<close>

function strncasestr_from :: "bytes \<Rightarrow> nat \<Rightarrow> bytes \<Rightarrow> nat \<Rightarrow> nat option option" where
  "strncasestr_from a as b p = do {
     q \<leftarrow> memchr a p (as - p) (hd b);
     case q of
       None \<Rightarrow> Some None
     | Some p' \<Rightarrow>
         if as < p' + length b then Some None
         else do {
           m \<leftarrow> strncaseeq a p' b;
           if m then Some (Some p') else strncasestr_from a as b (Suc p')
         }
   }"
  by pat_completeness auto
termination
  by (relation "measure (\<lambda>(a, as, b, p). as - p)") (auto dest: memchr_Some_SomeD)

declare strncasestr_from.simps [simp del]

definition strncasestr :: "bytes \<Rightarrow> nat \<Rightarrow> bytes \<Rightarrow> nat option option" where
  "strncasestr a as b = strncasestr_from a as b 0"

function find_tls_ext_loop :: "u16 \<Rightarrow> bytes \<Rightarrow> nat \<Rightarrow> nat \<Rightarrow> nat option" where
  "find_tls_ext_loop ty data sz skip =
     (if skip + 4 < sz then do {
        epyt \<leftarrow> ANTOHS data skip;
        if ty = epyt then Some skip
        else do {
          len \<leftarrow> ANTOHS data (skip + 2);
          find_tls_ext_loop ty data sz (skip + (unat len + 4))
        }
      }
      else Some 0)"
  by pat_completeness auto
termination
  by (relation "measure (\<lambda>(ty, data, sz, skip). sz - skip)") auto

declare find_tls_ext_loop.simps [simp del]

definition find_tls_ext_offset :: "u16 \<Rightarrow> bytes \<Rightarrow> nat \<Rightarrow> nat \<Rightarrow> nat option" where
  "find_tls_ext_offset ty data sz skip =
     (if sz \<le> skip + 2 then Some 0
      else do {
        ext_len \<leftarrow> ANTOHS data skip;
        let skip = skip + 2;
        let sz = (if unat ext_len < sz - skip then unat ext_len + skip else sz);
        find_tls_ext_loop ty data sz skip
      })"

definition chello_ext_offset :: "u16 \<Rightarrow> bytes \<Rightarrow> nat \<Rightarrow> nat option" where
  "chello_ext_offset ty data sz =
     (if sz < 44 then Some 0
      else do {
        sid_len \<leftarrow> rd data 43;
        if sz < 44 + unat sid_len + 2 then Some 0
        else do {
          cip_len \<leftarrow> ANTOHS data (44 + unat sid_len);
          let skip = 44 + unat sid_len + 2 + unat cip_len + 2;
          find_tls_ext_offset ty data sz skip
        }
      })"

text \<open>
  \<open>host\<close> is the new name without its terminating NUL. \<open>memmove\<close> moves the \<open>oth_sz\<close>
  bytes that follow the old name to make room for the new one.
\<close>

definition change_tls_sni :: "bytes \<Rightarrow> bytes \<Rightarrow> nat \<Rightarrow> (int \<times> bytes) option" where
  "change_tls_sni host buffer bsize = do {
     sni_offs \<leftarrow> chello_ext_offset 0x00 buffer bsize;
     if sni_offs = 0 then Some (- 1, buffer)
     else do {
       pad_offs \<leftarrow> chello_ext_offset 0x15 buffer bsize;
       if pad_offs = 0 then Some (- 1, buffer)
       else do {
         sni_sz \<leftarrow> ANTOHS buffer (sni_offs + 2);
         let old_sz = sni_sz - 5;
         free_sz \<leftarrow> ANTOHS buffer (pad_offs + 2);
         let new_sz = (of_nat (length host) :: u16);
         let diff = int (unat new_sz) - int (unat old_sz);
         if unat free_sz \<noteq> bsize - pad_offs - 4 \<or> int (unat free_sz) < diff
         then Some (- 1, buffer)
         else do {
           b1 \<leftarrow> SHTONA buffer (sni_offs + 2) (int (unat old_sz) + diff + 5);
           b2 \<leftarrow> SHTONA b1 (sni_offs + 4) (int (unat old_sz) + diff + 3);
           b3 \<leftarrow> SHTONA b2 (sni_offs + 7) (int (unat old_sz) + diff);
           b4 \<leftarrow> SHTONA b3 (pad_offs + 2) (int (unat free_sz) - diff);
           let host_end = int (sni_offs + 9 + unat old_sz);
           let oth_sz = int bsize - host_end;
           b5 \<leftarrow> memmove b4 (host_end + diff) host_end oth_sz;
           b6 \<leftarrow> wrn b5 (int (sni_offs + 9)) (take (unat new_sz) host);
           Some (0, b6)
         }
       }
     }
   }"

definition is_tls_chello :: "bytes \<Rightarrow> nat \<Rightarrow> bool option" where
  "is_tls_chello buffer bsize =
     (if 5 < bsize then do {
        t \<leftarrow> ANTOHS buffer 0;
        if t = 0x1603 then do { x \<leftarrow> rd buffer 5; Some (x = 0x01) } else Some False
      }
      else Some False)"

definition parse_tls :: "bytes \<Rightarrow> nat \<Rightarrow> (int \<times> nat option) option" where
  "parse_tls buffer bsize = do {
     c \<leftarrow> is_tls_chello buffer bsize;
     if \<not> c then Some (0, None)
     else do {
       sni_offs \<leftarrow> chello_ext_offset 0x00 buffer bsize;
       if sni_offs = 0 \<or> bsize \<le> sni_offs + 12 then Some (0, None)
       else do {
         len \<leftarrow> ANTOHS buffer (sni_offs + 7);
         if bsize < sni_offs + 9 + unat len then Some (0, None)
         else Some (int (unat len), Some (sni_offs + 9))
       }
     }
   }"

section \<open>HTTP requests\<close>

definition http_methods :: "bytes list" where
  "http_methods = map cstr [''HEAD'', ''GET'', ''POST'', ''PUT'', ''DELETE'',
     ''OPTIONS'', ''CONNECT'', ''TRACE'', ''PATCH'']"

fun match_method :: "bytes \<Rightarrow> bytes list \<Rightarrow> bool option" where
  "match_method buffer [] = Some False"
| "match_method buffer (m # ms) = do {
     e \<leftarrow> strneq buffer 0 m;
     if e then Some True else match_method buffer ms
   }"

definition is_http :: "bytes \<Rightarrow> nat \<Rightarrow> bool option" where
  "is_http buffer bsize =
     (if bsize < 16 then Some False
      else do {
        c \<leftarrow> rd buffer 0;
        if of_char (CHR ''T'') < c \<or> c < of_char (CHR ''C'') then Some False
        else match_method buffer http_methods
      })"

text \<open>\<open>while ((buff_end - host) > 0 && isblank (*host)) host++;\<close>\<close>

function skip_blank :: "bytes \<Rightarrow> nat \<Rightarrow> nat \<Rightarrow> nat option" where
  "skip_blank b buff_end host =
     (if host < buff_end then do {
        x \<leftarrow> rd b host;
        if isblank x then skip_blank b buff_end (Suc host) else Some host
      }
      else Some host)"
  by pat_completeness auto
termination
  by (relation "measure (\<lambda>(b, buff_end, host). buff_end - host)") auto

declare skip_blank.simps [simp del]

text \<open>\<open>for (; isspace (*(l_end - 1)); l_end--) {}\<close>; reading before the buffer faults.\<close>

fun back_spaces :: "bytes \<Rightarrow> nat \<Rightarrow> nat option" where
  "back_spaces b 0 = None"
| "back_spaces b (Suc j) = do {
     x \<leftarrow> rd b j;
     if isspace x then back_spaces b j else Some (Suc j)
   }"

text \<open>The last colon before \<open>l_end\<close>, by the \<open>do\<close> loop over \<open>memchr\<close>.\<close>

function last_colon :: "bytes \<Rightarrow> nat \<Rightarrow> nat \<Rightarrow> nat option \<Rightarrow> nat option option" where
  "last_colon b h l_end h_end = do {
     q \<leftarrow> memchr b h (l_end - h) 58;
     case q of
       None \<Rightarrow> Some h_end
     | Some p \<Rightarrow> if Suc p < l_end then last_colon b (Suc p) l_end (Some p) else Some (Some p)
   }"
  by pat_completeness auto
termination
  by (relation "measure (\<lambda>(b, h, l_end, h_end). l_end - h)") (auto dest: memchr_Some_SomeD)

declare last_colon.simps [simp del]

definition host_hdr :: bytes where
  "host_hdr = 10 # cstr ''Host:''"

text \<open>
  The result is the return value, \<open>*hs\<close> and \<open>*port\<close>. \<open>port\<close> says whether the caller
  passes a port pointer.
\<close>

definition parse_http :: "bytes \<Rightarrow> nat \<Rightarrow> bool \<Rightarrow> (int \<times> nat option \<times> u16 option) option" where
  "parse_http buffer bsize port = do {
     h \<leftarrow> is_http buffer bsize;
     if \<not> h then Some (0, None, None)
     else do {
       s \<leftarrow> strncasestr buffer bsize host_hdr;
       case s of
         None \<Rightarrow> Some (0, None, None)
       | Some at \<Rightarrow> do {
           host \<leftarrow> skip_blank buffer bsize (at + 6);
           l \<leftarrow> memchr buffer host (bsize - host) 10;
           case l of
             None \<Rightarrow> Some (0, None, None)
           | Some nl \<Rightarrow> do {
               l_end \<leftarrow> back_spaces buffer nl;
               c \<leftarrow> rd buffer (l_end - 1);
               h_end \<leftarrow> (if isdigit c then last_colon buffer host l_end None else Some None);
               case h_end of
                 None \<Rightarrow>
                   Some (int l_end - int host, Some host, if port then Some 80 else None)
               | Some h_end \<Rightarrow>
                   if port then do {
                     (i, e) \<leftarrow> strtol buffer (h_end + 1) 10;
                     if i \<le> 0 \<or> e \<noteq> l_end \<or> 0xffff < i then Some (0, None, None)
                     else Some (int h_end - int host, Some host, Some (word_of_int i))
                   }
                   else Some (int h_end - int host, Some host, None)
             }
         }
     }
   }"

section \<open>Responses\<close>

definition get_http_code :: "bytes \<Rightarrow> nat \<Rightarrow> int option" where
  "get_http_code b n =
     (if n < 13 then Some 0
      else do {
        m \<leftarrow> strneq b 0 (cstr ''HTTP/1.'');
        if \<not> m then Some 0
        else do {
          nl \<leftarrow> memchr b 13 n 10;
          case nl of
            None \<Rightarrow> Some 0
          | Some _ \<Rightarrow> do {
              (num, e) \<leftarrow> strtol b 9 10;
              c \<leftarrow> rd b e;
              if num < 100 \<or> 511 < num \<or> \<not> isspace c then Some 0 else Some num
            }
        }
      })"

text \<open>
  The two loops that drop leading labels until the names have the same length. The result
  \<open>None\<close> under \<open>Some\<close> is the early \<open>return 1\<close>. The second loop updates \<open>len\<close> as the
  source does, with \<open>len -= (host - p) + 1\<close>.
\<close>

function redirect_skip_location :: "bytes \<Rightarrow> nat \<Rightarrow> int \<Rightarrow> nat \<Rightarrow> nat option option" where
  "redirect_skip_location resp e len location =
     (if len < int e - int location then do {
        q \<leftarrow> memchr resp location (nat (c_size (int e - int location))) 46;
        case q of
          None \<Rightarrow> Some None
        | Some p \<Rightarrow> redirect_skip_location resp e len (Suc p)
      }
      else Some (Some location))"
  by pat_completeness auto
termination
  by (relation "measure (\<lambda>(resp, e, len, location). length resp - location)")
     (auto dest: memchr_Some_SomeD)

function redirect_skip_host :: "bytes \<Rightarrow> int \<Rightarrow> int \<Rightarrow> nat \<Rightarrow> (int \<times> nat) option option" where
  "redirect_skip_host req rest len host =
     (if rest < len then do {
        q \<leftarrow> memchr req host (nat (c_size len)) 46;
        case q of
          None \<Rightarrow> Some None
        | Some p \<Rightarrow> redirect_skip_host req rest (len - ((int host - int p) + 1)) (Suc p)
      }
      else Some (Some (len, host)))"
  by pat_completeness auto
termination
  by (relation "measure (\<lambda>(req, rest, len, host). length req - host)")
     (auto dest: memchr_Some_SomeD)

declare redirect_skip_location.simps [simp del] redirect_skip_host.simps [simp del]

definition location_hdr :: bytes where
  "location_hdr = 10 # cstr ''Location:''"

definition is_http_redirect :: "bytes \<Rightarrow> nat \<Rightarrow> bytes \<Rightarrow> nat \<Rightarrow> bool option" where
  "is_http_redirect req qn resp sn = do {
     (len, hs, _) \<leftarrow> parse_http req qn False;
     if len \<le> 0 \<or> sn < 29 then Some False
     else do {
       let host = (case hs of Some h \<Rightarrow> h | None \<Rightarrow> 0);
       code \<leftarrow> get_http_code resp sn;
       if 308 < code \<or> code < 300 then Some False
       else do {
         lh \<leftarrow> strncasestr resp sn location_hdr;
         case lh of
           None \<Rightarrow> Some False
         | Some at \<Rightarrow>
             if sn \<le> at + 11 + 8 then Some False
             else do {
               let location = at + 11;
               nl \<leftarrow> memchr resp location (sn - location) 10;
               case nl of
                 None \<Rightarrow> Some False
               | Some l \<Rightarrow> do {
                   l_end \<leftarrow> back_spaces resp l;
                   http \<leftarrow> (if 7 < int l_end - int location
                            then strneq resp location (cstr ''http://'') else Some False);
                   https \<leftarrow> (if 7 < int l_end - int location \<and> \<not> http
                             then strneq resp location (cstr ''https://'') else Some False);
                   let location = (if http then location + 7
                                   else if https then location + 8 else location);
                   sl \<leftarrow> memchr resp location (nat (c_size (int l_end - int location))) 47;
                   let e = (case sl of None \<Rightarrow> l_end | Some p \<Rightarrow> p);
                   a \<leftarrow> redirect_skip_location resp e len location;
                   case a of
                     None \<Rightarrow> Some True
                   | Some location \<Rightarrow> do {
                       h \<leftarrow> redirect_skip_host req (int e - int location) len host;
                       case h of
                         None \<Rightarrow> Some True
                       | Some (len, host) \<Rightarrow>
                           if int e - int location \<noteq> len then Some True
                           else do {
                             same \<leftarrow> strneq2 req host resp location (nat (c_size len));
                             Some (\<not> same)
                           }
                     }
                 }
             }
       }
     }
   }"

definition neq_tls_sid :: "bytes \<Rightarrow> nat \<Rightarrow> bytes \<Rightarrow> nat \<Rightarrow> bool option" where
  "neq_tls_sid req qn resp sn =
     (if qn < 75 \<or> sn < 75 then Some False
      else do {
        c \<leftarrow> is_tls_chello req qn;
        r \<leftarrow> (if c then ANTOHS resp 0 else Some 0);
        if \<not> c \<or> r \<noteq> 0x1603 then Some False
        else do {
          sid_len \<leftarrow> rd req 43;
          let skip = 44 + unat sid_len + 3;
          o1 \<leftarrow> find_tls_ext_offset 0x2b resp sn skip;
          if o1 = 0 then Some False
          else do {
            sid_len2 \<leftarrow> rd resp 43;
            if sid_len \<noteq> sid_len2 then Some True
            else do {
              x \<leftarrow> rdn req 44 (uint sid_len);
              y \<leftarrow> rdn resp 44 (uint sid_len);
              Some (memcmp x y \<noteq> 0)
            }
          }
        }
      })"

definition is_tls_shello :: "bytes \<Rightarrow> nat \<Rightarrow> bool option" where
  "is_tls_shello buffer bsize =
     (if 5 < bsize then do {
        t \<leftarrow> ANTOHS buffer 0;
        if t = 0x1603 then do { x \<leftarrow> rd buffer 5; Some (x = 0x02) } else Some False
      }
      else Some False)"

section \<open>Rewriting\<close>

abbreviation (input) MH_HMIX :: int where "MH_HMIX \<equiv> 1"
abbreviation (input) MH_SPACE :: int where "MH_SPACE \<equiv> 2"
abbreviation (input) MH_DMIX :: int where "MH_DMIX \<equiv> 4"

definition flag_set :: "int \<Rightarrow> int \<Rightarrow> bool" where
  "flag_set m f \<longleftrightarrow> m AND f \<noteq> 0"

text \<open>\<open>for (par = host - 1; *par != ':'; par--) {}\<close>, entered with \<open>par + 1\<close>.\<close>

fun back_colon :: "bytes \<Rightarrow> nat \<Rightarrow> nat option" where
  "back_colon b 0 = None"
| "back_colon b (Suc par) = do {
     x \<leftarrow> rd b par;
     if x = 58 then Some par else back_colon b par
   }"

text \<open>\<open>for (int i = 0; i < hlen; i += 2) host[i] = toupper (host[i]);\<close>\<close>

function upper_even :: "bytes \<Rightarrow> nat \<Rightarrow> int \<Rightarrow> nat \<Rightarrow> bytes option" where
  "upper_even b host hlen i =
     (if int i < hlen then do {
        x \<leftarrow> rd b (host + i);
        b' \<leftarrow> wr b (host + i) (toupper x);
        upper_even b' host hlen (i + 2)
      }
      else Some b)"
  by pat_completeness auto
termination
  by (relation "measure (\<lambda>(b, host, hlen, i). nat hlen - i)") auto

declare upper_even.simps [simp del]

text \<open>\<open>for (; !isspace (*(host + hlen)); hlen++) {}\<close>, on the position \<open>host + hlen\<close>.\<close>

function fwd_space :: "bytes \<Rightarrow> nat \<Rightarrow> nat option" where
  "fwd_space b i = do {
     x \<leftarrow> rd b i;
     if isspace x then Some i else fwd_space b (Suc i)
   }"
  by pat_completeness auto
termination
  by (relation "measure (\<lambda>(b, i). length b - i)") (auto simp: rd_eq_Some_iff)

declare fwd_space.simps [simp del]

definition mod_http :: "bytes \<Rightarrow> nat \<Rightarrow> int \<Rightarrow> (int \<times> bytes) option" where
  "mod_http buffer bsize m = do {
     (hlen, hs, _) \<leftarrow> parse_http buffer bsize False;
     case hs of
       None \<Rightarrow> Some (- 1, buffer)
     | Some host \<Rightarrow>
         if hlen = 0 then Some (- 1, buffer)
         else do {
           colon \<leftarrow> back_colon buffer host;
           c_assert (4 \<le> colon);
           let par = colon - 4;
           b1 \<leftarrow> (if flag_set m MH_HMIX then do {
                    x0 \<leftarrow> rd buffer par;
                    a0 \<leftarrow> wr buffer par (tolower x0);
                    x1 \<leftarrow> rd a0 (par + 1);
                    a1 \<leftarrow> wr a0 (par + 1) (toupper x1);
                    x3 \<leftarrow> rd a1 (par + 3);
                    wr a1 (par + 3) (toupper x3)
                  } else Some buffer);
           b2 \<leftarrow> (if flag_set m MH_DMIX then upper_even b1 host hlen 0 else Some b1);
           if flag_set m MH_SPACE then do {
             c_assert (0 \<le> int host + hlen);
             h_end \<leftarrow> fwd_space b2 (nat (int host + hlen));
             let hlen = int h_end - int host;
             let sc = int host - int (par + 5);
             b3 \<leftarrow> memmove b2 (int (par + 5)) (int host) hlen;
             b4 \<leftarrow> memset b3 (int (par + 5) + hlen) 9 sc;
             Some (0, b4)
           }
           else Some (0, b2)
         }
   }"

text \<open>
  \<open>buffer\<close> is the memory from the record on, of which \<open>n\<close> bytes are data and \<open>bsize\<close>
  may be used; \<open>bsize - n\<close> is computed in \<open>size_t\<close>.
\<close>

definition part_tls :: "bytes \<Rightarrow> int \<Rightarrow> int \<Rightarrow> int \<Rightarrow> (int \<times> bytes) option" where
  "part_tls buffer bsize n pos =
     (if n < 3 \<or> c_size (bsize - n) < 5 \<or> pos < 0 \<or> n < pos + 5 then Some (0, buffer)
      else do {
        r_sz \<leftarrow> ANTOHS buffer 3;
        if int (unat r_sz) < pos then Some (n, buffer)
        else do {
          b1 \<leftarrow> memmove buffer (5 + pos + 5) (5 + pos) (n - (5 + pos));
          hdr \<leftarrow> rdn b1 0 3;
          b2 \<leftarrow> wrn b1 (5 + pos) hdr;
          b3 \<leftarrow> SHTONA b2 3 pos;
          b4 \<leftarrow> SHTONA b3 (nat (5 + pos + 3)) (int (unat r_sz) - pos);
          Some (5, b4)
        }
      })"

section \<open>Lemmas: two-byte fields and TLS extensions\<close>

lemma ANTOHS_Some [cmem]:
  "i + 1 < length d \<Longrightarrow> ANTOHS d i = Some (push_bit 8 (ucast (d ! i)) + ucast (d ! (i + 1)))"
  by (simp add: ANTOHS_def rd_def)

lemma ANTOHS_safe [memsafe]: "i + 1 < length d \<Longrightarrow> \<exists>v. ANTOHS d i = Some v"
  by (simp add: ANTOHS_Some)

lemma length_SHTONA: "SHTONA d i x = Some c \<Longrightarrow> length c = length d"
  by (auto simp: SHTONA_def bind_eq_Some_conv dest!: length_wr)

lemma SHTONA_Some [cmem]:
  "i + 1 < length d \<Longrightarrow>
   SHTONA d i x = Some (d[i := word_of_int (x div 256), i + 1 := word_of_int x])"
  by (simp add: SHTONA_def wr_def)

lemma u16_of_bytes:
  assumes "0 \<le> x" and "x < 2 ^ 16"
  shows "push_bit 8 (ucast (word_of_int (x div 256) :: byte)) + ucast (word_of_int x :: byte)
         = (word_of_int x :: u16)"
proof -
  have "uint (push_bit 8 (ucast (word_of_int (x div 256) :: byte)) + ucast (word_of_int x :: byte) :: u16)
        = (x div 256 mod 256 * 256 + x mod 256) mod 65536"
    by (simp add: push_bit_eq_mult uint_word_ariths uint_word_of_int unsigned_ucast_eq take_bit_eq_mod)
  also have "x div 256 mod 256 = x div 256"
    using assms by auto
  also have "x div 256 * 256 + x mod 256 = x"
    by simp
  finally show ?thesis
    using assms by (simp add: uint_word_of_int word_uint_eq_iff)
qed

lemma ANTOHS_SHTONA:
  assumes "SHTONA d i x = Some c" and "0 \<le> x" and "x < 2 ^ 16"
  shows "ANTOHS c i = Some (word_of_int x)"
proof -
  from assms(1) have "i + 1 < length d"
    by (auto simp: SHTONA_def bind_eq_Some_conv wr_def split: if_splits)
  with assms show ?thesis
    by (auto simp: SHTONA_Some ANTOHS_Some u16_of_bytes)
qed

lemma find_tls_ext_loop_spec:
  assumes "sz \<le> length data"
  shows "\<exists>r. find_tls_ext_loop ty data sz skip = Some r
         \<and> (r \<noteq> 0 \<longrightarrow> skip \<le> r \<and> r + 4 < sz \<and> ANTOHS data r = Some ty)"
  using assms
proof (induction ty data sz skip rule: find_tls_ext_loop.induct)
  case (1 ty data sz skip)
  show ?case
  proof (cases "skip + 4 < sz")
    case False
    then show ?thesis by (subst find_tls_ext_loop.simps) simp
  next
    case True
    with 1(2) obtain a l where a: "ANTOHS data skip = Some a" "ANTOHS data (skip + 2) = Some l"
      using ANTOHS_safe[of skip data] ANTOHS_safe[of "skip + 2" data] by auto
    show ?thesis
    proof (cases "ty = a")
      case ty: True
      show ?thesis
        by (subst find_tls_ext_loop.simps) (use True ty a in simp)
    next
      case ty: False
      obtain r where "find_tls_ext_loop ty data sz (skip + (unat l + 4)) = Some r"
        "r \<noteq> 0 \<longrightarrow> skip + (unat l + 4) \<le> r \<and> r + 4 < sz \<and> ANTOHS data r = Some ty"
        using 1(1)[OF True _ ty _ 1(2)] a by auto
      then show ?thesis
        by (subst find_tls_ext_loop.simps) (use True ty a in auto)
    qed
  qed
qed

lemma find_tls_ext_offset_spec:
  assumes "sz \<le> length data"
  shows "\<exists>r. find_tls_ext_offset ty data sz skip = Some r
         \<and> (r \<noteq> 0 \<longrightarrow> skip + 2 \<le> r \<and> r + 4 < sz \<and> ANTOHS data r = Some ty)"
proof (cases "sz \<le> skip + 2")
  case True
  then show ?thesis by (simp add: find_tls_ext_offset_def)
next
  case False
  with assms obtain e where e: "ANTOHS data skip = Some e"
    using ANTOHS_safe[of skip data] by auto
  define sz' where "sz' = (if unat e < sz - (skip + 2) then unat e + (skip + 2) else sz)"
  have "sz' \<le> sz"
    using False by (auto simp: sz'_def)
  then show ?thesis
    using find_tls_ext_loop_spec[of sz' data ty "skip + 2"] assms False e
    by (fastforce simp: find_tls_ext_offset_def sz'_def)
qed

lemma chello_ext_offset_spec:
  assumes "sz \<le> length data"
  shows "\<exists>r. chello_ext_offset ty data sz = Some r
         \<and> (r \<noteq> 0 \<longrightarrow> 50 \<le> r \<and> r + 4 < sz \<and> ANTOHS data r = Some ty)"
proof (cases "sz < 44 \<or> sz < 44 + unat (data ! 43) + 2")
  case True
  then show ?thesis
    using assms by (auto simp: chello_ext_offset_def rd_def)
next
  case False
  with assms obtain c where c: "ANTOHS data (44 + unat (data ! 43)) = Some c"
    using ANTOHS_safe[of "44 + unat (data ! 43)" data] by auto
  have rd: "rd data 43 = Some (data ! 43)"
    using assms False by (simp add: rd_def)
  show ?thesis
    using find_tls_ext_offset_spec[OF assms, of ty "44 + unat (data ! 43) + 2 + unat c + 2"]
      False c rd
    by (fastforce simp: chello_ext_offset_def)
qed

lemma uint_u16_pair: "uint (push_bit 8 (ucast (x :: byte)) + ucast y :: u16) = uint x * 256 + uint (y :: byte)"
  using uint_lt2p[of x] uint_lt2p[of y]
  by (simp add: push_bit_eq_mult uint_word_ariths unsigned_ucast_eq take_bit_eq_mod)

lemma u16_pair_1603: "push_bit 8 (ucast (x :: byte)) + ucast y = (0x1603 :: u16) \<longleftrightarrow> x = 0x16 \<and> y = 0x03"
  for y :: byte
proof -
  have "a * 256 + b = 0x1603 \<longleftrightarrow> a = 0x16 \<and> b = 3" if b: "0 \<le> b" "b < 256" for a b :: int
  proof
    assume e: "a * 256 + b = 0x1603"
    have "a = (a * 256 + b) div 256" "b = (a * 256 + b) mod 256"
      using b by simp_all
    then show "a = 0x16 \<and> b = 3"
      unfolding e by simp
  qed simp
  from this[of "uint y" "uint x"]
  have "uint x * 256 + uint y = 0x1603 \<longleftrightarrow> uint x = 0x16 \<and> uint y = 3"
    using uint_lt2p[of y] by simp
  then show ?thesis
    by (simp only: word_uint_eq_iff uint_u16_pair) simp
qed

lemma is_tls_chello_Some:
  assumes "bsize \<le> length buffer"
  shows "is_tls_chello buffer bsize =
         Some (5 < bsize \<and> buffer ! 0 = 0x16 \<and> buffer ! 1 = 0x03 \<and> buffer ! 5 = 0x01)"
  using assms by (auto simp add: is_tls_chello_def ANTOHS_Some u16_pair_1603 rd_def)

lemma parse_tls_host:
  assumes "bsize \<le> length buffer"
  shows "\<exists>len hs. parse_tls buffer bsize = Some (len, hs)
     \<and> (case hs of
          None \<Rightarrow> len = 0
        | Some h \<Rightarrow> is_tls_chello buffer bsize = Some True \<and> 0 \<le> len \<and> 59 \<le> h
                    \<and> int h + len \<le> int bsize \<and> len < 2 ^ 16
                    \<and> ANTOHS buffer (h - 9) = Some 0 \<and> ANTOHS buffer (h - 2) = Some (word_of_int len))"
proof -
  obtain r where r: "chello_ext_offset 0 buffer bsize = Some r"
    "r \<noteq> 0 \<longrightarrow> 50 \<le> r \<and> r + 4 < bsize \<and> ANTOHS buffer r = Some 0"
    using chello_ext_offset_spec[OF assms, of 0] by auto
  obtain c where c: "is_tls_chello buffer bsize = Some c"
    using is_tls_chello_Some[OF assms] by auto
  show ?thesis
  proof (cases "\<not> c \<or> r = 0 \<or> bsize \<le> r + 12")
    case True
    then show ?thesis by (auto simp: parse_tls_def r c)
  next
    case False
    then obtain l where l: "ANTOHS buffer (r + 7) = Some l"
      using ANTOHS_safe[of "r + 7" buffer] assms by auto
    have "int (unat l) = uint l" "uint l < 2 ^ 16" "ANTOHS buffer (7 + r) = Some l"
      using uint_lt2p[of l] l by (simp_all add: add.commute)
    moreover have "int r + 9 + int (unat l) \<le> int bsize" if "\<not> bsize < r + 9 + unat l"
      using that by linarith
    ultimately show ?thesis
      using r(2) False l by (auto simp: parse_tls_def r(1) c)
  qed
qed

section \<open>Record splitting\<close>

text \<open>
  The reference: the records of a byte stream, each its content type and version (three
  bytes) and its payload. \<open>None\<close> is a stream that does not consist of whole records.
\<close>

fun tls_records :: "bytes \<Rightarrow> (bytes \<times> bytes) list option" where
  "tls_records [] = Some []"
| "tls_records (a # b # c # h # l # rest) =
     (let n = unat h * 256 + unat l in
      if length rest < n then None
      else do {
        rs \<leftarrow> tls_records (drop n rest);
        Some (([a, b, c], take n rest) # rs)
      })"
| "tls_records _ = None"

lemma unat_byte_pair:
  assumes "k < 2 ^ 16"
  shows "unat (word_of_int (int k div 256) :: byte) * 256 + unat (word_of_int (int k) :: byte) = k"
proof -
  have "unat (word_of_int (int m) :: byte) = m mod 256" for m
    by (simp add: unat_of_nat)
  moreover have "int k div 256 = int (k div 256)"
    by simp
  ultimately show ?thesis
    using assms by simp
qed

lemma unat_u16_pair: "unat (push_bit 8 (ucast (x :: byte)) + ucast y :: u16) = unat x * 256 + unat (y :: byte)"
proof -
  have "int (unat (push_bit 8 (ucast x) + ucast y :: u16)) = int (unat x * 256 + unat y)"
    using uint_u16_pair[of x y] by simp
  then show ?thesis
    by (metis of_nat_eq_iff)
qed

lemma tls_records_Cons:
  assumes "length xs = k" and "k < 2 ^ 16"
  shows "tls_records ([a, b, c] @ [word_of_int (int k div 256), word_of_int (int k)] @ xs @ ys) =
         map_option (Cons ([a, b, c], xs)) (tls_records ys)"
proof -
  have "tls_records ([a, b, c] @ [h, l] @ xs @ ys) = map_option (Cons ([a, b, c], xs)) (tls_records ys)"
    if "unat h * 256 + unat l = k" for h l
    using that assms(1) by (cases "tls_records ys") (simp_all add: Let_def)
  then show ?thesis
    using unat_byte_pair[OF assms(2)] .
qed

lemma ANTOHS_nat:
  assumes "i + 1 < length d"
  shows "\<exists>v. ANTOHS d i = Some v \<and> unat v = unat (d ! i) * 256 + unat (d ! (i + 1))"
  using assms by (auto simp: ANTOHS_Some unat_u16_pair)

lemma part_tls_exact:
  fixes p :: nat
  assumes len: "length hdr = 3" "length body = n - 5" "5 \<le> n"
    and p: "p + 5 \<le> n" "p \<le> unat h * 256 + unat l"
    and room: "length rest = m + 5" "int n + 5 \<le> bsize" "bsize < 2 ^ 63"
  shows "part_tls (hdr @ [h, l] @ body @ rest) bsize (int n) (int p) =
     Some (5, hdr @ [word_of_int (int p div 256), word_of_int (int p)] @ take p body
              @ hdr @ [word_of_int ((int (unat h * 256 + unat l) - int p) div 256),
                       word_of_int (int (unat h * 256 + unat l) - int p)]
              @ drop p body @ drop 5 rest)"
proof -
  obtain a b c where hdr: "hdr = [a, b, c]"
    using len(1) by (auto simp: length_Suc_conv numeral_3_eq_3)
  obtain rz where rz: "ANTOHS (hdr @ [h, l] @ body @ rest) 3 = Some rz"
      "unat rz = unat h * 256 + unat l"
    using ANTOHS_nat[of 3 "hdr @ [h, l] @ body @ rest"] by (auto simp: hdr)
  have "int n < int (2 ^ 63)"
    using room by simp
  then have n: "n < 2 ^ 63"
    by (simp only: of_nat_less_iff)
  have sz: "c_size (bsize - int n) = bsize - int n"
    using room by (intro c_size_id) auto
  define pre where "pre = [a, b, c, h, l]"
  have lp: "length pre = 5"
    by (simp add: pre_def)
  define buf where "buf = pre @ take p body @ drop p body @ rest"
  have buf: "hdr @ [h, l] @ body @ rest = buf"
    by (simp add: buf_def hdr pre_def)
  have lb: "length buf = n + m + 5"
    using len room lp by (simp add: buf_def)
  have l1: "length (take p body) = p"
    using len p by simp
  have pos: "5 + int p = int (5 + p)" "int (5 + p) + 5 = int (5 + p + 5)"
       "int n - int (5 + p) = int (n - (5 + p))"
    using p by auto
  have m1: "memmove buf (int (5 + p + 5)) (int (5 + p)) (int (n - (5 + p))) =
      Some (pre @ take p body @ take 5 (drop p body @ rest) @ drop p body @ drop 5 rest)"
  proof -
    have "memmove buf (int (5 + p + 5)) (int (5 + p)) (int (n - (5 + p))) =
      Some (take (5 + p + 5) buf @ take (n - (5 + p)) (drop (5 + p) buf) @ drop (5 + p + 5 + (n - (5 + p))) buf)"
      using p n lb by (intro memmove_nat) auto
    moreover have "take (5 + p + 5) buf = pre @ take p body @ take 5 (drop p body @ rest)"
      using l1 lp by (simp add: buf_def)
    moreover have "take (n - (5 + p)) (drop (5 + p) buf) = drop p body"
      using l1 len lp by (simp add: buf_def)
    moreover have "drop (5 + p + 5 + (n - (5 + p))) buf = drop 5 rest"
      using l1 len p lp by (simp add: buf_def)
    ultimately show ?thesis by simp
  qed
  have "length (take 5 (drop p body @ rest)) = 5"
    using room by simp
  then obtain r1 r2 r3 r4 r5 where r5: "take 5 (drop p body @ rest) = [r1, r2, r3, r4, r5]"
    by (rule list5_cases)
  define b1 where "b1 = pre @ take p body @ [r1, r2, r3, r4, r5] @ drop p body @ drop 5 rest"
  have h1: "rdn b1 0 3 = Some [a, b, c]"
    by (simp add: rdn_def b1_def pre_def numeral_3_eq_3)
  have w1: "wrn b1 (int (5 + p)) [a, b, c] =
      Some (a # b # c # h # l # take p body @ [a, b, c, r4, r5] @ drop p body @ drop 5 rest)"
  proof -
    have "wrn b1 (int (5 + p)) [a, b, c] = Some (take (5 + p) b1 @ [a, b, c] @ drop (5 + p + 3) b1)"
      using wrn_nat[of "5 + p" "[a, b, c]" b1] l1 lp by (simp add: b1_def)
    moreover have "take (5 + p) b1 = pre @ take p body"
      using l1 lp by (simp add: b1_def)
    moreover have "drop (5 + p + 3) b1 = [r4, r5] @ drop p body @ drop 5 rest"
      using l1 lp by (simp add: b1_def)
    ultimately show ?thesis by (simp add: pre_def)
  qed
  define x where "x = int (unat h * 256 + unat l) - int p"
  have s1: "SHTONA (a # b # c # h # l # take p body @ [a, b, c, r4, r5] @ drop p body @ drop 5 rest) 3 (int p) =
    Some (a # b # c # word_of_int (int p div 256) # word_of_int (int p) # take p body @ [a, b, c, r4, r5] @ drop p body @ drop 5 rest)"
    by (subst SHTONA_Some) (auto simp: numeral_3_eq_3)
  have s2: "SHTONA (a # b # c # u # v # take p body @ [a, b, c, r4, r5] @ drop p body @ drop 5 rest) (5 + p + 3) x =
    Some (a # b # c # u # v # take p body @ [a, b, c, word_of_int (x div 256), word_of_int x] @ drop p body @ drop 5 rest)" for u v
    using l1 by (subst SHTONA_Some) (auto simp: list_update_append numeral_eq_Suc)
  have e8: "nat (int (5 + p) + 3) = 5 + p + 3"
    by simp
  have rz': "int (unat rz) - int p = x" "ANTOHS buf 3 = Some rz"
    using rz(2) rz(1)[unfolded buf] by (simp_all add: x_def)
  have g: "\<not> (int n < 3 \<or> bsize - int n < 5 \<or> int p < 0 \<or> int n < int p + 5)"
    using len p room by auto
  have gp: "\<not> int (unat rz) < int p"
    using p(2) unfolding rz(2)[symmetric] by (simp only: of_nat_less_iff not_less)
  have "part_tls buf bsize (int n) (int p) =
     Some (5, a # b # c # word_of_int (int p div 256) # word_of_int (int p) # take p body @ [a, b, c, word_of_int (x div 256), word_of_int x] @ drop p body @ drop 5 rest)"
    unfolding part_tls_def sz pos if_not_P[OF g] rz' bind.bind_lunit if_not_P[OF gp] m1 r5 b1_def[symmetric] h1 w1 s1 e8 s2 ..
  then show ?thesis
    by (simp add: buf[symmetric] hdr x_def)
qed

text \<open>
  A record split at \<open>pos\<close> is two records with the same header whose payloads concatenate
  to the old payload; the records behind it and the bytes behind the data are untouched.
\<close>

lemma part_tls_split_records:
  fixes pos :: nat
  assumes recs: "tls_records (take n buffer) = Some ((hdr, payload) # rs)"
    and pos: "pos \<le> length payload"
    and room: "n + 5 \<le> bsize" "bsize \<le> length buffer" "bsize < 2 ^ 63"
  shows "\<exists>buffer'. part_tls buffer (int bsize) (int n) (int pos) = Some (5, buffer')
     \<and> tls_records (take (n + 5) buffer') =
         Some ((hdr, take pos payload) # (hdr, drop pos payload) # rs)
     \<and> drop (n + 5) buffer' = drop (n + 5) buffer \<and> length buffer' = length buffer"
proof -
  obtain a b c h l body where buf: "take n buffer = a # b # c # h # l # body"
    using recs by (cases "take n buffer" rule: tls_records.cases) auto
  define k where "k = unat h * 256 + unat l"
  have k: "k \<le> length body" "hdr = [a, b, c]" "payload = take k body"
       "tls_records (drop k body) = Some rs"
    using recs by (auto simp: buf k_def Let_def bind_eq_Some_conv split: if_splits)
  have kk: "k < 2 ^ 16"
    using unat_byte[of h] unat_byte[of l] by (simp add: k_def)
  have ln: "length (take n buffer) = n"
    using room by simp
  then have lb: "length body = n - 5" "5 \<le> n"
    by (simp_all add: buf)
  define rest where "rest = drop n buffer"
  have full: "buffer = [a, b, c] @ [h, l] @ body @ rest"
    using append_take_drop_id[of n buffer] by (simp add: buf rest_def)
  have pk: "pos \<le> k" "pos \<le> length body"
    using pos k by auto
  have e1: "part_tls ([a, b, c] @ [h, l] @ body @ rest) (int bsize) (int n) (int pos) =
     Some (5, [a, b, c] @ [word_of_int (int pos div 256), word_of_int (int pos)] @ take pos body
              @ [a, b, c] @ [word_of_int ((int k - int pos) div 256), word_of_int (int k - int pos)]
              @ drop pos body @ drop 5 rest)"
    unfolding k_def
    using lb pk room by (intro part_tls_exact[where m = "length rest - 5"]) (auto simp: k_def rest_def)
  have d: "int k - int pos = int (k - pos)"
    using pk by simp
  define h1 h2 where "h1 = [a, b, c] @ [word_of_int (int pos div 256), word_of_int (int pos) :: byte]"
    and "h2 = [a, b, c] @ [word_of_int (int (k - pos) div 256), word_of_int (int (k - pos)) :: byte]"
  have lh: "length h1 = 5" "length h2 = 5"
    by (simp_all add: h1_def h2_def)
  define b' where "b' = h1 @ take pos body @ h2 @ drop pos body @ drop 5 rest"
  have eq: "part_tls buffer (int bsize) (int n) (int pos) = Some (5, b')"
    using e1 by (simp only: full[symmetric] b'_def h1_def h2_def d append_assoc)
  have tk: "take (n + 5) b' = h1 @ take pos body @ h2 @ drop pos body"
    using lb pk lh by (auto simp: b'_def)
  have db: "drop pos body = take (k - pos) (drop pos body) @ drop k body"
    using append_take_drop_id[of "k - pos" "drop pos body"] pk(1) by (simp only: drop_drop le_add_diff_inverse2)
  have "tls_records (h2 @ take (k - pos) (drop pos body) @ drop k body) =
        map_option (Cons ([a, b, c], take (k - pos) (drop pos body))) (tls_records (drop k body))"
    unfolding h2_def append_assoc using kk k(1) pk by (intro tls_records_Cons) auto
  then have r2: "tls_records (h2 @ drop pos body) = Some ((hdr, drop pos payload) # rs)"
    unfolding db[symmetric] k(4) k(3) by (simp add: k(2) drop_take)
  have "tls_records (h1 @ take pos body @ h2 @ drop pos body) =
        map_option (Cons ([a, b, c], take pos body)) (tls_records (h2 @ drop pos body))"
    unfolding h1_def append_assoc using kk k(1) pk by (intro tls_records_Cons) auto
  then have "tls_records (take (n + 5) b') = Some ((hdr, take pos payload) # (hdr, drop pos payload) # rs)"
    unfolding tk r2 using pk by (simp add: k(2) k(3) min_absorb1)
  moreover have "drop (n + 5) b' = drop (n + 5) buffer" "length b' = length buffer"
    using lb pk room lh by (auto simp: b'_def rest_def add.commute)
  ultimately show ?thesis
    using eq by blast
qed

section \<open>Scanning loops of the HTTP parser\<close>

lemma strncasestr_from_spec:
  assumes "as \<le> length a" and "b \<noteq> []"
  shows "\<exists>r. strncasestr_from a as b p = Some r
     \<and> (case r of
          Some q \<Rightarrow> p \<le> q \<and> q + length b \<le> as \<and> a ! q = hd b \<and> strncaseeq a q b = Some True
            \<and> (\<forall>k. p \<le> k \<and> k < q \<and> a ! k = hd b \<longrightarrow> strncaseeq a k b = Some False)
        | None \<Rightarrow> \<forall>k. p \<le> k \<and> k + length b \<le> as \<and> a ! k = hd b \<longrightarrow> strncaseeq a k b = Some False)"
  using assms
proof (induction a as b p rule: strncasestr_from.induct)
  case (1 a as b p)
  obtain q where q: "memchr a p (as - p) (hd b) = Some q"
    using memchr_safe[of p "as - p" a "hd b"] 1(2)
    by (cases "p \<le> as") (auto intro: memchr.simps(1))
  show ?case
  proof (cases q)
    case None
    have "k < p" if "k + length b \<le> as" "a ! k = hd b" for k
      using memchr_Some_NoneD[OF q[unfolded None], of k] that 1(3) by (cases b) force+
    then show ?thesis
      by (subst strncasestr_from.simps) (auto simp: q None dest: leD)
  next
    case (Some p')
    note m = memchr_Some_SomeD[OF q[unfolded Some]]
    have first: "k = p' \<or> p' < k" if "p \<le> k" "a ! k = hd b" for k
      using m that by (meson linorder_neqE_nat)
    show ?thesis
    proof (cases "as < p' + length b")
      case True
      then show ?thesis
        by (subst strncasestr_from.simps) (use first in \<open>force simp: q Some\<close>)
    next
      case room: False
      then obtain e where e: "strncaseeq a p' b = Some e"
        using strncaseeq_safe[of p' b a] 1(2) by force
      show ?thesis
      proof (cases e)
        case True
        then show ?thesis
          by (subst strncasestr_from.simps) (use room e m first in \<open>force simp: q Some\<close>)
      next
        case False
        obtain r where r: "strncasestr_from a as b (Suc p') = Some r"
          "case r of
             Some q \<Rightarrow> Suc p' \<le> q \<and> q + length b \<le> as \<and> a ! q = hd b \<and> strncaseeq a q b = Some True
               \<and> (\<forall>k. Suc p' \<le> k \<and> k < q \<and> a ! k = hd b \<longrightarrow> strncaseeq a k b = Some False)
           | None \<Rightarrow> \<forall>k. Suc p' \<le> k \<and> k + length b \<le> as \<and> a ! k = hd b \<longrightarrow> strncaseeq a k b = Some False"
          using 1(1)[of q p' e] q Some room e False 1(2,3) by auto
        have eq: "strncasestr_from a as b p = Some r"
          by (subst strncasestr_from.simps) (use room e False r(1) in \<open>simp add: q Some\<close>)
        have done1: "strncaseeq a k b = Some False" if "p \<le> k" "k \<le> p'" "a ! k = hd b" for k
          using first[OF that(1,3)] that(2) e False by auto
        show ?thesis
          unfolding eq using r(2) done1 m
          by (auto split: option.splits) (meson Suc_leI not_less)+
      qed
    qed
  qed
qed

lemma strncasestr_spec:
  assumes "as \<le> length a" and "b \<noteq> []"
  shows "\<exists>r. strncasestr a as b = Some r
     \<and> (case r of
          Some q \<Rightarrow> q + length b \<le> as \<and> a ! q = hd b \<and> strncaseeq a q b = Some True
            \<and> (\<forall>k < q. a ! k = hd b \<longrightarrow> strncaseeq a k b = Some False)
        | None \<Rightarrow> \<forall>k. k + length b \<le> as \<and> a ! k = hd b \<longrightarrow> strncaseeq a k b = Some False)"
proof -
  obtain r where "strncasestr_from a as b 0 = Some r"
    "case r of
       Some q \<Rightarrow> 0 \<le> q \<and> q + length b \<le> as \<and> a ! q = hd b \<and> strncaseeq a q b = Some True
         \<and> (\<forall>k. 0 \<le> k \<and> k < q \<and> a ! k = hd b \<longrightarrow> strncaseeq a k b = Some False)
     | None \<Rightarrow> \<forall>k. 0 \<le> k \<and> k + length b \<le> as \<and> a ! k = hd b \<longrightarrow> strncaseeq a k b = Some False"
    using strncasestr_from_spec[OF assms, of 0] by blast
  then show ?thesis
    by (intro exI[of _ r]) (cases r, simp_all add: strncasestr_def)
qed

lemma skip_blank_spec:
  assumes "e \<le> length b" and "h \<le> e"
  shows "\<exists>r. skip_blank b e h = Some r \<and> h \<le> r \<and> r \<le> e
     \<and> (\<forall>i. h \<le> i \<and> i < r \<longrightarrow> isblank (b ! i)) \<and> (r < e \<longrightarrow> \<not> isblank (b ! r))"
  using assms
proof (induction b e h rule: skip_blank.induct)
  case (1 b e h)
  show ?case
  proof (cases "h < e \<and> isblank (b ! h)")
    case True
    then obtain r where r: "skip_blank b e (Suc h) = Some r" "Suc h \<le> r" "r \<le> e"
      "\<forall>i. Suc h \<le> i \<and> i < r \<longrightarrow> isblank (b ! i)" "r < e \<longrightarrow> \<not> isblank (b ! r)"
      using 1(1)[of "b ! h"] 1(2) by (auto simp: rd_def)
    then have "\<forall>i. h \<le> i \<and> i < r \<longrightarrow> isblank (b ! i)"
      using True by (metis Suc_leI le_neq_implies_less)
    moreover have "skip_blank b e h = Some r"
      by (subst skip_blank.simps) (use True 1(2) r(1) in \<open>simp add: rd_def\<close>)
    ultimately show ?thesis
      using r by auto
  next
    case False
    then show ?thesis
      by (subst skip_blank.simps) (use 1(2,3) in \<open>auto simp: rd_def\<close>)
  qed
qed

lemma back_spaces_spec:
  assumes "k < e" and "e \<le> length b" and "\<not> isspace (b ! k)"
  shows "\<exists>r. back_spaces b e = Some r \<and> k < r \<and> r \<le> e \<and> \<not> isspace (b ! (r - 1))
     \<and> (\<forall>i. r \<le> i \<and> i < e \<longrightarrow> isspace (b ! i))"
  using assms
proof (induction b e rule: back_spaces.induct)
  case (1 b)
  then show ?case by simp
next
  case (2 b j)
  show ?case
  proof (cases "isspace (b ! j)")
    case False
    with 2(2,3) show ?thesis by (auto simp: rd_def)
  next
    case True
    with 2(2,4) have "k < j" by (metis less_antisym)
    then obtain r where r: "back_spaces b j = Some r" "k < r" "r \<le> j" "\<not> isspace (b ! (r - 1))"
      "\<forall>i. r \<le> i \<and> i < j \<longrightarrow> isspace (b ! i)"
      using 2(1)[of "b ! j"] 2(3,4) True by (auto simp: rd_def)
    then have "\<forall>i. r \<le> i \<and> i < Suc j \<longrightarrow> isspace (b ! i)"
      using True by (metis less_antisym)
    then show ?thesis
      using r True 2(3) by (auto simp: rd_def)
  qed
qed

lemma last_colon_spec:
  assumes "e \<le> length b" and "h \<le> e"
  shows "\<exists>r. last_colon b h e c = Some r
     \<and> (r = c \<and> (\<forall>i. h \<le> i \<and> i < e \<longrightarrow> b ! i \<noteq> 58)
        \<or> (\<exists>p. r = Some p \<and> h \<le> p \<and> p < e \<and> b ! p = 58 \<and> (\<forall>i. p < i \<and> i < e \<longrightarrow> b ! i \<noteq> 58)))"
  using assms
proof (induction b h e c rule: last_colon.induct)
  case (1 b h e c)
  obtain q where q: "memchr b h (e - h) 58 = Some q"
    using memchr_safe[of h "e - h" b 58] 1(2,3) by auto
  show ?case
  proof (cases q)
    case None
    then show ?thesis
      using memchr_Some_NoneD[OF q[unfolded None]] 1(3)
      by (subst last_colon.simps) (auto simp: q)
  next
    case (Some p)
    note m = memchr_Some_SomeD[OF q[unfolded Some]]
    show ?thesis
    proof (cases "Suc p < e")
      case False
      then show ?thesis
        by (subst last_colon.simps) (use m in \<open>auto simp: q Some\<close>)
    next
      case True
      obtain r where r: "last_colon b (Suc p) e (Some p) = Some r"
        "r = Some p \<and> (\<forall>i. Suc p \<le> i \<and> i < e \<longrightarrow> b ! i \<noteq> 58)
         \<or> (\<exists>p'. r = Some p' \<and> Suc p \<le> p' \<and> p' < e \<and> b ! p' = 58 \<and> (\<forall>i. p' < i \<and> i < e \<longrightarrow> b ! i \<noteq> 58))"
        using 1(1)[of q p] q Some True 1(2) by auto
      have "last_colon b h e c = Some r"
        by (subst last_colon.simps) (use True r(1) in \<open>simp add: q Some\<close>)
      then show ?thesis
        using r(2) m by (auto simp: Suc_le_eq)
    qed
  qed
qed

lemma skip_spaces_spec:
  assumes "i \<le> k" and "k < length b" and "\<not> isspace (b ! k)" and "k < i + f"
  shows "\<exists>j. skip_spaces b i f = Some j \<and> i \<le> j \<and> j \<le> k \<and> \<not> isspace (b ! j)
     \<and> (\<forall>m. i \<le> m \<and> m < j \<longrightarrow> isspace (b ! m))"
  using assms
proof (induction b i f rule: skip_spaces.induct)
  case (1 b i)
  then show ?case by simp
next
  case (2 b i f)
  show ?case
  proof (cases "isspace (b ! i)")
    case False
    with 2 show ?thesis by (auto simp: rd_def)
  next
    case True
    with 2(2,4) have ik: "Suc i \<le> k" by (metis Suc_leI le_neq_implies_less)
    then obtain j where j: "skip_spaces b (Suc i) f = Some j" "Suc i \<le> j" "j \<le> k" "\<not> isspace (b ! j)"
      "\<forall>m. Suc i \<le> m \<and> m < j \<longrightarrow> isspace (b ! m)"
      using 2(1)[of "b ! i"] 2(3,4,5) True by (auto simp: rd_def)
    then have "\<forall>m. i \<le> m \<and> m < j \<longrightarrow> isspace (b ! m)"
      using True by (metis Suc_leI le_neq_implies_less)
    then show ?thesis
      using j True ik 2(3) by (auto simp: rd_def)
  qed
qed

lemma read_digits_spec:
  assumes "i \<le> k" and "k < length b" and "\<not> digit_val (b ! k) < base" and "k < i + f"
  shows "\<exists>v e. read_digits b i f base acc = Some (v, e) \<and> i \<le> e \<and> e \<le> k
     \<and> (\<forall>m. i \<le> m \<and> m < e \<longrightarrow> digit_val (b ! m) < base) \<and> \<not> digit_val (b ! e) < base
     \<and> v = foldl (\<lambda>a x. a * base + digit_val x) acc (take (e - i) (drop i b))"
  using assms
proof (induction b i f base acc rule: read_digits.induct)
  case (1 b i base acc)
  then show ?case by simp
next
  case (2 b i f base acc)
  show ?case
  proof (cases "digit_val (b ! i) < base")
    case False
    with 2 show ?thesis by (intro exI[of _ acc] exI[of _ i]) (auto simp: rd_def)
  next
    case True
    with 2(2,4) have ik: "Suc i \<le> k" by (metis Suc_leI le_neq_implies_less)
    define acc' where "acc' = acc * base + digit_val (b ! i)"
    obtain v e where e: "read_digits b (Suc i) f base acc' = Some (v, e)" "Suc i \<le> e" "e \<le> k"
      "\<forall>m. Suc i \<le> m \<and> m < e \<longrightarrow> digit_val (b ! m) < base" "\<not> digit_val (b ! e) < base"
      "v = foldl (\<lambda>a x. a * base + digit_val x) acc' (take (e - Suc i) (drop (Suc i) b))"
      using 2(1)[of "b ! i"] 2(3,4,5) True ik by (auto simp: rd_def acc'_def)
    have "take (e - i) (drop i b) = b ! i # take (e - Suc i) (drop (Suc i) b)"
      using e(2,3) 2(3) by (metis Cons_nth_drop_Suc Suc_diff_Suc Suc_le_eq le_less_trans less_imp_le_nat order_less_le_trans take_Suc_Cons)
    moreover have "\<forall>m. i \<le> m \<and> m < e \<longrightarrow> digit_val (b ! m) < base"
      using e(4) True by (metis Suc_leI le_neq_implies_less)
    moreover have "read_digits b i (Suc f) base acc = Some (v, e)"
      using True ik 2(3) e(1) by (simp add: rd_def acc'_def)
    ultimately show ?thesis
      using e ik by (intro exI[of _ v] exI[of _ e]) (simp add: acc'_def)
  qed
qed

lemma isdigit_digit_val: "isdigit c \<longleftrightarrow> digit_val c < 10"
proof -
  have "97 \<le> c \<Longrightarrow> 10 \<le> uint c - 87" "65 \<le> c \<Longrightarrow> 10 \<le> uint c - 55" "c \<le> 57 \<Longrightarrow> uint c - 48 < 10"
    by (simp_all add: word_le_def)
  then show ?thesis
    by (auto simp: isdigit_def digit_val_def)
qed

text \<open>
  \<open>strtol\<close> in base 10 stops inside the buffer when a digit is followed, later on, by a byte
  that is no digit.
\<close>

lemma strtol_10_spec:
  assumes "i \<le> k" and "k < n" and "n < length b" and "isdigit (b ! k)" and "\<not> isdigit (b ! n)"
  shows "\<exists>v e. strtol b i 10 = Some (v, e) \<and> i \<le> e \<and> e \<le> n"
proof -
  have "\<not> isspace (b ! k)"
    using assms(4) by (rule isdigit_not_isspace)
  then obtain j where j: "skip_spaces b i (Suc (length b)) = Some j" "i \<le> j" "j \<le> k"
    using skip_spaces_spec[of i k b "Suc (length b)"] assms by auto
  define j1 where "j1 = (if b ! j = 45 \<or> b ! j = 43 then Suc j else j)"
  have "\<not> isdigit 45" "\<not> isdigit 43"
    by (simp_all add: isdigit_def)
  then have j1: "j1 \<le> k"
    using j(3) assms(4) by (auto simp: j1_def) (metis Suc_leI le_neq_implies_less)+
  obtain x where x: "(if b ! j1 = 48 then rd b (Suc j1) else Some 0) = Some x"
    using j1 assms by (cases "b ! j1 = 48") (auto simp: rd_def)
  obtain v e where e: "read_digits b j1 (Suc (length b)) 10 0 = Some (v, e)" "j1 \<le> e" "e \<le> n"
    using read_digits_spec[of j1 n b 10 "Suc (length b)" 0] j1 assms by (auto simp: isdigit_digit_val)
  have rds: "rd b j = Some (b ! j)" "rd b j1 = Some (b ! j1)"
    using j j1 assms by (simp_all add: rd_def)
  have "strtol b i 10 = Some (max LONG_MIN (min LONG_MAX (if b ! j = 45 then - v else v)), if e = j1 then i else e)"
    unfolding strtol_def using j(1) rds x e(1)
    by (cases "b ! j1 = 48")
       (simp_all add: j1_def[symmetric] Let_def del: skip_spaces.simps read_digits.simps split del: if_split)
  moreover have "j \<le> j1"
    by (simp add: j1_def)
  ultimately show ?thesis
    using e j assms by auto
qed

lemma match_method_safe:
  "\<forall>m \<in> set ms. length m \<le> length buffer \<Longrightarrow> \<exists>r. match_method buffer ms = Some r"
proof (induction ms)
  case (Cons m ms)
  then obtain e where "strneq buffer 0 m = Some e"
    using strneq_safe[of 0 m buffer] by auto
  with Cons show ?case by (cases e) auto
qed auto

lemma is_http_safe [memsafe]:
  assumes "bsize \<le> length buffer"
  shows "\<exists>r. is_http buffer bsize = Some r"
proof (cases "bsize < 16")
  case False
  then have "\<exists>r. match_method buffer http_methods = Some r"
    using assms by (intro match_method_safe) (auto simp: http_methods_def cstr_def)
  with False assms show ?thesis
    by (auto simp: is_http_def rd_def)
qed (auto simp add: is_http_def)

text \<open>
  Everything \<open>parse_http\<close> promises: it stays inside the \<open>bsize\<close> bytes, and a host it
  reports starts behind a case-insensitive \<open>\nHost:\<close> and blanks. The name ends inside the
  same line. When the header is empty the reported length is not positive.
\<close>

definition http_host_at :: "bytes \<Rightarrow> nat \<Rightarrow> nat \<Rightarrow> int \<Rightarrow> bool" where
  "http_host_at buffer bsize h r \<longleftrightarrow>
     (\<exists>at l_end nl. strncaseeq buffer at host_hdr = Some True \<and> buffer ! at = 10
        \<and> at + 6 \<le> h \<and> h \<le> nl \<and> nl < bsize \<and> buffer ! nl = 10
        \<and> (\<forall>i. at + 6 \<le> i \<and> i < h \<longrightarrow> isblank (buffer ! i))
        \<and> at + 6 \<le> l_end \<and> l_end \<le> nl \<and> (\<forall>i. l_end \<le> i \<and> i < nl \<longrightarrow> isspace (buffer ! i))
        \<and> \<not> isspace (buffer ! (l_end - 1))
        \<and> (r = int l_end - int h
           \<or> 0 \<le> r \<and> int h + r < int l_end \<and> buffer ! (h + nat r) = 58))"

lemma parse_http_host:
  assumes "bsize \<le> length buffer"
  shows "\<exists>r hs p. parse_http buffer bsize port = Some (r, hs, p)
     \<and> (case hs of None \<Rightarrow> r = 0 | Some h \<Rightarrow> http_host_at buffer bsize h r)"
proof -
  obtain h where h: "is_http buffer bsize = Some h"
    using is_http_safe[OF assms] by auto
  obtain s where s: "strncasestr buffer bsize host_hdr = Some s"
    and s': "case s of
          Some q \<Rightarrow> q + length host_hdr \<le> bsize \<and> buffer ! q = hd host_hdr
            \<and> strncaseeq buffer q host_hdr = Some True
            \<and> (\<forall>k < q. buffer ! k = hd host_hdr \<longrightarrow> strncaseeq buffer k host_hdr = Some False)
        | None \<Rightarrow> \<forall>k. k + length host_hdr \<le> bsize \<and> buffer ! k = hd host_hdr \<longrightarrow>
                      strncaseeq buffer k host_hdr = Some False"
    using strncasestr_spec[OF assms, of host_hdr] by (auto simp: host_hdr_def)
  show ?thesis
  proof (cases "h \<and> s \<noteq> None")
    case False
    then show ?thesis by (auto simp: parse_http_def h s)
  next
    case True
    then obtain at where at: "s = Some at" by auto
    have lh: "length host_hdr = 6" "hd host_hdr = 10" "host_hdr ! 5 = 58"
      by (simp_all add: host_hdr_def cstr_def)
    have at': "at + 6 \<le> bsize" "buffer ! at = 10" "strncaseeq buffer at host_hdr = Some True"
      using s' by (simp_all add: at lh)
    have colon: "buffer ! (at + 5) = 58"
    proof -
      have "tolower (buffer ! (at + 5)) = tolower 58"
        using strncaseeq_nth[OF at'(3), of 5] by (simp add: lh)
      then show ?thesis
        by (simp add: tolower_def split: if_splits)
    qed
    then have nsp: "\<not> isspace (buffer ! (at + 5))"
      by (simp add: isspace_def)
    obtain host where host: "skip_blank buffer bsize (at + 6) = Some host" "at + 6 \<le> host"
      "host \<le> bsize" "\<forall>i. at + 6 \<le> i \<and> i < host \<longrightarrow> isblank (buffer ! i)"
      using skip_blank_spec[OF assms at'(1)] by auto
    obtain l where l: "memchr buffer host (bsize - host) 10 = Some l"
      using memchr_safe[of host "bsize - host" buffer 10] host assms by auto
    show ?thesis
    proof (cases l)
      case None
      then show ?thesis using True by (auto simp: parse_http_def h s at host l)
    next
      case (Some nl)
      note nl = memchr_Some_SomeD[OF l[unfolded Some]]
      obtain l_end where le: "back_spaces buffer nl = Some l_end" "at + 5 < l_end" "l_end \<le> nl"
        "\<not> isspace (buffer ! (l_end - 1))" "\<forall>i. l_end \<le> i \<and> i < nl \<longrightarrow> isspace (buffer ! i)"
        using back_spaces_spec[of "at + 5" nl buffer] nl host nsp by auto
      have rdl: "rd buffer (l_end - 1) = Some (buffer ! (l_end - 1))"
        using le(2,3) nl by (auto simp: rd_def)
      have inside: "host < l_end" if "isdigit (buffer ! (l_end - 1))"
      proof (rule ccontr)
        assume "\<not> host < l_end"
        then have "l_end - 1 = at + 5 \<or> at + 6 \<le> l_end - 1 \<and> l_end - 1 < host"
          using le(2) by auto
        then show False
          using that colon host(4) isblank_isspace le(4) by (auto simp: isdigit_def)
      qed
      obtain he where he: "(if isdigit (buffer ! (l_end - 1)) then last_colon buffer host l_end None
                            else Some None) = Some he"
        and he': "\<And>p. he = Some p \<Longrightarrow> host \<le> p \<and> p < l_end \<and> buffer ! p = 58 \<and> isdigit (buffer ! (l_end - 1))"
        using last_colon_spec[of l_end buffer host None] inside le nl assms
        by (cases "isdigit (buffer ! (l_end - 1))") fastforce+
      have facts: "at + 6 \<le> l_end" "nl < bsize" "buffer ! nl = 10" "host \<le> nl"
        using le nl assms host by auto
      have eq: "parse_http buffer bsize port = (case he of
                 None \<Rightarrow> Some (int l_end - int host, Some host, if port then Some 80 else None)
               | Some h_end \<Rightarrow>
                   if port then do {
                     (i, e) \<leftarrow> strtol buffer (h_end + 1) 10;
                     if i \<le> 0 \<or> e \<noteq> l_end \<or> 0xffff < i then Some (0, None, None)
                     else Some (int h_end - int host, Some host, Some (word_of_int i))
                   }
                   else Some (int h_end - int host, Some host, None))"
        using True by (simp add: parse_http_def h s at host(1) l Some le(1) rdl[unfolded One_nat_def]
            he[unfolded One_nat_def] split del: if_split)
      show ?thesis
      proof (cases he)
        case None
        have "http_host_at buffer bsize host (int l_end - int host)"
          unfolding http_host_at_def using at' host(2,4) le(3-5) facts by blast
        with None show ?thesis
          by (simp add: eq)
      next
        case (Some p)
        note p = he'[OF Some]
        have "p \<noteq> l_end - 1"
          using p by (auto simp: isdigit_def)
        with p have "p < l_end - 1"
          by linarith
        moreover have "l_end - 1 < nl" "\<not> isdigit (buffer ! nl)"
          using le(2,3) nl by (auto simp: isdigit_def)
        ultimately obtain v e where v: "strtol buffer (p + 1) 10 = Some (v, e)"
          using strtol_10_spec[of "p + 1" "l_end - 1" nl buffer] p nl by auto
        have "0 \<le> int p - int host" "int host + (int p - int host) < int l_end"
          "buffer ! (host + nat (int p - int host)) = 58"
          using p by (auto simp: nat_diff_distrib)
        then have "http_host_at buffer bsize host (int p - int host)"
          unfolding http_host_at_def using at' host(2,4) le(3-5) facts by blast
        then show ?thesis
          unfolding eq
          by (cases port; cases "v \<le> 0 \<or> e \<noteq> l_end \<or> 0xffff < v") (simp_all add: Some v[simplified])
      qed
    qed
  qed
qed

section \<open>Rewriting a request keeps it, up to case and blanks\<close>

lemma tolower_tolower [simp]: "tolower (tolower c) = tolower c"
  by (auto simp: tolower_def word_le_nat_alt unat_word_ariths)

lemma tolower_toupper [simp]: "tolower (toupper c) = tolower c"
proof (cases "97 \<le> c \<and> c \<le> 122")
  case True
  then have "unat (c - 32) = unat c - 32"
    by (intro unat_sub_if_size[THEN trans]) (auto simp: word_le_nat_alt)
  with True show ?thesis
    by (auto simp: tolower_def toupper_def word_le_nat_alt)
qed (auto simp: toupper_def)

lemma isspace_tolower [simp]: "isspace (tolower c) = isspace c"
  by (auto simp: tolower_def isspace_def word_le_nat_alt unat_word_ariths word_unat_eq_iff)

lemma map_tolower_update:
  "i < length b \<Longrightarrow> tolower v = tolower (b ! i) \<Longrightarrow> map tolower (b[i := v]) = map tolower b"
  by (simp add: map_update list_update_same_conv)

lemma caseless_isspace:
  assumes "map tolower b = map tolower c" and "i < length c"
  shows "isspace (b ! i) = isspace (c ! i)"
  using assms by (metis isspace_tolower length_map nth_map)

lemma caseless_append: "map tolower (take i b @ take n (drop j b) @ xs @ drop e b) =
   take i (map tolower b) @ take n (drop j (map tolower b)) @ map tolower xs @ drop e (map tolower b)"
  by (simp add: take_map drop_map)

lemma upper_even_spec:
  assumes "host + nat hlen \<le> length b"
  shows "\<exists>b'. upper_even b host hlen i = Some b' \<and> map tolower b' = map tolower b"
  using assms
proof (induction b host hlen i rule: upper_even.induct)
  case (1 b host hlen i)
  show ?case
  proof (cases "int i < hlen")
    case False
    then show ?thesis by (subst upper_even.simps) simp
  next
    case True
    then have i: "host + i < length b"
      using 1(2) by linarith
    define b1 where "b1 = b[host + i := toupper (b ! (host + i))]"
    have b1: "map tolower b1 = map tolower b"
      unfolding b1_def using i by (intro map_tolower_update) auto
    obtain b' where "upper_even b1 host hlen (i + 2) = Some b'" "map tolower b' = map tolower b1"
      using 1(1)[OF True, of "b ! (host + i)" b1] 1(2) i by (auto simp: rd_def wr_def b1_def)
    then show ?thesis
      using b1 i True by (subst upper_even.simps) (simp add: rd_def wr_def b1_def)
  qed
qed

lemma fwd_space_spec:
  assumes "i \<le> k" and "k < length b" and "isspace (b ! k)"
  shows "\<exists>j. fwd_space b i = Some j \<and> i \<le> j \<and> j \<le> k \<and> isspace (b ! j)
     \<and> (\<forall>m. i \<le> m \<and> m < j \<longrightarrow> \<not> isspace (b ! m))"
  using assms
proof (induction b i rule: fwd_space.induct)
  case (1 b i)
  show ?case
  proof (cases "isspace (b ! i)")
    case True
    then show ?thesis
      using 1(2,3) by (subst fwd_space.simps) (auto simp: rd_def)
  next
    case False
    with 1(2,4) have ik: "Suc i \<le> k" by (metis Suc_leI le_neq_implies_less)
    then obtain j where j: "fwd_space b (Suc i) = Some j" "Suc i \<le> j" "j \<le> k" "isspace (b ! j)"
      "\<forall>m. Suc i \<le> m \<and> m < j \<longrightarrow> \<not> isspace (b ! m)"
      using 1(1)[of "b ! i"] 1(3,4) False by (auto simp: rd_def)
    then have "\<forall>m. i \<le> m \<and> m < j \<longrightarrow> \<not> isspace (b ! m)"
      using False by (metis Suc_leI le_neq_implies_less)
    then show ?thesis
      using j ik False 1(3) by (subst fwd_space.simps) (auto simp: rd_def)
  qed
qed

lemma back_colon_spec:
  assumes "k < h" and "h \<le> length b" and "b ! k = 58" and "\<forall>i. k < i \<and> i < h \<longrightarrow> b ! i \<noteq> 58"
  shows "back_colon b h = Some k"
  using assms
proof (induction b h rule: back_colon.induct)
  case (2 b j)
  then show ?case
    by (cases "j = k") (auto simp: rd_def)
qed simp

text \<open>The host moved left over \<open>sc\<close> blanks, and the blanks as tabs behind it.\<close>

lemma move_left:
  assumes "i \<le> host" and "host \<le> e" and "e \<le> length b" and "length b < 2 ^ 63"
  shows "memmove b (int i) (int host) (int e - int host)
           \<bind> (\<lambda>b3. memset b3 (int i + (int e - int host)) c (int host - int i))
       = Some (take i b @ take (e - host) (drop host b) @ replicate (host - i) c @ drop e b)"
proof -
  define n where "n = e - host"
  have n: "int e - int host = int n" "e = host + n"
    using assms by (auto simp: n_def)
  define b3 where "b3 = take i b @ take n (drop host b) @ drop (i + n) b"
  have len: "length (take i b) = i" "length (take n (drop host b)) = n"
    using assms n by auto
  have l3: "length b3 = length b"
    using assms n by (simp add: b3_def)
  have "memmove b (int i) (int host) (int n) = Some b3"
    unfolding b3_def using assms n by (intro memmove_nat) auto
  moreover have "memset b3 (int i + int n) c (int host - int i) =
      Some (take i b @ take n (drop host b) @ replicate (host - i) c @ drop e b)"
  proof -
    have sz: "c_size (int host - int i) = int (host - i)"
      using assms by (subst c_size_id) auto
    have "wrn b3 (int (i + n)) (replicate (host - i) c) =
        Some (take (i + n) b3 @ replicate (host - i) c @ drop (i + n + (host - i)) b3)"
      using wrn_nat[of "i + n" "replicate (host - i) c" b3] assms n l3 by simp
    moreover have "take (i + n) b3 = take i b @ take n (drop host b)"
      using len by (simp add: b3_def)
    moreover have "drop (i + n + (host - i)) b3 = drop e b"
      using len assms n by (simp add: b3_def add.commute)
    ultimately show ?thesis
      using assms n l3 by (simp add: memset_def sz nat_diff_distrib)
  qed
  ultimately show ?thesis
    by (simp add: n)
qed

lemma host_colon:
  assumes at: "strncaseeq buffer at host_hdr = Some True" "at + 6 \<le> host" "host \<le> length buffer"
    and blank: "\<forall>i. at + 6 \<le> i \<and> i < host \<longrightarrow> isblank (buffer ! i)"
  shows "back_colon buffer host = Some (at + 5)"
proof -
  have colon: "buffer ! (at + 5) = 58"
  proof -
    have "tolower (buffer ! (at + 5)) = tolower 58"
      using strncaseeq_nth[OF at(1), of 5] by (simp add: host_hdr_def cstr_def)
    then show ?thesis
      by (simp add: tolower_def split: if_splits)
  qed
  have "buffer ! i \<noteq> 58" if "at + 5 < i" "i < host" for i
  proof -
    have "isblank (buffer ! i)"
      using blank that by simp
    then show ?thesis
      by (auto simp: isblank_def)
  qed
  then show ?thesis
    using at colon by (intro back_colon_spec) auto
qed

lemma mod_http_letters:
  assumes room: "at + 5 < length buffer" and host: "host + nat hlen \<le> length buffer"
  shows "\<exists>b1 b2. (if flag_set m MH_HMIX then do {
              x0 \<leftarrow> rd buffer (at + 1);
              a0 \<leftarrow> wr buffer (at + 1) (tolower x0);
              x1 \<leftarrow> rd a0 (at + 1 + 1);
              a1 \<leftarrow> wr a0 (at + 1 + 1) (toupper x1);
              x3 \<leftarrow> rd a1 (at + 1 + 3);
              wr a1 (at + 1 + 3) (toupper x3)
            } else Some buffer) = Some b1 \<and>
    (if flag_set m MH_DMIX then upper_even b1 host hlen 0 else Some b1) = Some b2 \<and>
    map tolower b2 = map tolower buffer"
proof -
  define b1 where "b1 = (if flag_set m MH_HMIX
     then buffer[at + 1 := tolower (buffer ! (at + 1)), at + 2 := toupper (buffer ! (at + 2)),
                 at + 4 := toupper (buffer ! (at + 4))] else buffer)"
  have b1: "(if flag_set m MH_HMIX then do {
              x0 \<leftarrow> rd buffer (at + 1);
              a0 \<leftarrow> wr buffer (at + 1) (tolower x0);
              x1 \<leftarrow> rd a0 (at + 1 + 1);
              a1 \<leftarrow> wr a0 (at + 1 + 1) (toupper x1);
              x3 \<leftarrow> rd a1 (at + 1 + 3);
              wr a1 (at + 1 + 3) (toupper x3)
            } else Some buffer) = Some b1"
    using room by (simp add: b1_def rd_def wr_def add.commute[of 4])
  have c1: "map tolower b1 = map tolower buffer"
    using room by (simp add: b1_def map_tolower_update)
  show ?thesis
  proof (cases "flag_set m MH_DMIX")
    case True
    have "host + nat hlen \<le> length b1"
      using host c1[THEN map_eq_imp_length_eq] by simp
    then show ?thesis
      using upper_even_spec[of host hlen b1 0] True c1 b1 by auto
  qed (use c1 b1 in auto)
qed

lemma mod_http_named:
  assumes parse: "parse_http buffer bsize False = Some (hlen, Some host, p)"
    and pos: "0 < hlen" and size: "bsize \<le> length buffer" "length buffer < 2 ^ 63"
  shows "\<exists>b' at e. mod_http buffer bsize m = Some (0, b')
     \<and> strncaseeq buffer at host_hdr = Some True \<and> at + 6 \<le> host
     \<and> host + nat hlen \<le> e \<and> e < bsize \<and> isspace (buffer ! e)
     \<and> map tolower b' = map tolower
         (if flag_set m MH_SPACE
          then take (at + 6) buffer @ take (e - host) (drop host buffer)
               @ replicate (host - (at + 6)) 9 @ drop e buffer
          else buffer)"
proof -
  have "http_host_at buffer bsize host hlen"
    using parse_http_host[OF size(1), of False] parse by simp
  then obtain at l_end nl where
    at: "strncaseeq buffer at host_hdr = Some True" "at + 6 \<le> host" "host \<le> nl" "nl < bsize"
      "buffer ! nl = 10" "\<forall>i. at + 6 \<le> i \<and> i < host \<longrightarrow> isblank (buffer ! i)"
    and le: "l_end \<le> nl" "hlen = int l_end - int host \<or> int host + hlen < int l_end"
    unfolding http_host_at_def by auto
  have bc: "back_colon buffer host = Some (at + 5)"
    using host_colon[OF at(1,2) _ at(6)] at(3,4) size by simp
  have hn: "host + nat hlen \<le> nl" "int host + hlen = int (host + nat hlen)"
    using le pos by auto
  have "at + 5 < length buffer" "host + nat hlen \<le> length buffer" using at size hn by auto
  then obtain b1 b2 where b1: "(if flag_set m MH_HMIX then do {
              x0 \<leftarrow> rd buffer (at + 1);
              a0 \<leftarrow> wr buffer (at + 1) (tolower x0);
              x1 \<leftarrow> rd a0 (at + 1 + 1);
              a1 \<leftarrow> wr a0 (at + 1 + 1) (toupper x1);
              x3 \<leftarrow> rd a1 (at + 1 + 3);
              wr a1 (at + 1 + 3) (toupper x3)
            } else Some buffer) = Some b1"
    and b2: "(if flag_set m MH_DMIX then upper_even b1 host hlen 0 else Some b1) = Some b2"
    and c2: "map tolower b2 = map tolower buffer"
    using mod_http_letters by blast
  have l2: "length b2 = length buffer"
    using c2 by (rule map_eq_imp_length_eq)
  have "isspace (b2 ! nl)"
    using caseless_isspace[OF c2, of nl] at size by (simp add: isspace_def)
  then obtain e where e: "fwd_space b2 (host + nat hlen) = Some e" "host + nat hlen \<le> e" "e \<le> nl"
    "isspace (b2 ! e)"
    using fwd_space_spec[of "host + nat hlen" nl b2] hn at size l2 by auto
  have mv: "memmove b2 (int (at + 6)) (int host) (int e - int host)
           \<bind> (\<lambda>b3. memset b3 (int (at + 6) + (int e - int host)) 9 (int host - int (at + 6)))
       = Some (take (at + 6) b2 @ take (e - host) (drop host b2) @ replicate (host - (at + 6)) 9 @ drop e b2)"
    using at e size l2 hn by (intro move_left) auto
  have as4: "c_assert (4 \<le> at + 5) = Some ()" "at + 5 - 4 = at + 1" "at + 1 + 5 = at + 6"
    by (simp_all add: c_assert_def)
  have nz: "(hlen = 0) = False" "(0 \<le> int (host + nat hlen)) = True"
    using pos by auto
  have "mod_http buffer bsize m = (if flag_set m MH_SPACE then
      Some (0, take (at + 6) b2 @ take (e - host) (drop host b2) @ replicate (host - (at + 6)) 9 @ drop e b2)
      else Some (0, b2))"
    unfolding mod_http_def parse bind.bind_lunit prod.case option.case nz if_False bc as4 Let_def b1 b2 hn(2)
      nat_int e(1) c_assert_True
    using mv by (simp add: bind_assoc[symmetric])
  moreover have "isspace (buffer ! e)"
    using caseless_isspace[OF c2, of e] e at size by simp
  moreover have "map tolower (if flag_set m MH_SPACE
        then take (at + 6) b2 @ take (e - host) (drop host b2) @ replicate (host - (at + 6)) 9 @ drop e b2
        else b2) = map tolower (if flag_set m MH_SPACE
        then take (at + 6) buffer @ take (e - host) (drop host buffer) @ replicate (host - (at + 6)) 9 @ drop e buffer
        else buffer)"
    by (simp only: if_distrib[of "map tolower"] caseless_append c2)
  moreover have "e < bsize"
    using e at by simp
  ultimately show ?thesis
    using at(1,2) e(2) by (cases "flag_set m MH_SPACE") (simp_all only: if_True if_False, blast+)
qed

text \<open>
  A header whose value is only blanks: \<open>host\<close> lies behind the blanks and the end of the line
  without white space before them, so the length is negative. Moving that many bytes is moving
  2 ^ 64 less a few.
\<close>

lemma mod_http_blank:
  assumes parse: "parse_http buffer bsize False = Some (hlen, Some host, p)"
    and neg: "hlen < 0" and size: "bsize \<le> length buffer" "length buffer < 2 ^ 63"
  shows "if flag_set m MH_SPACE then mod_http buffer bsize m = None
     else \<exists>b'. mod_http buffer bsize m = Some (0, b') \<and> map tolower b' = map tolower buffer"
proof -
  have "http_host_at buffer bsize host hlen"
    using parse_http_host[OF size(1), of False] parse by simp
  then obtain at l_end nl where
    at: "strncaseeq buffer at host_hdr = Some True" "at + 6 \<le> host" "host \<le> nl" "nl < bsize"
      "\<forall>i. at + 6 \<le> i \<and> i < host \<longrightarrow> isblank (buffer ! i)"
    and le: "at + 6 \<le> l_end" "hlen = int l_end - int host"
    unfolding http_host_at_def using neg by auto
  have bc: "back_colon buffer host = Some (at + 5)"
    using host_colon[OF at(1,2) _ at(5)] at(3,4) size by simp
  have lh: "l_end < host" "int host + hlen = int l_end"
    using le neg by auto
  have "at + 5 < length buffer" "host + nat hlen \<le> length buffer" using at size neg by auto
  then obtain b1 b2 where b1: "(if flag_set m MH_HMIX then do {
              x0 \<leftarrow> rd buffer (at + 1);
              a0 \<leftarrow> wr buffer (at + 1) (tolower x0);
              x1 \<leftarrow> rd a0 (at + 1 + 1);
              a1 \<leftarrow> wr a0 (at + 1 + 1) (toupper x1);
              x3 \<leftarrow> rd a1 (at + 1 + 3);
              wr a1 (at + 1 + 3) (toupper x3)
            } else Some buffer) = Some b1"
    and b2: "(if flag_set m MH_DMIX then upper_even b1 host hlen 0 else Some b1) = Some b2"
    and c2: "map tolower b2 = map tolower buffer"
    using mod_http_letters by blast
  have l2: "length b2 = length buffer"
    using c2 by (rule map_eq_imp_length_eq)
  have "isblank (buffer ! l_end)"
    using at(5) le(1) lh(1) by simp
  then have "isspace (b2 ! l_end)"
    using caseless_isspace[OF c2, of l_end] at lh size by (auto simp: isspace_def isblank_def)
  then have e: "fwd_space b2 l_end = Some l_end"
    using at lh size l2 by (subst fwd_space.simps) (simp add: rd_def)
  have "host < 2 ^ 63" "length b2 < 2 ^ 63"
    using at(3,4) size l2 by linarith+
  then have h63: "int host < 9223372036854775808" "int (length b2) < 9223372036854775808"
    by simp_all
  have "c_size (int l_end - int host) = int l_end - int host + 2 ^ 64"
  proof -
    have "c_size (int l_end - int host) = (int l_end - int host + 2 ^ 64) mod 2 ^ 64"
      unfolding c_size_def by (rule mod_add_self2[symmetric])
    also have "\<dots> = int l_end - int host + 2 ^ 64"
      using lh(1) h63 by (intro mod_pos_pos_trivial) simp_all
    finally show ?thesis .
  qed
  then have "int (length b2) < c_size (int l_end - int host)"
    using h63 by simp
  then have mv: "memmove b2 (int (at + 6)) (int host) (int l_end - int host) = None"
    by (simp add: memmove_def rdn_def)
  have as4: "c_assert (4 \<le> at + 5) = Some ()" "at + 5 - 4 = at + 1" "at + 1 + 5 = at + 6"
    by (simp_all add: c_assert_def)
  have nz: "(hlen = 0) = False" "(0 \<le> int l_end) = True"
    using neg by auto
  have "mod_http buffer bsize m = (if flag_set m MH_SPACE then None else Some (0, b2))"
    unfolding mod_http_def parse bind.bind_lunit prod.case option.case nz if_False bc as4 Let_def b1 b2 lh(2)
      nat_int e c_assert_True mv bind.bind_lzero ..
  then show ?thesis
    using c2 by simp
qed

text \<open>
  C20. What \<open>mod_http\<close> does to every request. It returns -1 and leaves the request alone when
  there is no host or an empty one. With a host it changes nothing but the case of letters; with
  \<open>MH_SPACE\<close> it also moves the host next to the header name and fills the line up with tabs, so
  that the request keeps its length and every other byte its place. A \<open>Host\<close> header of blanks only
  has a negative length: then it changes letters at most, but with \<open>MH_SPACE\<close> the length becomes
  the \<open>size_t\<close> of a \<open>memmove\<close> that leaves the buffer, which is the \<open>None\<close> of the model.
\<close>

theorem mod_http_caseless:
  assumes parse: "parse_http buffer bsize False = Some (hlen, hs, p)"
    and size: "bsize \<le> length buffer" "length buffer < 2 ^ 63"
  shows "case hs of
      None \<Rightarrow> mod_http buffer bsize m = Some (- 1, buffer)
    | Some host \<Rightarrow>
        if hlen = 0 then mod_http buffer bsize m = Some (- 1, buffer)
        else if hlen < 0 then
          (if flag_set m MH_SPACE then mod_http buffer bsize m = None
           else \<exists>b'. mod_http buffer bsize m = Some (0, b') \<and> map tolower b' = map tolower buffer)
        else \<exists>b' at e. mod_http buffer bsize m = Some (0, b')
          \<and> strncaseeq buffer at host_hdr = Some True \<and> at + 6 \<le> host
          \<and> host + nat hlen \<le> e \<and> e < bsize \<and> isspace (buffer ! e)
          \<and> map tolower b' = map tolower
              (if flag_set m MH_SPACE
               then take (at + 6) buffer @ take (e - host) (drop host buffer)
                    @ replicate (host - (at + 6)) 9 @ drop e buffer
               else buffer)"
proof (cases hs)
  case None
  then show ?thesis
    using parse by (simp add: mod_http_def)
next
  case (Some host)
  consider "hlen = 0" | "hlen < 0" | "0 < hlen" by linarith
  then show ?thesis
  proof cases
    case 1
    then show ?thesis
      using parse Some by (simp add: mod_http_def)
  next
    case 2
    then have h: "hlen \<noteq> 0" by simp
    show ?thesis
      unfolding Some option.case if_not_P[OF h] if_P[OF 2]
      by (rule mod_http_blank[OF parse[unfolded Some] 2 size])
  next
    case 3
    then have h: "hlen \<noteq> 0" "\<not> hlen < 0" by simp_all
    show ?thesis
      unfolding Some option.case if_not_P[OF h(1)] if_not_P[OF h(2)]
      by (rule mod_http_named[OF parse[unfolded Some] 3 size])
  qed
qed

section \<open>Properties\<close>

text \<open>
  C18. \<open>parse_tls\<close> reads only inside the packet. It returns 0 with no host, or a host name that
  lies inside the packet, of a ClientHello, with the name type 0 and the length its extension
  announces.
\<close>

theorem parse_tls_spec:
  assumes "bsize \<le> length buffer"
  shows "\<exists>len hs. parse_tls buffer bsize = Some (len, hs)
     \<and> (case hs of
          None \<Rightarrow> len = 0
        | Some h \<Rightarrow> is_tls_chello buffer bsize = Some True \<and> 0 \<le> len \<and> 59 \<le> h
                    \<and> int h + len \<le> int bsize \<and> len < 2 ^ 16
                    \<and> ANTOHS buffer (h - 9) = Some 0 \<and> ANTOHS buffer (h - 2) = Some (word_of_int len))"
  using assms by (rule parse_tls_host)

theorem parse_tls_spec_witness:
  "517 \<le> length tls_data \<and> parse_tls tls_data 517 = Some (17, Some 153)
   \<and> ANTOHS tls_data (153 - 2) = Some (word_of_int 17)"
proof -
  have "517 \<le> length tls_data" and r: "parse_tls tls_data 517 = Some (17, Some 153)"
    by code_simp+
  from parse_tls_spec[OF this(1)] r show ?thesis
    by (auto simp: \<open>517 \<le> length tls_data\<close>)
qed

text \<open>
  C16. \<open>part_tls\<close> on a buffer with room for five more bytes splits the first TLS record at
  \<open>pos\<close>: two records with the same type and version take its place, their payloads make up the
  old one, and the bytes after the packet stay.
\<close>

theorem part_tls_splits:
  fixes pos :: nat
  assumes "tls_records (take n buffer) = Some ((hdr, payload) # rs)" and "pos \<le> length payload"
    and "n + 5 \<le> bsize" and "bsize \<le> length buffer" and "bsize < 2 ^ 63"
  shows "\<exists>buffer'. part_tls buffer (int bsize) (int n) (int pos) = Some (5, buffer')
     \<and> tls_records (take (n + 5) buffer') =
         Some ((hdr, take pos payload) # (hdr, drop pos payload) # rs)
     \<and> drop (n + 5) buffer' = drop (n + 5) buffer \<and> length buffer' = length buffer"
  using assms by (rule part_tls_split_records)

theorem part_tls_splits_witness:
  "\<exists>buffer'. part_tls [22, 3, 1, 0, 3, 7, 8, 9, 0, 0, 0, 0, 0, 5] (int 13) (int 8) (int 1) = Some (5, buffer')
     \<and> tls_records (take (8 + 5) buffer') = Some [([22, 3, 1], take 1 [7, 8, 9]), ([22, 3, 1], drop 1 [7, 8, 9])]
     \<and> drop (8 + 5) buffer' = drop (8 + 5) [22, 3, 1, 0, 3, 7, 8, 9, 0, 0, 0, 0, 0, 5]
     \<and> length buffer' = length [22, 3, 1, 0, 3, 7, 8, 9, 0, 0, 0, 0, 0, 5 :: byte]"
  by (rule part_tls_splits) (code_simp, code_simp, code_simp, code_simp, simp)

text \<open>
  C19. \<open>parse_http\<close> reads only inside the request and leaves it unchanged. A host it returns
  follows a \<open>Host:\<close> header name and blanks on one line, and its length ends it at the end of
  the line without the white space there, or at a colon before that.
\<close>

theorem parse_http_spec:
  assumes "bsize \<le> length buffer"
  shows "\<exists>r hs p. parse_http buffer bsize port = Some (r, hs, p)
     \<and> (case hs of None \<Rightarrow> r = 0 | Some h \<Rightarrow> http_host_at buffer bsize h r)"
  using assms by (rule parse_http_host)

theorem parse_http_spec_witness:
  "\<exists>r hs p. parse_http http_data (length http_data) True = Some (r, hs, p)
     \<and> (case hs of None \<Rightarrow> r = 0 | Some h \<Rightarrow> http_host_at http_data (length http_data) h r)"
  by (rule parse_http_spec) simp

text \<open>A request whose \<open>Host\<close> header holds three blanks.\<close>

definition blank_host :: bytes where
  "blank_host = cstr ''GET / HTTP/1.1'' @ [10] @ cstr ''Host:   '' @ [10]"

theorem mod_http_caseless_witness:
  "(\<exists>b' at e. mod_http http_data 43 5 = Some (0, b')
     \<and> strncaseeq http_data at host_hdr = Some True \<and> at + 6 \<le> 22
     \<and> 22 + nat 17 \<le> e \<and> e < 43 \<and> isspace (http_data ! e)
     \<and> map tolower b' = map tolower
         (if flag_set 5 MH_SPACE
          then take (at + 6) http_data @ take (e - 22) (drop 22 http_data)
               @ replicate (22 - (at + 6)) 9 @ drop e http_data
          else http_data))
   \<and> parse_http blank_host 24 False = Some (- 3, Some 23, None) \<and> mod_http blank_host 24 2 = None"
proof
  have "parse_http http_data 43 False = Some (17, Some 22, None)" by code_simp
  moreover have "43 \<le> length http_data" "length http_data < 2 ^ 63"
    by (code_simp, simp add: http_data_def cstr_def)
  ultimately show "\<exists>b' at e. mod_http http_data 43 5 = Some (0, b')
     \<and> strncaseeq http_data at host_hdr = Some True \<and> at + 6 \<le> 22
     \<and> 22 + nat 17 \<le> e \<and> e < 43 \<and> isspace (http_data ! e)
     \<and> map tolower b' = map tolower
         (if flag_set 5 MH_SPACE
          then take (at + 6) http_data @ take (e - 22) (drop 22 http_data)
               @ replicate (22 - (at + 6)) 9 @ drop e http_data
          else http_data)"
    using mod_http_caseless[of http_data 43 17 "Some 22" None 5] by simp
  have b: "parse_http blank_host 24 False = Some (- 3, Some 23, None)" "flag_set 2 MH_SPACE" by code_simp+
  moreover have "24 \<le> length blank_host" "length blank_host < 2 ^ 63"
    by (code_simp, simp add: blank_host_def cstr_def)
  ultimately show "parse_http blank_host 24 False = Some (- 3, Some 23, None) \<and> mod_http blank_host 24 2 = None"
    using mod_http_caseless[of blank_host 24 "- 3" "Some 23" None 2] by simp
qed

end
