(* ===== verification/Params.thy ===== *)
theory Params
  imports Mpool Packets
begin

text \<open>
  The data of the proxy: the options (\<open>byedpi/params.h\<close>), the connection table
  (\<open>byedpi/conev.h\<close>) and socket addresses, with the constants the sources name.

  A \<open>struct sockaddr_ina\<close> is the union of the IPv4 and IPv6 socket addresses, so it is kept
  as its 28 bytes of memory: the family (little endian) at 0, the port (network order) at 2,
  the IPv4 address at 4, the IPv6 flow information at 4, the IPv6 address at 8 and the scope
  at 24. A pointer to a \<open>struct eval\<close> is its position in \<open>items\<close>.
\<close>

unbundle bit_operations_syntax

section \<open>Constants\<close>

abbreviation (input) OFFSET_SNI :: int where "OFFSET_SNI \<equiv> 1"
abbreviation (input) OFFSET_HOST :: int where "OFFSET_HOST \<equiv> 2"
abbreviation (input) OFFSET_END :: int where "OFFSET_END \<equiv> 3"

abbreviation (input) DETECT_HTTP_LOCAT :: int where "DETECT_HTTP_LOCAT \<equiv> 1"
abbreviation (input) DETECT_TLS_ERR :: int where "DETECT_TLS_ERR \<equiv> 2"
abbreviation (input) DETECT_TORST :: int where "DETECT_TORST \<equiv> 8"

abbreviation (input) IS_TCP :: int where "IS_TCP \<equiv> 1"
abbreviation (input) IS_UDP :: int where "IS_UDP \<equiv> 2"
abbreviation (input) IS_HTTP :: int where "IS_HTTP \<equiv> 4"
abbreviation (input) IS_HTTPS :: int where "IS_HTTPS \<equiv> 8"

abbreviation (input) FLAG_S4 :: int where "FLAG_S4 \<equiv> 1"
abbreviation (input) FLAG_S5 :: int where "FLAG_S5 \<equiv> 2"
abbreviation (input) FLAG_CONN :: int where "FLAG_CONN \<equiv> 4"

text \<open>\<open>errno\<close> values and poll bits of Linux.\<close>

abbreviation (input) EINTR :: int where "EINTR \<equiv> 4"
abbreviation (input) EAGAIN :: int where "EAGAIN \<equiv> 11"
abbreviation (input) ENETUNREACH :: int where "ENETUNREACH \<equiv> 101"
abbreviation (input) ECONNRESET :: int where "ECONNRESET \<equiv> 104"
abbreviation (input) ETIMEDOUT :: int where "ETIMEDOUT \<equiv> 110"
abbreviation (input) ECONNREFUSED :: int where "ECONNREFUSED \<equiv> 111"
abbreviation (input) EHOSTUNREACH :: int where "EHOSTUNREACH \<equiv> 113"
abbreviation (input) EINPROGRESS :: int where "EINPROGRESS \<equiv> 115"

abbreviation (input) POLLIN :: int where "POLLIN \<equiv> 1"
abbreviation (input) POLLOUT :: int where "POLLOUT \<equiv> 4"
abbreviation (input) POLLERR :: int where "POLLERR \<equiv> 8"
abbreviation (input) POLLHUP :: int where "POLLHUP \<equiv> 16"
abbreviation (input) POLLRDHUP :: int where "POLLRDHUP \<equiv> 8192"

abbreviation (input) AF_INET :: int where "AF_INET \<equiv> 2"
abbreviation (input) AF_INET6 :: int where "AF_INET6 \<equiv> 10"
abbreviation (input) SOCK_STREAM :: int where "SOCK_STREAM \<equiv> 1"
abbreviation (input) SOCK_DGRAM :: int where "SOCK_DGRAM \<equiv> 2"
abbreviation (input) AI_NUMERICHOST :: int where "AI_NUMERICHOST \<equiv> 4"
abbreviation (input) AI_ADDRCONFIG :: int where "AI_ADDRCONFIG \<equiv> 1024"

text \<open>A C test \<open>m & f\<close>.\<close>

definition bit_test :: "int \<Rightarrow> int \<Rightarrow> bool" where
  "bit_test m f \<longleftrightarrow> m AND f \<noteq> 0"

section \<open>Options\<close>

datatype demode = DESYNC_NONE | DESYNC_SPLIT | DESYNC_DISORDER | DESYNC_OOB | DESYNC_DISOOB | DESYNC_FAKE

record part =
  p_m :: demode
  p_flag :: int
  p_pos :: int

text \<open>
  \<open>parts_n\<close> and \<open>tlsrec_n\<close> are the lengths of the lists. A packet is its bytes, \<open>None\<close>
  for a null \<open>data\<close> pointer, and so are \<open>ip_options\<close> and \<open>file_ptr\<close>, whose sizes are
  fields of their own in the code. \<open>dp\<close> is the table of strategies and \<open>dp_count\<close> the number
  of its entries; the two agree while the proxy runs (\<open>Options\<close> shows where they do not), so
  that the handlers use the length of the table.
\<close>

record desync_params =
  ttl :: int
  ip_options :: "bytes option"
  md5sig :: bool
  fake_data :: "bytes option"
  udp_fake_count :: int
  fake_offset :: int
  drop_sack :: bool
  oob_char :: "byte \<times> byte"
  parts :: "part list"
  mod_http_f :: int
  tlsrec :: "part list"
  proto :: int
  detect :: int
  hosts :: "mphdr option"
  pf :: "u16 \<times> u16"
  file_ptr :: "bytes option"

record params =
  dp_count :: int
  dp :: "desync_params list"
  sfdelay :: int
  wait_send_f :: bool
  def_ttl :: int
  custom_ttl :: bool
  tfo :: bool
  timeout :: int
  cache_ttl :: int
  ipv6 :: bool
  resolve_f :: bool
  udp_f :: bool
  max_open :: int
  debug :: int
  bfsize :: int
  baddr :: bytes
  laddr :: bytes
  mempool :: "mphdr option"
  protect_path :: "bytes option"
  fake_tls :: bytes
  fake_http :: bytes
  fake_udp :: bytes

section \<open>Socket addresses\<close>

definition sa_family :: "bytes \<Rightarrow> int" where
  "sa_family a = uint (a ! 0) + 256 * uint (a ! 1)"

definition set_family :: "int \<Rightarrow> bytes \<Rightarrow> bytes" where
  "set_family f a = a[0 := word_of_int f, 1 := word_of_int (f div 256)]"

text \<open>\<open>sin_port\<close> read as the little-endian machine reads it, without \<open>ntohs\<close>.\<close>

definition sa_port_raw :: "bytes \<Rightarrow> int" where
  "sa_port_raw a = uint (a ! 2) + 256 * uint (a ! 3)"

definition set_port :: "byte \<Rightarrow> byte \<Rightarrow> bytes \<Rightarrow> bytes" where
  "set_port p0 p1 a = a[2 := p0, 3 := p1]"

definition sin_addr :: "bytes \<Rightarrow> bytes" where
  "sin_addr a = take 4 (drop 4 a)"

definition set_sin_addr :: "bytes \<Rightarrow> bytes \<Rightarrow> bytes" where
  "set_sin_addr x a = take 4 a @ x @ drop 8 a"

definition sin6_addr :: "bytes \<Rightarrow> bytes" where
  "sin6_addr a = take 16 (drop 8 a)"

definition set_sin6_addr :: "bytes \<Rightarrow> bytes \<Rightarrow> bytes" where
  "set_sin6_addr x a = take 8 a @ x @ drop 24 a"

definition sockaddr_ok :: "bytes \<Rightarrow> bool" where
  "sockaddr_ok a \<longleftrightarrow> length a = 28"

definition SA_SIZE :: "bytes \<Rightarrow> nat" where
  "SA_SIZE a = (if sa_family a = AF_INET6 then 28 else 16)"

section \<open>Initial values\<close>

definition zero_part :: part where
  "zero_part = \<lparr>p_m = DESYNC_NONE, p_flag = 0, p_pos = 0\<rparr>"

definition zero_dp :: desync_params where
  "zero_dp = \<lparr>ttl = 0, ip_options = None, md5sig = False, fake_data = None, udp_fake_count = 0,
     fake_offset = 0, drop_sack = False, oob_char = (0, 0), parts = [], mod_http_f = 0, tlsrec = [],
     proto = 0, detect = 0, hosts = None, pf = (0, 0), file_ptr = None\<rparr>"

text \<open>The initial values of \<open>params\<close> and of the fake packets.\<close>

definition default_params :: params where
  "default_params = \<lparr>dp_count = 0, dp = [], sfdelay = 3, wait_send_f = True, def_ttl = 0, custom_ttl = False,
     tfo = False, timeout = 0, cache_ttl = 100800, ipv6 = True, resolve_f = True, udp_f = True,
     max_open = 512, debug = 0, bfsize = 16384, baddr = set_family AF_INET6 (replicate 28 0),
     laddr = set_family AF_INET (replicate 28 0), mempool = None, protect_path = None,
     fake_tls = tls_data, fake_http = http_data, fake_udp = udp_data\<rparr>"

section \<open>The connection table\<close>

datatype eid = EV_ACCEPT | EV_REQUEST | EV_CONNECT | EV_IGNORE | EV_TUNNEL | EV_PRE_TUNNEL
  | EV_UDP_TUNNEL | EV_DESYNC

text \<open>
  \<open>buff_data\<close> is the buffer's memory, \<open>None\<close> for a null pointer; \<open>buff_size\<close> and
  \<open>buff_offset\<close> are the fields \<open>size\<close> and \<open>offset\<close> next to it.
\<close>

record eval =
  fd :: int
  index :: int
  mod_iter :: u32
  etype :: eid
  pair :: "nat option"
  buff_size :: int
  buff_offset :: int
  buff_data :: "bytes option"
  flag :: int
  in6 :: bytes
  recv_count :: int
  attempt :: int
  cache :: bool

record poolhd =
  pmax :: int
  pcount :: int
  efd :: int
  links :: "nat list"
  items :: "eval list"
  pevents :: "(nat \<times> int) list"
  iters :: u32

end
