(* ===== verification/Os.thy ===== *)
theory Os
  imports Params
begin

text \<open>
  The operating system under the proxy. Its code is not part of the program, so it is a
  parameter of every definition that calls it: a kernel is a function from the calls made so
  far, with their replies, to the reply of the next call. The world is the program's global
  state: the options, the connection table, the calls made, \<open>errno\<close>, the flag
  \<open>NOT_EXIT\<close> and the buffer the event loop hands to its handlers. A failing call sets \<open>errno\<close>, a succeeding one leaves it.

  Memory allocation is a call too; its reply says whether it succeeded. Log output and
  \<open>free\<close> are left out.
\<close>

section \<open>Calls and replies\<close>

datatype sockopt = IP_TTL | IPV6_UNICAST_HOPS | SO_ATTACH_FILTER | SO_DETACH_FILTER | TCP_MD5SIG
  | IP_OPTIONS | TCP_INFO | TCP_USER_TIMEOUT | IPV6_V6ONLY | TCP_SYNCNT | TCP_FASTOPEN_CONNECT
  | TCP_NODELAY | SO_ERROR | SO_REUSEADDR | SO_RCVTIMEO | SO_SNDTIMEO

text \<open>
  \<open>Map_write\<close> is the \<open>memcpy\<close> into the shared mapping of a \<open>memfd\<close>: it changes what the
  kernel sends (or sends again) for pages given to \<open>sendfile\<close>.
\<close>

datatype (plugins only: code) call =
    Setsockopt int sockopt "int list"
  | Getsockopt int sockopt
  | Getpeername int
  | Getsockname int
  | Nanosleep int
  | Memfd_create
  | Ftruncate int int
  | Mmap int int
  | Map_write int bytes
  | Munmap int int
  | Sendfile int int int
  | Close int
  | Send int bytes int
  | Sendto int bytes bytes
  | Sendmsg_fd int int
  | Epoll_create int
  | Epoll_add int nat int
  | Epoll_mod int nat int
  | Epoll_del int
  | Epoll_wait int
  | Malloc int
  | Realloc int
  | Socket int int
  | Connect int bytes
  | Connect_un int bytes
  | Bind int bytes
  | Listen int int
  | Accept int
  | Recv int int
  | Recvfrom int int
  | Getaddrinfo bytes int int int
  | Time
  | Vpn_protect int
  | Signal int
  | Fopen bytes
  | Fseek int int
  | Ftell int
  | Fread int int
  | Fclose int
  | Shutdown int

record reply =
  ret :: int
  err :: int
  out :: bytes
  vals :: "int list"
  evs :: "(nat \<times> int) list"

type_synonym trace = "(call \<times> reply) list"

type_synonym kernel = "trace \<Rightarrow> call \<Rightarrow> reply"

section \<open>The world\<close>

record world =
  prm :: params
  pool :: poolhd
  hist :: trace
  errno :: int
  not_exit :: bool
  buf :: bytes

definition sys :: "kernel \<Rightarrow> call \<Rightarrow> world \<Rightarrow> reply \<times> world" where
  "sys k c w = (let r = k (hist w) c in
     (r, w\<lparr>hist := hist w @ [(c, r)], errno := (if ret r < 0 then err r else errno w)\<rparr>))"

lemma sys_simps [simp]:
  "prm (snd (sys k c w)) = prm w" "pool (snd (sys k c w)) = pool w"
  "not_exit (snd (sys k c w)) = not_exit w" "buf (snd (sys k c w)) = buf w"
  "hist (snd (sys k c w)) = hist w @ [(c, fst (sys k c w))]"
  by (simp_all add: sys_def Let_def)

lemma sys_eqD:
  assumes "sys k c w = (r, w')"
  shows "prm w' = prm w" "pool w' = pool w" "not_exit w' = not_exit w" "hist w' = hist w @ [(c, r)]"
    "r = k (hist w) c" "errno w' = (if ret r < 0 then err r else errno w)"
  using assms by (auto simp: sys_def Let_def)

text \<open>
  Receiving into the buffer from position \<open>at\<close> on. A kernel that returned more than it was
  asked for would write outside the buffer.
\<close>

definition recv_into :: "kernel \<Rightarrow> call \<Rightarrow> int \<Rightarrow> world \<Rightarrow> (reply \<times> world) option" where
  "recv_into k c at w = do {
     let (r, w) = sys k c w;
     if 0 < ret r then do {
       b \<leftarrow> wrn (buf w) at (take (nat (ret r)) (out r));
       Some (r, w\<lparr>buf := b\<rparr>)
     }
     else Some (r, w)
   }"

text \<open>
  What a trace registers with epoll: the item given for a descriptor by the last call that set
  it, until the descriptor is removed or closed. A call is calm if it does not set an item.
\<close>

definition calm :: "call \<Rightarrow> bool" where
  "calm c \<longleftrightarrow> (case c of Epoll_add _ _ _ \<Rightarrow> False | Epoll_mod _ _ _ \<Rightarrow> False | _ \<Rightarrow> True)"

definition watch_step :: "(int \<rightharpoonup> nat) \<Rightarrow> call \<times> reply \<Rightarrow> (int \<rightharpoonup> nat)" where
  "watch_step m cr =
     (case fst cr of
        Epoll_add f v e \<Rightarrow> if ret (snd cr) = 0 then m(f \<mapsto> v) else m
      | Epoll_mod f v e \<Rightarrow> if ret (snd cr) = 0 then m(f \<mapsto> v) else m
      | Epoll_del f \<Rightarrow> m(f := None)
      | Close f \<Rightarrow> m(f := None)
      | _ \<Rightarrow> m)"

definition watched :: "trace \<Rightarrow> (int \<rightharpoonup> nat)" where
  "watched h = foldl watch_step Map.empty h"

lemma watched_append: "watched (h @ es) = foldl watch_step (watched h) es"
  by (simp add: watched_def)

lemma watch_step_calm: "calm (fst cr) \<Longrightarrow> watch_step m cr \<subseteq>\<^sub>m m"
  by (auto simp: watch_step_def calm_def map_le_def split: call.splits)

lemma watched_calm:
  assumes "\<forall>c \<in> set (map fst es). calm c"
  shows "foldl watch_step m es \<subseteq>\<^sub>m m"
  using assms
proof (induction es arbitrary: m)
  case (Cons cr es)
  then have "foldl watch_step (watch_step m cr) es \<subseteq>\<^sub>m watch_step m cr"
    by simp
  then show ?case
    using watch_step_calm[of cr m] Cons.prems map_le_trans by fastforce
qed simp

text \<open>A descriptor removed among calm calls is not registered behind them.\<close>

lemma watched_deleted:
  assumes "\<forall>c \<in> set (map fst es). calm c" and "Epoll_del f \<in> set (map fst es)"
  shows "foldl watch_step m es f = None"
  using assms
proof (induction es arbitrary: m)
  case (Cons cr es)
  show ?case
  proof (cases "fst cr = Epoll_del f")
    case True
    then have "watch_step m cr f = None"
      by (simp add: watch_step_def)
    moreover have "foldl watch_step (watch_step m cr) es \<subseteq>\<^sub>m watch_step m cr"
      using Cons.prems(1) watched_calm by simp
    ultimately show ?thesis
      by (metis foldl_Cons domIff map_le_implies_dom_le subsetD)
  next
    case False
    then show ?thesis
      using Cons by auto
  qed
qed simp

section \<open>Concrete systems\<close>

text \<open>
  Replies and worlds to evaluate the definitions on: \<open>ok_reply n\<close> succeeds with the value \<open>n\<close>,
  \<open>start_world\<close> is the state before the first call.
\<close>

definition ok_reply :: "int \<Rightarrow> reply" where
  "ok_reply n = \<lparr>ret = n, err = 0, out = [], vals = [], evs = []\<rparr>"

definition fail_reply :: "int \<Rightarrow> reply" where
  "fail_reply e = \<lparr>ret = - 1, err = e, out = [], vals = [], evs = []\<rparr>"

text \<open>A kernel whose calls succeed, whose sends are complete and whose descriptors are 7.\<close>

fun plain_kernel :: kernel where
  "plain_kernel h (Send f bs fl) = ok_reply (int (length bs))"
| "plain_kernel h (Sendfile f ffd n) = ok_reply n"
| "plain_kernel h (Malloc n) = ok_reply 1"
| "plain_kernel h (Realloc n) = ok_reply 1"
| "plain_kernel h (Socket f ty) = ok_reply 7"
| "plain_kernel h (Accept f) = ok_reply 7"
| "plain_kernel h (Memfd_create) = ok_reply 7"
| "plain_kernel h (Mmap f n) = ok_reply 1"
| "plain_kernel h c = ok_reply 0"

definition empty_pool :: poolhd where
  "empty_pool = \<lparr>pmax = 0, pcount = 0, efd = 0, links = [], items = [], pevents = [], iters = 0\<rparr>"

definition start_world :: "params \<Rightarrow> world" where
  "start_world p = \<lparr>prm = p, pool = empty_pool, hist = [], errno = 0, not_exit = True, buf = []\<rparr>"

end
