(* ===== verification/Conev.thy ===== *)
theory Conev
  imports Os
begin

text \<open>
  The connection table of \<open>byedpi/conev.c\<close> (the epoll variant, which Linux and Android use).
  \<open>links\<close> is a permutation of the items whose first \<open>count\<close> entries are the live
  connections, and \<open>index\<close> of a live item is its place in \<open>links\<close>; deleting an item moves
  the last live one into its place. The lemmas show that every operation keeps this, that an
  item that is live stays live until it is deleted, and that a failed \<open>assert\<close> or an access
  outside the table cannot happen from a table in this state. Deleting closes the chain of pairs
  behind an item, and the queue of events skips the slots that were filled or closed meanwhile.
\<close>

section \<open>The code\<close>

definition empty_eval :: eval where
  "empty_eval = \<lparr>fd = 0, index = 0, mod_iter = 0, etype = EV_ACCEPT, pair = None, buff_size = 0,
     buff_offset = 0, buff_data = None, flag = 0, in6 = replicate 28 0, recv_count = 0,
     attempt = 0, cache = False\<rparr>"

text \<open>Reading and writing a connection through its pointer.\<close>

definition get_ev :: "nat \<Rightarrow> world \<Rightarrow> eval option" where
  "get_ev v w = (if v < length (items (pool w)) then Some (items (pool w) ! v) else None)"

definition set_ev :: "nat \<Rightarrow> (eval \<Rightarrow> eval) \<Rightarrow> world \<Rightarrow> world option" where
  "set_ev v f w =
     (if v < length (items (pool w))
      then Some (w\<lparr>pool := (pool w)\<lparr>items := (items (pool w))[v := f (items (pool w) ! v)]\<rparr>\<rparr>)
      else None)"

text \<open>
  The items a fresh table has are uninitialised except the first, which is zeroed;
  \<open>junk\<close> stands for what the allocator returned.
\<close>

definition init_pool :: "kernel \<Rightarrow> eval list \<Rightarrow> int \<Rightarrow> world \<Rightarrow> (bool \<times> world) option" where
  "init_pool k junk count w = do {
     let (r, w) = sys k (Malloc 48) w;
     if ret r = 0 then Some (False, w)
     else do {
       let (e, w) = sys k (Epoll_create count) w;
       if ret e < 0 then Some (False, w)
       else do {
         let (m1, w) = sys k (Malloc (12 * count)) w;
         let (m2, w) = sys k (Malloc (8 * count)) w;
         let (m3, w) = sys k (Malloc (104 * count)) w;
         if ret m1 = 0 \<or> ret m2 = 0 \<or> ret m3 = 0 
         then Some (False, if ret e \<noteq> 0 then snd (sys k (Close (ret e)) w) else w)
         else Some (True, w\<lparr>pool := \<lparr>pmax = count, pcount = 0, efd = ret e, links = [0..<nat count],
             items = (take (nat count) junk)[0 := empty_eval], pevents = [], iters = 0\<rparr>\<rparr>)
       }
     }
   }"

definition add_event :: "kernel \<Rightarrow> eid \<Rightarrow> int \<Rightarrow> int \<Rightarrow> world \<Rightarrow> (nat option \<times> world) option" where
  "add_event k ty f e w = do {
     c_assert (0 < f);
     let p = pool w;
     if pmax p \<le> pcount p then Some (None, w)
     else do {
       c_assert (0 \<le> pcount p \<and> nat (pcount p) < length (links p));
       let v = links p ! nat (pcount p);
       w \<leftarrow> set_ev v (\<lambda>_. empty_eval\<lparr>mod_iter := iters p, fd := f, index := pcount p, etype := ty\<rparr>) w;
       let (r, w) = sys k (Epoll_add f v (POLLRDHUP OR e)) w;
       if ret r \<noteq> 0 then Some (None, w)
       else Some (Some v, w\<lparr>pool := (pool w)\<lparr>pcount := pcount p + 1\<rparr>\<rparr>)
     }
   }"

text \<open>
  \<open>del_event\<close> follows the \<open>pair\<close> pointers. Each round but the last closes a live
  connection, so the number of items bounds the rounds; \<open>fuel\<close> counts them.
\<close>

definition unlink_ev :: "nat \<Rightarrow> world \<Rightarrow> world option" where
  "unlink_ev v w = do {
     val \<leftarrow> get_ev v w;
     let p = pool w;
     let c = pcount p - 1;
     c_assert (0 \<le> c \<and> nat c < length (links p));
     let ev = links p ! nat c;
     let w = w\<lparr>pool := p\<lparr>pcount := c\<rparr>\<rparr>;
     if ev = v then Some w
     else do {
       c_assert (0 \<le> index val \<and> nat (index val) < length (links p));
       let w = w\<lparr>pool := (pool w)\<lparr>links := (links p)[nat (index val) := ev, nat c := v]\<rparr>\<rparr>;
       set_ev ev (\<lambda>x. x\<lparr>index := index val\<rparr>) w
     }
   }"

definition unpair :: "nat \<Rightarrow> nat \<Rightarrow> world \<Rightarrow> world option" where
  "unpair v q w = do {
     e \<leftarrow> get_ev q w;
     w \<leftarrow> (if pair e = Some v then set_ev q (\<lambda>x. x\<lparr>pair := None\<rparr>) w else Some w);
     set_ev v (\<lambda>x. x\<lparr>pair := None\<rparr>) w
   }"

fun del_event_n :: "nat \<Rightarrow> kernel \<Rightarrow> nat \<Rightarrow> world \<Rightarrow> world option" where
  "del_event_n 0 k v w = None"
| "del_event_n (Suc n) k v w = do {
     val \<leftarrow> get_ev v w;
     c_assert (- 1 \<le> fd val \<and> mod_iter val \<le> iters (pool w));
     if fd val = - 1 then Some w
     else do {
       let (_, w) = sys k (Epoll_del (fd val)) w;
       c_assert (buff_data val = None \<or> buff_size val \<noteq> 0);
       let (_, w) = sys k (Close (fd val)) w;
       w \<leftarrow> set_ev v (\<lambda>x. x\<lparr>buff_data := None, fd := - 1, mod_iter := iters (pool w)\<rparr>) w;
       w \<leftarrow> unlink_ev v w;
       w \<leftarrow> (case pair val of
               None \<Rightarrow> Some w
             | Some q \<Rightarrow> do { w \<leftarrow> unpair v q w; del_event_n n k q w });
       c_assert (0 < pcount (pool w));
       Some w
     }
   }"

definition del_event :: "kernel \<Rightarrow> nat \<Rightarrow> world \<Rightarrow> world option" where
  "del_event k v w = del_event_n (Suc (length (items (pool w)))) k v w"

fun destroy_items :: "kernel \<Rightarrow> nat list \<Rightarrow> world \<Rightarrow> world option" where
  "destroy_items k [] w = Some w"
| "destroy_items k (v # vs) w = do {
     val \<leftarrow> get_ev v w;
     let w = (if fd val \<noteq> 0 then snd (sys k (Close (fd val)) w) else w);
     w \<leftarrow> set_ev v (\<lambda>x. x\<lparr>fd := 0, buff_data := None\<rparr>) w;
     destroy_items k vs w
   }"

definition destroy_pool :: "kernel \<Rightarrow> world \<Rightarrow> world option" where
  "destroy_pool k w = do {
     w \<leftarrow> destroy_items k (take (nat (pcount (pool w))) (links (pool w))) w;
     let e = efd (pool w);
     Some (if e \<noteq> 0 then snd (sys k (Close e) w) else w)
   }"

text \<open>
  The batch of events of the last \<open>epoll_wait\<close> is walked backwards from \<open>offs\<close>; an item
  that was made or closed during the batch has \<open>mod_iter = iters\<close> and is skipped. The result
  is the item and its events, \<open>None\<close> when \<open>epoll_wait\<close> returned nothing.
\<close>

definition wait_batch :: "kernel \<Rightarrow> world \<Rightarrow> (int \<times> world)" where
  "wait_batch k w =
     (let (r, w) = sys k (Epoll_wait (pmax (pool w))) w;
          i = ret r - 1
      in if i < 0 then (i, w)
         else (i, w\<lparr>pool := (pool w)\<lparr>pevents := evs r,
                  iters := (if iters (pool w) = - 1 then 1 else iters (pool w) + 1)\<rparr>\<rparr>))"

fun next_event :: "nat \<Rightarrow> kernel \<Rightarrow> int \<Rightarrow> world \<Rightarrow> ((nat \<times> int) option \<times> int \<times> world) option" where
  "next_event 0 k offs w = None"
| "next_event (Suc n) k offs w = do {
     c_assert (- 1 \<le> offs \<and> offs < pmax (pool w));
     let (i, w) = (if offs < 0 then wait_batch k w else (offs, w));
     if i < 0 then Some (None, offs, w)
     else do {
       c_assert (nat i < length (pevents (pool w)));
       let (v, ty) = pevents (pool w) ! nat i;
       val \<leftarrow> get_ev v w;
       if mod_iter val = iters (pool w) then next_event n k (i - 1) w
       else Some (Some (v, ty), i - 1, w)
     }
   }"

definition mod_etype :: "kernel \<Rightarrow> nat \<Rightarrow> int \<Rightarrow> world \<Rightarrow> (int \<times> world) option" where
  "mod_etype k v ty w = do {
     val \<leftarrow> get_ev v w;
     c_assert (0 < fd val);
     let (r, w) = sys k (Epoll_mod (fd val) v (POLLRDHUP OR ty)) w;
     Some (ret r, w)
   }"

section \<open>The invariant of the table\<close>

definition live :: "poolhd \<Rightarrow> nat set" where
  "live p = set (take (nat (pcount p)) (links p))"

text \<open>What a pointer to a connection may point to: a live item, or one that was closed.\<close>

definition ptr_ok :: "poolhd \<Rightarrow> nat \<Rightarrow> bool" where
  "ptr_ok p q \<longleftrightarrow> q \<in> live p
     \<or> q < length (items p) \<and> fd (items p ! q) = - 1 \<and> mod_iter (items p ! q) \<le> iters p"

definition ev_ok :: "poolhd \<Rightarrow> eval \<Rightarrow> bool" where
  "ev_ok p e \<longleftrightarrow> 0 < fd e \<and> mod_iter e \<le> iters p \<and> (buff_data e = None \<or> buff_size e \<noteq> 0)
     \<and> (\<forall>q. pair e = Some q \<longrightarrow> ptr_ok p q)"

definition links_ok :: "poolhd \<Rightarrow> bool" where
  "links_ok p \<longleftrightarrow> 0 \<le> pcount p \<and> pcount p \<le> pmax p \<and> length (links p) = nat (pmax p)
     \<and> length (items p) = nat (pmax p) \<and> distinct (links p) \<and> set (links p) = {..<nat (pmax p)}
     \<and> (\<forall>i < nat (pcount p). index (items p ! (links p ! i)) = int i)"

definition pool_inv :: "poolhd \<Rightarrow> bool" where
  "pool_inv p \<longleftrightarrow> links_ok p \<and> (\<forall>v \<in> live p. ev_ok p (items p ! v))"

text \<open>The listening socket: live, and no connection is paired with it.\<close>

definition listener :: "poolhd \<Rightarrow> nat \<Rightarrow> bool" where
  "listener p l \<longleftrightarrow> l \<in> live p \<and> (\<forall>v \<in> live p. pair (items p ! v) \<noteq> Some l)"

lemma live_less: "links_ok p \<Longrightarrow> v \<in> live p \<Longrightarrow> v < length (items p)"
  by (auto simp: live_def links_ok_def dest: in_set_takeD)

lemma ptr_less: "links_ok p \<Longrightarrow> ptr_ok p v \<Longrightarrow> v < length (items p)"
  by (auto simp: ptr_ok_def dest: live_less)

lemma live_nth:
  assumes "links_ok p" and "v \<in> live p"
  obtains i where "i < nat (pcount p)" "links p ! i = v" "index (items p ! v) = int i"
    "nat (pcount p) \<le> length (links p)"
proof -
  from assms obtain i where i: "i < nat (pcount p)" "i < length (links p)" "links p ! i = v"
    by (auto simp: live_def in_set_conv_nth)
  with assms(1) that show ?thesis
    by (auto simp: links_ok_def)
qed

lemma card_live: "links_ok p \<Longrightarrow> card (live p) = nat (pcount p)"
  by (simp add: live_def links_ok_def distinct_card nat_mono)

text \<open>Swapping the last live entry into the place of a removed one.\<close>

lemma swap_remove:
  assumes "distinct xs" and "i < c" and "c < length xs"
  defines "ys \<equiv> xs[i := xs ! c, c := xs ! i]"
  shows "distinct ys" and "set ys = set xs" and "length ys = length xs"
    and "set (take c ys) = set (take (Suc c) xs) - {xs ! i}"
    and "\<And>j. j < c \<Longrightarrow> ys ! j = (if j = i then xs ! c else xs ! j)"
proof -
  show "distinct ys" "set ys = set xs" "length ys = length xs"
    using assms by (simp_all add: ys_def set_swap)
  show nth: "ys ! j = (if j = i then xs ! c else xs ! j)" if "j < c" for j
    using that assms by (auto simp: ys_def nth_list_update)
  have "set (take c ys) = (!) ys ` {..<c}"
    using assms nth_image[of c ys] by (simp add: ys_def atLeast0LessThan)
  also have "\<dots> = (\<lambda>j. if j = i then xs ! c else xs ! j) ` {..<c}"
    using nth by (intro image_cong) auto
  also have "\<dots> = insert (xs ! c) ((!) xs ` ({..<c} - {i}))"
    using assms by auto
  also have "\<dots> = (!) xs ` ({..<Suc c} - {i})"
    using assms by (auto simp: less_Suc_eq)
  also have "\<dots> = (!) xs ` {..<Suc c} - {xs ! i}"
    using assms by (auto simp: nth_eq_iff_index_eq)
  also have "(!) xs ` {..<Suc c} = set (take (Suc c) xs)"
    using assms nth_image[of "Suc c" xs] by (simp add: atLeast0LessThan)
  finally show "set (take c ys) = set (take (Suc c) xs) - {xs ! i}" .
qed

lemma unlink_ev_spec:
  assumes ok: "links_ok (pool w)" and v: "v \<in> live (pool w)"
  shows "\<exists>w'. unlink_ev v w = Some w' \<and> links_ok (pool w') \<and> live (pool w') = live (pool w) - {v}
     \<and> pcount (pool w') = pcount (pool w) - 1 \<and> iters (pool w') = iters (pool w)
     \<and> pmax (pool w') = pmax (pool w) \<and> length (items (pool w')) = length (items (pool w))
     \<and> (\<forall>u < length (items (pool w)). \<exists>i. items (pool w') ! u = (items (pool w) ! u)\<lparr>index := i\<rparr>)
     \<and> prm w' = prm w \<and> not_exit w' = not_exit w \<and> hist w' = hist w \<and> pevents (pool w') = pevents (pool w)"
proof -
  define p where "p = pool w"
  define c where "c = nat (pcount p) - 1"
  obtain i where i: "i < nat (pcount p)" "links p ! i = v" "index (items p ! v) = int i" "nat (pcount p) \<le> length (links p)"
    using live_nth[OF ok v] by (auto simp: p_def)
  have c: "i \<le> c" "c < length (links p)" "pcount p - 1 = int c" "nat (pcount p) = Suc c"
    using i by (auto simp: c_def)
  have vn: "v < length (items p)"
    using live_less[OF ok v] by (simp add: p_def)
  have ge: "get_ev v w = Some (items p ! v)"
    using vn by (simp add: get_ev_def p_def)
  have same: "\<exists>j. e = e\<lparr>index := j\<rparr>" for e :: eval
    by (rule exI[of _ "index e"]) simp
  note ok' = ok[folded p_def, unfolded links_ok_def]
  show ?thesis
  proof (cases "links p ! c = v")
    case True
    have "live (p\<lparr>pcount := int c\<rparr>) = live p - {v}"
      using ok' c True by (auto simp: live_def take_Suc_conv_app_nth dest: distinct_take[of _ "Suc c"])
    then show ?thesis
      using ok' c True ge same
      by (auto simp: unlink_ev_def p_def[symmetric] links_ok_def Let_def)
  next
    case False
    then have ic: "i < c"
      using i c by (cases "i = c") auto
    define ys where "ys = (links p)[i := links p ! c, c := v]"
    note sw = swap_remove[of "links p" i c, unfolded i(2), folded ys_def]
    have ys: "distinct ys" "set ys = set (links p)" "length ys = length (links p)"
      "set (take c ys) = live p - {v}" "\<And>j. j < c \<Longrightarrow> ys ! j = (if j = i then links p ! c else links p ! j)"
      using sw ok' ic c by (auto simp: live_def)
    define ev where "ev = links p ! c"
    have evn: "ev < length (items p)"
      using ok' c nth_mem[of c "links p"] by (auto simp: ev_def)
    define p' where "p' = p\<lparr>pcount := int c, links := ys, items := (items p)[ev := (items p ! ev)\<lparr>index := int i\<rparr>]\<rparr>"
    have eq: "unlink_ev v w = Some (w\<lparr>pool := p'\<rparr>)"
      using False c i ge evn by (simp add: unlink_ev_def p_def[symmetric] Let_def set_ev_def ev_def ys_def p'_def)
    have idx: "index (items p' ! (links p' ! j)) = int j" if "j < c" for j
    proof (cases "j = i")
      case True
      then show ?thesis using ys(5)[OF that] evn by (simp add: p'_def ev_def)
    next
      case j: False
      have "links p ! j \<noteq> ev"
        using that c ok' by (auto simp: ev_def nth_eq_iff_index_eq)
      then show ?thesis
        using ys(5)[OF that] j that ok' c by (simp add: p'_def)
    qed
    have "links_ok p'"
      using ok' ys c idx by (auto simp: links_ok_def p'_def)
    moreover have "live p' = live p - {v}"
      using ys(4) by (simp add: live_def p'_def)
    moreover have "\<exists>j. items p' ! u = (items p ! u)\<lparr>index := j\<rparr>" if "u < length (items p)" for u
      using that same by (cases "u = ev") (auto simp: p'_def)
    ultimately show ?thesis
      using eq c by (auto simp: p_def[symmetric] p'_def)
  qed
qed

section \<open>Closing a connection and everything paired with it\<close>

text \<open>What closing leaves of the other connections: only \<open>index\<close> and a dropped \<open>pair\<close> change.\<close>

definition ev_kept :: "eval \<Rightarrow> eval \<Rightarrow> bool" where
  "ev_kept e e' \<longleftrightarrow> e'\<lparr>index := 0, pair := None\<rparr> = e\<lparr>index := 0, pair := None\<rparr>
     \<and> (pair e' = None \<or> pair e' = pair e)"

lemma ev_kept_refl: "ev_kept e e"
  by (simp add: ev_kept_def)

lemma ev_kept_index: "ev_kept e (e\<lparr>index := i\<rparr>)"
  by (simp add: ev_kept_def)

lemma ev_kept_unpair: "ev_kept e (e\<lparr>pair := None\<rparr>)"
  by (simp add: ev_kept_def)

lemma ev_kept_trans: "ev_kept e e' \<Longrightarrow> ev_kept e' e'' \<Longrightarrow> ev_kept e e''"
  by (auto simp: ev_kept_def)

lemma ev_keptD:
  assumes "ev_kept e e'"
  shows "fd e' = fd e" "mod_iter e' = mod_iter e" "buff_data e' = buff_data e" "buff_size e' = buff_size e"
    "etype e' = etype e" "pair e' = None \<or> pair e' = pair e"
  using assms by (cases e; cases e'; auto simp: ev_kept_def)+

definition items_kept :: "nat set \<Rightarrow> poolhd \<Rightarrow> poolhd \<Rightarrow> bool" where
  "items_kept V p p' \<longleftrightarrow> length (items p') = length (items p) \<and> iters p' = iters p \<and> pmax p' = pmax p
     \<and> (\<forall>u < length (items p). u \<notin> V \<longrightarrow> ev_kept (items p ! u) (items p' ! u))"

lemma items_kept_trans:
  "items_kept V p p' \<Longrightarrow> items_kept W p' p'' \<Longrightarrow> V \<subseteq> W \<Longrightarrow> items_kept W p p''"
  by (auto simp: items_kept_def intro: ev_kept_trans)

text \<open>
  One round: \<open>v\<close> leaves the table, closed and unpaired, and the rest is kept.
\<close>

lemma close_step:
  assumes inv: "pool_inv p" and v: "v \<in> live p"
    and p': "links_ok p'" "live p' = live p - {v}" "items_kept {v} p p'"
      "fd (items p' ! v) = - 1" "mod_iter (items p' ! v) = iters p" "pair (items p' ! v) = None"
  shows "pool_inv p'" and "\<And>q. ptr_ok p q \<Longrightarrow> ptr_ok p' q" and "\<And>l. listener p l \<Longrightarrow> l \<noteq> v \<Longrightarrow> listener p' l"
proof -
  have len: "length (items p') = length (items p)" "iters p' = iters p"
    and kept: "\<And>u. u < length (items p) \<Longrightarrow> u \<noteq> v \<Longrightarrow> ev_kept (items p ! u) (items p' ! u)"
    using p'(3) by (auto simp: items_kept_def)
  have vn: "v < length (items p)"
    using inv v live_less by (auto simp: pool_inv_def)
  show ptr: "ptr_ok p' q" if "ptr_ok p q" for q
  proof (cases "q = v")
    case True
    then show ?thesis using p' len vn by (simp add: ptr_ok_def)
  next
    case False
    then show ?thesis
      using that p'(2) len ev_keptD[OF kept] by (auto simp: ptr_ok_def)
  qed
  have "ev_ok p' (items p' ! u)" if u: "u \<in> live p'" for u
  proof -
    have ul: "u \<in> live p" "u \<noteq> v" "u < length (items p)"
      using u p'(2) inv live_less by (auto simp: pool_inv_def)
    then have "ev_ok p (items p ! u)"
      using inv by (simp add: pool_inv_def)
    then show ?thesis
      using ev_keptD[OF kept[OF ul(3,2)]] ptr len by (auto simp: ev_ok_def)
  qed
  then show "pool_inv p'"
    using p'(1) by (simp add: pool_inv_def)
  show "listener p' l" if "listener p l" "l \<noteq> v" for l
  proof -
    have "pair (items p' ! u) \<noteq> Some l" if u: "u \<in> live p'" for u
    proof -
      have "pair (items p ! u) \<noteq> Some l" "u < length (items p)" "u \<noteq> v"
        using \<open>listener p l\<close> u p'(2) inv live_less by (auto simp: listener_def pool_inv_def)
      then show ?thesis
        using ev_keptD(6)[OF kept[of u]] by auto
    qed
    then show ?thesis
      using that p'(2) by (auto simp: listener_def)
  qed
qed

lemma set_ev_Some:
  "v < length (items (pool w)) \<Longrightarrow>
   set_ev v f w = Some (w\<lparr>pool := (pool w)\<lparr>items := (items (pool w))[v := f (items (pool w) ! v)]\<rparr>\<rparr>)"
  by (simp add: set_ev_def)

lemma links_ok_items:
  assumes "links_ok p" and "length xs = length (items p)" and "\<forall>u < length xs. index (xs ! u) = index (items p ! u)"
  shows "links_ok (p\<lparr>items := xs\<rparr>)"
proof -
  have "links p ! i < length xs" if "i < nat (pcount p)" for i
    using assms that nth_mem[of i "links p"] by (auto simp: links_ok_def)
  then show ?thesis
    using assms by (auto simp: links_ok_def)
qed

lemma unpair_spec:
  assumes "links_ok (pool w)" and "v < length (items (pool w))" and "q < length (items (pool w))"
  shows "\<exists>w'. unpair v q w = Some w' \<and> links_ok (pool w') \<and> live (pool w') = live (pool w)
     \<and> items_kept {} (pool w) (pool w') \<and> pair (items (pool w') ! v) = None \<and> prm w' = prm w
     \<and> not_exit w' = not_exit w \<and> hist w' = hist w \<and> pevents (pool w') = pevents (pool w)
     \<and> (\<forall>u < length (items (pool w)). pair (items (pool w') ! u) = pair (items (pool w) ! u)
          \<or> u = v \<or> pair (items (pool w) ! u) = Some v)"
proof -
  define xs where "xs = (if pair (items (pool w) ! q) = Some v
      then (items (pool w))[q := (items (pool w) ! q)\<lparr>pair := None\<rparr>] else items (pool w))"
  define ys where "ys = xs[v := (xs ! v)\<lparr>pair := None\<rparr>]"
  have len: "length xs = length (items (pool w))" "length ys = length (items (pool w))"
    by (simp_all add: xs_def ys_def)
  have kx: "ev_kept (items (pool w) ! u) (xs ! u)" if "u < length (items (pool w))" for u
    using that by (cases "u = q") (auto simp: xs_def intro: ev_kept_refl ev_kept_unpair)
  have "ev_kept (xs ! u) (ys ! u)" if "u < length (items (pool w))" for u
    using that len by (cases "u = v") (auto simp: ys_def intro: ev_kept_refl ev_kept_unpair)
  then have ky: "ev_kept (items (pool w) ! u) (ys ! u)" if "u < length (items (pool w))" for u
    using kx that ev_kept_trans by blast
  have idx: "index (ys ! u) = index (items (pool w) ! u)" if "u < length ys" for u
    using that by (cases "u = v"; cases "u = q") (auto simp: ys_def xs_def nth_list_update)
  have "unpair v q w = Some (w\<lparr>pool := (pool w)\<lparr>items := ys\<rparr>\<rparr>)"
    using assms by (simp add: unpair_def get_ev_def set_ev_def xs_def ys_def)
  moreover have "links_ok ((pool w)\<lparr>items := ys\<rparr>)"
    using assms(1) len idx by (intro links_ok_items) auto
  moreover have "pair (ys ! v) = None"
    using assms(2) len by (simp add: ys_def)
  moreover have "pair (ys ! u) = pair (items (pool w) ! u) \<or> u = v \<or> pair (items (pool w) ! u) = Some v"
    if "u < length (items (pool w))" for u
    using that by (cases "u = v"; cases "u = q") (auto simp: ys_def xs_def nth_list_update)
  ultimately show ?thesis
    using ky len by (auto simp: items_kept_def live_def)
qed

text \<open>The close of \<open>v\<close> itself, up to the recursion on its pair.\<close>

lemma close_one:
  assumes inv: "pool_inv (pool w)" and v: "v \<in> live (pool w)" and pw: "pool w1 = pool w"
  shows "\<exists>w2 w3. set_ev v (\<lambda>x. x\<lparr>buff_data := None, fd := - 1, mod_iter := iters (pool w)\<rparr>) w1 = Some w2
     \<and> unlink_ev v w2 = Some w3 \<and> links_ok (pool w3) \<and> live (pool w3) = live (pool w) - {v}
     \<and> items_kept {v} (pool w) (pool w3) \<and> fd (items (pool w3) ! v) = - 1
     \<and> mod_iter (items (pool w3) ! v) = iters (pool w) \<and> pair (items (pool w3) ! v) = pair (items (pool w) ! v)
     \<and> prm w3 = prm w1 \<and> not_exit w3 = not_exit w1 \<and> hist w3 = hist w1 \<and> pevents (pool w3) = pevents (pool w)
     \<and> (\<forall>u < length (items (pool w)). pair (items (pool w3) ! u) = pair (items (pool w) ! u))"
proof -
  have lk: "links_ok (pool w)" and vn: "v < length (items (pool w))"
    using inv v live_less by (auto simp: pool_inv_def)
  define f where "f = (\<lambda>x. x\<lparr>buff_data := None, fd := - 1, mod_iter := iters (pool w)\<rparr> :: eval)"
  define xs where "xs = (items (pool w))[v := f (items (pool w) ! v)]"
  define w2 where "w2 = w1\<lparr>pool := (pool w)\<lparr>items := xs\<rparr>\<rparr>"
  have s2: "set_ev v f w1 = Some w2"
    using vn by (simp add: set_ev_def w2_def xs_def pw)
  have idx: "\<forall>u < length xs. index (xs ! u) = index (items (pool w) ! u)"
  proof (intro allI impI)
    show "index (xs ! u) = index (items (pool w) ! u)" if "u < length xs" for u
      using that by (cases "u = v") (simp_all add: xs_def f_def)
  qed
  have ok2: "links_ok (pool w2)" "live (pool w2) = live (pool w)"
    using lk links_ok_items[OF lk _ idx] by (simp_all add: w2_def live_def xs_def)
  obtain w3 where w3: "unlink_ev v w2 = Some w3" "links_ok (pool w3)" "live (pool w3) = live (pool w2) - {v}"
    "iters (pool w3) = iters (pool w2)" "pmax (pool w3) = pmax (pool w2)"
    "length (items (pool w3)) = length (items (pool w2))"
    "\<forall>u < length (items (pool w2)). \<exists>i. items (pool w3) ! u = (items (pool w2) ! u)\<lparr>index := i\<rparr>"
    "prm w3 = prm w2" "not_exit w3 = not_exit w2" "hist w3 = hist w2" "pevents (pool w3) = pevents (pool w2)"
    using unlink_ev_spec[OF ok2(1), of v] ok2(2) v by auto
  have i2: "items (pool w2) ! u = (if u = v then f (items (pool w) ! v) else items (pool w) ! u)"
    if "u < length (items (pool w))" for u
    using that by (auto simp: w2_def xs_def)
  have len: "length (items (pool w2)) = length (items (pool w))" "iters (pool w2) = iters (pool w)"
    "pmax (pool w2) = pmax (pool w)"
    by (simp_all add: w2_def xs_def)
  have "ev_kept (items (pool w) ! u) (items (pool w3) ! u)" if "u < length (items (pool w))" "u \<noteq> v" for u
    using w3(7) i2[OF that(1)] that len(1) ev_kept_index by (metis (full_types))
  then have "items_kept {v} (pool w) (pool w3)"
    using w3(4-6) len by (simp add: items_kept_def)
  moreover obtain i where "items (pool w3) ! v = (f (items (pool w) ! v))\<lparr>index := i\<rparr>"
    using w3(7) i2[OF vn] vn len(1) by metis
  moreover have "prm w3 = prm w1" "not_exit w3 = not_exit w1" "hist w3 = hist w1" "pevents (pool w3) = pevents (pool w)"
    using w3(8-11) by (simp_all add: w2_def)
  moreover have "pair (items (pool w3) ! u) = pair (items (pool w) ! u)" if "u < length (items (pool w))" for u
    using w3(7) i2[OF that] that len(1) by (auto simp: f_def split: if_split_asm)
  ultimately show ?thesis
    using s2[unfolded f_def] w3(1-3) ok2(2) pw by (intro exI[of _ w2] exI[of _ w3]) (simp add: f_def)
qed

text \<open>
  The connections a close reaches: \<open>v\<close> itself and, through the \<open>pair\<close> pointers of live
  connections, the live ones behind it. The calls made for them, in some order, are one removal
  from epoll and one \<open>close\<close> each.
\<close>

inductive chained :: "poolhd \<Rightarrow> nat \<Rightarrow> nat \<Rightarrow> bool" for p v where
  chained_start: "v \<in> live p \<Longrightarrow> chained p v v"
| chained_next: "chained p v u \<Longrightarrow> pair (items p ! u) = Some q \<Longrightarrow> q \<in> live p \<Longrightarrow> chained p v q"

definition close_calls :: "poolhd \<Rightarrow> nat list \<Rightarrow> call list" where
  "close_calls p us = concat (map (\<lambda>u. [Epoll_del (fd (items p ! u)), Close (fd (items p ! u))]) us)"

lemma chained_live: "chained p v u \<Longrightarrow> u \<in> live p"
  by (induction rule: chained.induct) auto

lemma chained_dead: "v \<notin> live p \<Longrightarrow> \<not> chained p v u"
proof
  show False if "chained p v u" "v \<notin> live p"
    using that by (induction rule: chained.induct) auto
qed

lemma close_calls_simps [simp]:
  "close_calls p [] = []"
  "close_calls p (u # us) = Epoll_del (fd (items p ! u)) # Close (fd (items p ! u)) # close_calls p us"
  by (simp_all add: close_calls_def)

lemma set_close_calls:
  "set (close_calls p us) = (\<Union>u \<in> set us. {Epoll_del (fd (items p ! u)), Close (fd (items p ! u))})"
  by (simp add: close_calls_def)

lemma close_calls_cong:
  "(\<And>u. u \<in> set us \<Longrightarrow> fd (items p ! u) = fd (items p' ! u)) \<Longrightarrow> close_calls p us = close_calls p' us"
  by (induction us) auto

lemma close_calls_calm: "c \<in> set (close_calls p us) \<Longrightarrow> calm c"
  by (auto simp: set_close_calls calm_def)

text \<open>
  What closing \<open>v\<close> cuts out of the table: exactly the chain behind it. The items are marked
  with the iteration and their descriptors are taken from epoll and closed, each once.
\<close>

definition cut :: "nat \<Rightarrow> world \<Rightarrow> world \<Rightarrow> bool" where
  "cut v w w' \<longleftrightarrow> (let C = live (pool w) - live (pool w'); pr = (\<lambda>u. pair (items (pool w) ! u)) in
     C = {u. chained (pool w) v u} \<and> live (pool w') \<subseteq> live (pool w)
     \<and> (\<forall>u \<in> C. mod_iter (items (pool w') ! u) = iters (pool w))
     \<and> (\<forall>u < length (items (pool w)). pair (items (pool w') ! u) = pr u \<or> u \<in> C \<or> (\<exists>q \<in> C. pr u = Some q))
     \<and> pevents (pool w') = pevents (pool w)
     \<and> (\<exists>us es. hist w' = hist w @ es \<and> map fst es = close_calls (pool w) us \<and> distinct us \<and> set us = C))"

lemma cut_refl: "v \<notin> live (pool w) \<Longrightarrow> cut v w w"
  by (auto simp: cut_def Let_def chained_dead intro!: exI[of _ "[]"])

lemma chained_step:
  assumes v: "v \<in> live p" and p': "live p' = live p - {v}" and q: "pair (items p ! v) = Some q"
    and pairs: "\<And>u. u \<in> live p' \<Longrightarrow> pair (items p' ! u) = pair (items p ! u)
          \<or> pair (items p' ! u) = None \<and> pair (items p ! u) = Some v"
  shows "chained p v u \<longleftrightarrow> u = v \<or> chained p' q u"
proof
  show "u = v \<or> chained p' q u" if "chained p v u"
    using that
  proof (induction rule: chained.induct)
    case (chained_next u x)
    show ?case
    proof (cases "x = v")
      case False
      then have x: "x \<in> live p'"
        using chained_next.hyps(3) p' by simp
      have "chained p' q x"
      proof (cases "u = v")
        case True
        then show ?thesis
          using chained_next.hyps(2) q x chained.chained_start[of q p'] by simp
      next
        case u: False
        then have c: "chained p' q u"
          using chained_next.IH by simp
        then have "pair (items p' ! u) = Some x"
          using pairs[OF chained_live[OF c]] chained_next.hyps(2) False by auto
        then show ?thesis
          using chained.chained_next[OF c _ x] by blast
      qed
      then show ?thesis ..
    qed simp
  qed simp
  have "chained p v u" if "chained p' q u"
    using that
  proof (induction rule: chained.induct)
    case chained_start
    then show ?case
      using p' q chained.chained_next[OF chained.chained_start[OF v]] by simp
  next
    case (chained_next u x)
    then have "pair (items p ! u) = Some x"
      using pairs[OF chained_live[OF chained_next.hyps(1)]] by auto
    moreover have "x \<in> live p"
      using chained_next.hyps(3) p' by simp
    ultimately show ?case
      using chained.chained_next[OF chained_next.IH] by blast
  qed
  then show "chained p v u" if "u = v \<or> chained p' q u"
    using that chained.chained_start[OF v] by blast
qed

lemma chained_single:
  assumes "v \<in> live p" and "pair (items p ! v) = None"
  shows "chained p v u \<longleftrightarrow> u = v"
proof
  show "u = v" if "chained p v u"
    using that assms(2) by (induction rule: chained.induct) auto
qed (use assms(1) in \<open>auto intro: chained_start\<close>)

lemma cut_step:
  assumes v: "v \<in> live (pool w)" "links_ok (pool w)" and w4: "live (pool w4) = live (pool w) - {v}"
    "items_kept {v} (pool w) (pool w4)" "mod_iter (items (pool w') ! v) = iters (pool w)"
    "pevents (pool w4) = pevents (pool w)" "pair (items (pool w4) ! v) = None"
    "hist w4 = hist w @ [(Epoll_del (fd (items (pool w) ! v)), r1), (Close (fd (items (pool w) ! v)), r2)]"
    and pairs: "\<And>u. u < length (items (pool w)) \<Longrightarrow> pair (items (pool w4) ! u) = pair (items (pool w) ! u)
          \<or> u = v \<or> pair (items (pool w) ! u) = Some v"
    and rest: "pair (items (pool w) ! v) = None \<and> w' = w4
       \<or> (\<exists>q. pair (items (pool w) ! v) = Some q \<and> cut q w4 w')"
  shows "cut v w w'"
proof -
  define C where "C = live (pool w) - live (pool w')"
  define D where "D = live (pool w4) - live (pool w')"
  have lenv: "\<And>u. u \<in> live (pool w) \<Longrightarrow> u < length (items (pool w))"
    and len: "length (items (pool w4)) = length (items (pool w))" "iters (pool w4) = iters (pool w)"
    and kept: "\<And>u. u < length (items (pool w)) \<Longrightarrow> u \<noteq> v \<Longrightarrow> ev_kept (items (pool w) ! u) (items (pool w4) ! u)"
    using live_less[OF v(2)] w4(2) by (auto simp: items_kept_def)
  have pairs4: "pair (items (pool w4) ! u) = pair (items (pool w) ! u)
      \<or> pair (items (pool w4) ! u) = None \<and> pair (items (pool w) ! u) = Some v" if "u \<in> live (pool w4)" for u
    using that w4(1) lenv[of u] pairs[of u] ev_keptD(6)[OF kept[of u]] by auto
  have orig: "pair (items (pool w) ! u) = Some x"
    if "u < length (items (pool w))" "pair (items (pool w4) ! u) = Some x" for u x
    using that w4(5) ev_keptD(6)[OF kept[OF that(1)]] by (cases "u = v") auto
  have D: "D = {u. u \<noteq> v \<and> chained (pool w) v u}" "live (pool w') \<subseteq> live (pool w4)"
    "\<forall>u \<in> D. mod_iter (items (pool w') ! u) = iters (pool w)" "pevents (pool w') = pevents (pool w)"
    "\<forall>u < length (items (pool w)). pair (items (pool w') ! u) = pair (items (pool w4) ! u) \<or> u \<in> D
        \<or> (\<exists>x \<in> D. pair (items (pool w4) ! u) = Some x)"
    "\<exists>us es. hist w' = hist w4 @ es \<and> map fst es = close_calls (pool w4) us \<and> distinct us \<and> set us = D"
  proof -
    have "D = {u. u \<noteq> v \<and> chained (pool w) v u} \<and> live (pool w') \<subseteq> live (pool w4)
      \<and> (\<forall>u \<in> D. mod_iter (items (pool w') ! u) = iters (pool w)) \<and> pevents (pool w') = pevents (pool w)
      \<and> (\<forall>u < length (items (pool w)). pair (items (pool w') ! u) = pair (items (pool w4) ! u) \<or> u \<in> D
        \<or> (\<exists>x \<in> D. pair (items (pool w4) ! u) = Some x))
      \<and> (\<exists>us es. hist w' = hist w4 @ es \<and> map fst es = close_calls (pool w4) us \<and> distinct us \<and> set us = D)"
    proof (cases "pair (items (pool w) ! v)")
      case None
      then have "w' = w4" using rest by auto
      then show ?thesis
        using chained_single[OF v(1) None] w4(4) by (auto simp: D_def intro!: exI[of _ "[]"])
    next
      case (Some q)
      then have q: "cut q w4 w'" using rest by auto
      have "chained (pool w) v u \<longleftrightarrow> u = v \<or> chained (pool w4) q u" for u
        using v(1) w4(1) Some pairs4 by (rule chained_step)
      then have "{u. chained (pool w4) q u} = {u. u \<noteq> v \<and> chained (pool w) v u}"
        using chained_live w4(1) by fastforce
      note q1 = q[unfolded cut_def Let_def, folded D_def, unfolded this len w4(4)]
      show ?thesis
        using q1 by (elim conjE, intro conjI)
    qed
    then show "D = {u. u \<noteq> v \<and> chained (pool w) v u}" "live (pool w') \<subseteq> live (pool w4)"
      "\<forall>u \<in> D. mod_iter (items (pool w') ! u) = iters (pool w)" "pevents (pool w') = pevents (pool w)"
      "\<forall>u < length (items (pool w)). pair (items (pool w') ! u) = pair (items (pool w4) ! u) \<or> u \<in> D
        \<or> (\<exists>x \<in> D. pair (items (pool w4) ! u) = Some x)"
      "\<exists>us es. hist w' = hist w4 @ es \<and> map fst es = close_calls (pool w4) us \<and> distinct us \<and> set us = D"
      by blast+
  qed
  have CD: "C = insert v D" "v \<notin> D"
    using D(2) v(1) w4(1) by (auto simp: C_def D_def)
  have chain: "C = {u. chained (pool w) v u}"
    using CD(1) D(1) chained_start[OF v(1)] by auto
  have P: "pair (items (pool w') ! u) = pair (items (pool w) ! u) \<or> u \<in> C \<or> (\<exists>x \<in> C. pair (items (pool w) ! u) = Some x)"
    if "u < length (items (pool w))" for u
    using D(5)[rule_format, OF that] pairs[OF that] orig[OF that] CD(1) by auto
  obtain us es where es: "hist w' = hist w4 @ es" "map fst es = close_calls (pool w4) us" "distinct us" "set us = D"
    using D(6) by blast
  have "close_calls (pool w4) us = close_calls (pool w) us"
    using kept w4(1) lenv ev_keptD(1) es(4) by (intro close_calls_cong) (auto simp: D_def)
  then have "\<exists>us es. hist w' = hist w @ es \<and> map fst es = close_calls (pool w) us \<and> distinct us \<and> set us = C"
    using es w4(6) CD
    by (intro exI[of _ "v # us"] exI[of _ "[(Epoll_del (fd (items (pool w) ! v)), r1), (Close (fd (items (pool w) ! v)), r2)] @ es"])
       simp
  moreover have "mod_iter (items (pool w') ! u) = iters (pool w)" if "u \<in> C" for u
    using that D(3) w4(3) CD(1) by auto
  ultimately show ?thesis
    unfolding cut_def Let_def using chain P D(2,4) w4(1) unfolding C_def by blast
qed

theorem del_event_n_ok:
  assumes "pool_inv (pool w)" and "ptr_ok (pool w) v" and "listener (pool w) l" and "l \<noteq> v"
    and "nat (pcount (pool w)) < n"
  shows "\<exists>w'. del_event_n n k v w = Some w' \<and> pool_inv (pool w') \<and> listener (pool w') l
     \<and> live (pool w') \<subseteq> live (pool w) - {v} \<and> fd (items (pool w') ! v) = - 1
     \<and> items_kept (live (pool w) - live (pool w')) (pool w) (pool w')
     \<and> (\<forall>u \<in> live (pool w) - live (pool w'). fd (items (pool w') ! u) = - 1)
     \<and> prm w' = prm w \<and> not_exit w' = not_exit w \<and> cut v w w'"
  using assms
proof (induction n arbitrary: v w)
  case (Suc n)
  let ?p = "pool w"
  have lk: "links_ok ?p" and vn: "v < length (items ?p)"
    using Suc.prems ptr_less by (auto simp: pool_inv_def)
  define val where "val = items ?p ! v"
  have ge: "get_ev v w = Some val"
    using vn by (simp add: get_ev_def val_def)
  show ?case
  proof (cases "v \<in> live ?p")
    case False
    then have dead: "fd val = - 1" "mod_iter val \<le> iters ?p"
      using Suc.prems(2) by (auto simp: ptr_ok_def val_def)
    then show ?thesis
      using Suc.prems ge False by (auto simp: val_def items_kept_def intro: ev_kept_refl cut_refl)
  next
    case True
    then have ok: "ev_ok ?p val"
      using Suc.prems(1) by (simp add: pool_inv_def val_def)
    define w0 where "w0 = snd (sys k (Epoll_del (fd val)) w)"
    define w1 where "w1 = snd (sys k (Close (fd val)) w0)"
    have pw1: "pool w1 = ?p" "prm w1 = prm w" "not_exit w1 = not_exit w" "pool w0 = ?p"
      by (simp_all add: w1_def w0_def)
    obtain w2 w3 where w2: "set_ev v (\<lambda>x. x\<lparr>buff_data := None, fd := - 1, mod_iter := iters ?p\<rparr>) w1 = Some w2"
      and w3: "unlink_ev v w2 = Some w3" "links_ok (pool w3)" "live (pool w3) = live ?p - {v}"
        "items_kept {v} ?p (pool w3)" "fd (items (pool w3) ! v) = - 1"
        "mod_iter (items (pool w3) ! v) = iters ?p" "pair (items (pool w3) ! v) = pair val"
        "prm w3 = prm w" "not_exit w3 = not_exit w" "hist w3 = hist w1" "pevents (pool w3) = pevents ?p"
        "\<forall>u < length (items ?p). pair (items (pool w3) ! u) = pair (items ?p ! u)"
      using close_one[OF Suc.prems(1) True pw1(1)] pw1 by (auto simp: val_def)
    define r1 where "r1 = fst (sys k (Epoll_del (fd val)) w)"
    define r2 where "r2 = fst (sys k (Close (fd val)) w0)"
    have h3: "hist w3 = hist w @ [(Epoll_del (fd val), r1), (Close (fd val), r2)]"
      using w3(10) by (simp add: w1_def w0_def r1_def r2_def)
    have eq: "del_event_n (Suc n) k v w =
        ((case pair val of None \<Rightarrow> Some w3 | Some q \<Rightarrow> do { w \<leftarrow> unpair v q w3; del_event_n n k q w })
          \<bind> (\<lambda>w. c_assert (0 < pcount (pool w)) \<bind> (\<lambda>_. Some w)))"
      using ge ok w2 w3(1) pw1(4) by (simp add: ev_ok_def Let_def split_beta w0_def[symmetric] w1_def[symmetric])
    have cnt: "0 < pcount (pool w')" if "listener (pool w') l" for w'
      using that by (cases "pcount (pool w') \<le> 0") (auto simp: listener_def live_def)
    show ?thesis
    proof (cases "pair val")
      case None
      have inv3: "pool_inv (pool w3)" "listener (pool w3) l"
        using close_step(1,3)[OF Suc.prems(1) True w3(2-6)] w3(7) None Suc.prems(3,4) by auto
      have "live ?p - live (pool w3) = {v}"
        using w3(3) True by auto
      moreover have "cut v w w3"
        using None w3 h3 by (intro cut_step[OF True lk w3(3,4), of w3 r1 r2]) (auto simp: val_def)
      ultimately show ?thesis
        using eq None inv3 w3 cnt[OF inv3(2)] by auto
    next
      case (Some q)
      have qn: "q < length (items ?p)" and qp: "ptr_ok ?p q" and ql: "q \<noteq> l"
        using ok Some ptr_less[OF lk] Suc.prems(3) True by (auto simp: ev_ok_def listener_def val_def)
      have len3: "length (items (pool w3)) = length (items ?p)"
        using w3(4) by (simp add: items_kept_def)
      obtain w4 where w4: "unpair v q w3 = Some w4" "links_ok (pool w4)" "live (pool w4) = live (pool w3)"
        "items_kept {} (pool w3) (pool w4)" "pair (items (pool w4) ! v) = None" "prm w4 = prm w"
        "not_exit w4 = not_exit w" "hist w4 = hist w3" "pevents (pool w4) = pevents ?p"
        "\<forall>u < length (items ?p). pair (items (pool w4) ! u) = pair (items (pool w3) ! u)
           \<or> u = v \<or> pair (items (pool w3) ! u) = Some v"
        using unpair_spec[OF w3(2), of v q] vn qn len3 w3(8,9,11) by auto
      have k4: "items_kept {v} ?p (pool w4)"
        using items_kept_trans[of "{v}" ?p "pool w3" "{v}" "pool w4"] w3(4) w4(4) by (auto simp: items_kept_def)
      have v4: "fd (items (pool w4) ! v) = - 1" "mod_iter (items (pool w4) ! v) = iters ?p"
        using w4(4) w3(5,6) vn len3 ev_keptD[of "items (pool w3) ! v" "items (pool w4) ! v"]
        by (auto simp: items_kept_def)
      have lv4: "live (pool w4) = live ?p - {v}"
        using w4(3) w3(3) by simp
      note st = close_step[OF Suc.prems(1) True w4(2) lv4 k4 v4 w4(5)]
      have less: "nat (pcount (pool w4)) < n"
      proof -
        have "0 < card (live ?p)"
          using True by (auto simp: card_gt_0_iff live_def)
        then show ?thesis
          using card_live[OF lk] card_live[OF w4(2)] lv4 True Suc.prems(5) by simp
      qed
      obtain w' where w': "del_event_n n k q w4 = Some w'" "pool_inv (pool w')" "listener (pool w') l"
        "live (pool w') \<subseteq> live (pool w4) - {q}" "fd (items (pool w') ! q) = - 1"
        "items_kept (live (pool w4) - live (pool w')) (pool w4) (pool w')"
        "\<forall>u \<in> live (pool w4) - live (pool w'). fd (items (pool w') ! u) = - 1"
        "prm w' = prm w4" "not_exit w' = not_exit w4" "cut q w4 w'"
        using Suc.IH[OF st(1) st(2)[OF qp] st(3)[OF Suc.prems(3,4)] ql[symmetric] less] by blast
      have sets: "live ?p - live (pool w') = insert v (live (pool w4) - live (pool w'))"
        using lv4 w'(4) True by auto
      have kv: "ev_kept (items (pool w4) ! v) (items (pool w') ! v)"
        using w'(6) lv4 vn k4 by (auto simp: items_kept_def)
      have "items_kept (live ?p - live (pool w')) ?p (pool w')"
        using items_kept_trans[OF k4, of "live ?p - live (pool w')" "pool w'"] w'(6) sets
        by (auto simp: items_kept_def)
      moreover have "\<forall>u \<in> live ?p - live (pool w'). fd (items (pool w') ! u) = - 1"
        using w'(7) sets ev_keptD(1)[OF kv] v4(1) by auto
      moreover have "fd (items (pool w') ! v) = - 1"
        using ev_keptD(1)[OF kv] v4(1) by simp
      moreover have "cut v w w'"
        using Some w3 w4 w' h3 ev_keptD(2)[OF kv] v4(2)
        by (intro cut_step[OF True lk lv4 k4, of w' r1 r2]) (auto simp: val_def)
      ultimately show ?thesis
        using eq Some w4(1,6,7) w' cnt[OF w'(3)] lv4 by auto
    qed
  qed
qed simp

lemma del_event_ok:
  assumes "pool_inv (pool w)" and "ptr_ok (pool w) v" and "listener (pool w) l" and "l \<noteq> v"
  shows "\<exists>w'. del_event k v w = Some w' \<and> pool_inv (pool w') \<and> listener (pool w') l
     \<and> live (pool w') \<subseteq> live (pool w) - {v} \<and> fd (items (pool w') ! v) = - 1
     \<and> items_kept (live (pool w) - live (pool w')) (pool w) (pool w')
     \<and> (\<forall>u \<in> live (pool w) - live (pool w'). fd (items (pool w') ! u) = - 1)
     \<and> prm w' = prm w \<and> not_exit w' = not_exit w \<and> cut v w w'"
  unfolding del_event_def
  using assms by (intro del_event_n_ok) (auto simp: pool_inv_def links_ok_def)

section \<open>Adding a connection\<close>

definition new_eval :: "poolhd \<Rightarrow> eid \<Rightarrow> int \<Rightarrow> eval" where
  "new_eval p ty f = empty_eval\<lparr>mod_iter := iters p, fd := f, index := pcount p, etype := ty\<rparr>"

text \<open>
  \<open>add_event\<close> takes the first free slot. It returns null, with the live connections as
  they were, when the table is full or the kernel refuses the descriptor.
\<close>

lemma add_event_ok:
  assumes inv: "pool_inv (pool w)" and f: "0 < f"
    and free: "\<forall>u \<in> live (pool w). pair (items (pool w) ! u) \<noteq> Some (links (pool w) ! nat (pcount (pool w)))"
  shows "\<exists>r w'. add_event k ty f e w = Some (r, w') \<and> pool_inv (pool w') \<and> prm w' = prm w
     \<and> (\<forall>u \<in> live (pool w). items (pool w') ! u = items (pool w) ! u)
     \<and> (case r of
          None \<Rightarrow> live (pool w') = live (pool w)
        | Some v \<Rightarrow> v \<notin> live (pool w) \<and> live (pool w') = insert v (live (pool w))
            \<and> items (pool w') ! v = new_eval (pool w) ty f)"
proof (cases "pmax (pool w) \<le> pcount (pool w)")
  case True
  then show ?thesis using assms by (auto simp: add_event_def Let_def)
next
  case False
  define p where "p = pool w"
  define c where "c = nat (pcount p)"
  define v where "v = links p ! c"
  have ok: "links_ok p" and evs: "\<forall>u \<in> live p. ev_ok p (items p ! u)"
    using inv by (simp_all add: pool_inv_def p_def)
  note ok' = ok[unfolded links_ok_def]
  have c: "c < length (links p)" "pcount p = int c"
    using ok' False by (auto simp: c_def p_def)
  have vn: "v < length (items p)"
    using ok' c nth_mem[of c "links p"] by (auto simp: v_def)
  have fresh: "v \<notin> live p"
    using ok' c by (auto simp: v_def live_def in_set_conv_nth nth_eq_iff_index_eq)
  define xs where "xs = (items p)[v := new_eval p ty f]"
  define w1 where "w1 = w\<lparr>pool := p\<lparr>items := xs\<rparr>\<rparr>"
  define r where "r = fst (sys k (Epoll_add f v (POLLRDHUP OR e)) w1)"
  define w2 where "w2 = snd (sys k (Epoll_add f v (POLLRDHUP OR e)) w1)"
  have w2: "pool w2 = p\<lparr>items := xs\<rparr>" "prm w2 = prm w"
    by (simp_all add: w2_def w1_def)
  have w1': "w\<lparr>pool := p\<lparr>items := (items p)[v := empty_eval
      \<lparr>mod_iter := iters p, fd := f, index := int c, etype := ty\<rparr>]\<rparr>\<rparr> = w1"
    by (simp add: w1_def xs_def new_eval_def c)
  have eq: "add_event k ty f e w = (if ret r \<noteq> 0 then Some (None, w2)
      else Some (Some v, w2\<lparr>pool := (pool w2)\<lparr>pcount := pcount p + 1\<rparr>\<rparr>))"
    using False f c vn
    by (simp add: add_event_def p_def[symmetric] c_def[symmetric] v_def[symmetric] Let_def set_ev_def
        w1' split_beta r_def w2_def)
  have same: "xs ! u = items p ! u" if "u \<noteq> v" for u
    using that by (simp add: xs_def)
  have live1: "live (p\<lparr>items := xs\<rparr>) = live p"
    by (simp add: live_def)
  have live2: "live (p\<lparr>items := xs, pcount := pcount p + 1\<rparr>) = insert v (live p)"
    using c by (simp add: live_def v_def take_Suc_conv_app_nth nat_add_distrib)
  have lk: "links_ok (p\<lparr>items := xs\<rparr>)"
  proof -
    have "index (xs ! (links p ! i)) = int i" if "i < c" for i
    proof -
      have "links p ! i \<noteq> v"
        using that c ok' by (auto simp: v_def nth_eq_iff_index_eq)
      then show ?thesis
        using same ok' that by (simp add: c_def)
    qed
    then show ?thesis
      using ok' by (auto simp: links_ok_def xs_def c_def)
  qed
  have lk2: "links_ok (p\<lparr>items := xs, pcount := pcount p + 1\<rparr>)"
  proof -
    have "index (xs ! v) = int c"
      using vn c by (simp add: xs_def new_eval_def)
    then show ?thesis
      using lk c ok' by (auto simp: links_ok_def less_Suc_eq v_def nat_add_distrib)
  qed
  have ptr: "ptr_ok (p\<lparr>items := xs\<rparr>) q" if "u \<in> live p" "pair (items p ! u) = Some q" for u q
  proof -
    have "q \<noteq> v" "ptr_ok p q"
      using free evs that by (auto simp: p_def c_def v_def ev_ok_def)
    then show ?thesis
      using same live1 by (auto simp: ptr_ok_def xs_def)
  qed
  have ok1: "ev_ok (p\<lparr>items := xs\<rparr>) (xs ! u)" if "u \<in> live p" for u
  proof -
    have "u \<noteq> v" using fresh that by auto
    then show ?thesis
      using evs that ptr[OF that] same by (auto simp: ev_ok_def)
  qed
  have ok2: "ev_ok (p\<lparr>items := xs, pcount := pcount p + 1\<rparr>) (xs ! u)" if "u \<in> insert v (live p)" for u
  proof (cases "u = v")
    case True
    then show ?thesis
      using vn f by (simp add: xs_def new_eval_def empty_eval_def ev_ok_def)
  next
    case False
    then have "ev_ok (p\<lparr>items := xs\<rparr>) (xs ! u)"
      using ok1 that by simp
    then show ?thesis
      using live1 live2 by (auto simp: ev_ok_def ptr_ok_def)
  qed
  have keep: "\<forall>u \<in> live p. xs ! u = items p ! u"
    using same fresh by metis
  have new: "xs ! v = new_eval p ty f"
    using vn by (simp add: xs_def)
  show ?thesis
  proof (cases "ret r = 0")
    case True
    define p2 where "p2 = p\<lparr>items := xs, pcount := pcount p + 1\<rparr>"
    have "pool_inv p2" "live p2 = insert v (live p)" "items p2 = xs"
      using lk2 ok2 live2 by (simp_all add: p2_def pool_inv_def)
    moreover have "add_event k ty f e w = Some (Some v, w2\<lparr>pool := p2\<rparr>)"
      using True eq w2(1) by (simp add: p2_def)
    ultimately show ?thesis
      using w2(2) fresh keep new by (simp add: p_def[symmetric])
  next
    case nz: False
    define p1 where "p1 = p\<lparr>items := xs\<rparr>"
    have "pool_inv p1" "live p1 = live p" "items p1 = xs"
      using lk ok1 live1 by (simp_all add: p1_def pool_inv_def)
    then show ?thesis
      using nz eq w2 keep by (simp add: p_def[symmetric] p1_def[symmetric])
  qed
qed

section \<open>The event queue\<close>

text \<open>
  What the kernel promises about a batch: as many events as it returned, each for an item of
  the table.
\<close>

definition wait_ok :: "kernel \<Rightarrow> world \<Rightarrow> bool" where
  "wait_ok k w \<longleftrightarrow> (let r = fst (sys k (Epoll_wait (pmax (pool w))) w) in
     ret r \<le> pmax (pool w) \<and> ret r \<le> int (length (evs r))
     \<and> (\<forall>(v, ty) \<in> set (evs r). v < length (items (pool w))))"

definition batch_ok :: "poolhd \<Rightarrow> int \<Rightarrow> bool" where
  "batch_ok p offs \<longleftrightarrow> - 1 \<le> offs \<and> offs < pmax p \<and> offs < int (length (pevents p))
     \<and> (\<forall>(v, ty) \<in> set (pevents p). v < length (items p))"

lemma word_less_Suc:
  fixes x :: u32
  assumes "x \<noteq> - 1"
  shows "x < x + 1"
proof -
  have "1 + x \<noteq> 0"
  proof
    assume "1 + x = 0"
    then have "x = - 1" by (rule minus_unique[symmetric])
    then show False using assms by simp
  qed
  then have "unat (1 + x) = Suc (unat x)"
    by (rule unatSuc)
  then show ?thesis
    by (simp only: word_less_nat_alt add.commute[of x])
qed

text \<open>
  \<open>next_event\<close> ends: it skips at most the rest of the batch, and the first event of a new
  batch is never skipped, since no item carries the new iteration number yet.
\<close>

definition stale :: "poolhd \<Rightarrow> nat \<Rightarrow> bool" where
  "stale p u \<longleftrightarrow> mod_iter (items p ! u) = iters p"

definition fetched :: "kernel \<Rightarrow> world \<Rightarrow> (nat \<times> int) list" where
  "fetched k w = evs (fst (sys k (Epoll_wait (pmax (pool w))) w))"

text \<open>What \<open>next_event\<close> does when the rest of the batch is used up: a new one and its last event.\<close>

definition new_batch :: "kernel \<Rightarrow> world \<Rightarrow> (nat \<times> int) option \<Rightarrow> int \<Rightarrow> world \<Rightarrow> bool" where
  "new_batch k w r offs w' \<longleftrightarrow> (let b = fst (wait_batch k w) in w' = snd (wait_batch k w)
     \<and> (if b < 0 then r = None \<and> offs = - 1 else r = Some (pevents (pool w') ! nat b) \<and> offs = b - 1))"

lemma next_event_new_batch:
  assumes "wait_ok k w" and "0 < pmax (pool w)" and "iters (pool w) \<noteq> - 1"
    and iter: "\<forall>u \<in> fst ` set (fetched k w). mod_iter (items (pool w) ! u) \<le> iters (pool w)"
  shows "\<exists>r offs' w'. next_event (Suc n) k (- 1) w = Some (r, offs', w') \<and> new_batch k w r offs' w'"
proof -
  define r where "r = fst (sys k (Epoll_wait (pmax (pool w))) w)"
  define w1 where "w1 = snd (sys k (Epoll_wait (pmax (pool w))) w)"
  have w1: "pool w1 = pool w" by (simp add: w1_def)
  show ?thesis
  proof (cases "ret r - 1 < 0")
    case True
    then show ?thesis
      using assms(2)
      by (simp add: wait_batch_def new_batch_def split_beta r_def[symmetric] w1_def[symmetric] Let_def)
  next
    case False
    define i where "i = nat (ret r - 1)"
    obtain v ty where e: "evs r ! i = (v, ty)" by (cases "evs r ! i")
    have i: "i < length (evs r)"
      using assms(1) False by (auto simp: wait_ok_def r_def[symmetric] Let_def i_def)
    then have v: "v < length (items (pool w))"
      using assms(1) e nth_mem[OF i] by (auto simp: wait_ok_def r_def[symmetric] Let_def)
    have lt: "iters (pool w) < iters (pool w) + 1"
      using assms(3) by (rule word_less_Suc)
    moreover have "v \<in> fst ` set (fetched k w)"
      using nth_mem[OF i] e by (force simp: fetched_def r_def)
    ultimately have "mod_iter (items (pool w) ! v) \<noteq> iters (pool w) + 1"
      using iter by (metis leD)
    then show ?thesis
      using assms(2,3) False i v e
      by (simp add: wait_batch_def new_batch_def split_beta r_def[symmetric] w1_def[symmetric] w1 Let_def
          get_ev_def i_def[symmetric])
  qed
qed

lemma next_event_exact:
  assumes "wait_ok k w" and "0 < pmax (pool w)" and "iters (pool w) \<noteq> - 1"
    and "\<forall>u \<in> fst ` set (fetched k w). mod_iter (items (pool w) ! u) \<le> iters (pool w)"
    and "batch_ok (pool w) offs" and "nat (offs + 1) < n"
  shows "\<exists>r offs' w'. next_event n k offs w = Some (r, offs', w')
     \<and> ((\<exists>i. int i \<le> offs \<and> \<not> stale (pool w) (fst (pevents (pool w) ! i))
           \<and> (\<forall>j. i < j \<longrightarrow> int j \<le> offs \<longrightarrow> stale (pool w) (fst (pevents (pool w) ! j)))
           \<and> r = Some (pevents (pool w) ! i) \<and> offs' = int i - 1 \<and> w' = w)
        \<or> (\<forall>j. int j \<le> offs \<longrightarrow> stale (pool w) (fst (pevents (pool w) ! j))) \<and> new_batch k w r offs' w')"
  using assms(5,6)
proof (induction n arbitrary: offs)
  case (Suc n)
  show ?case
  proof (cases "offs = - 1")
    case True
    then show ?thesis
      using next_event_new_batch[OF assms(1-4), of n] by auto
  next
    case False
    define i where "i = nat offs"
    have offs: "offs = int i" "i < length (pevents (pool w))"
      using Suc.prems(1) False by (auto simp: batch_ok_def i_def)
    obtain v ty where e: "pevents (pool w) ! i = (v, ty)"
      by (cases "pevents (pool w) ! i")
    have v: "v < length (items (pool w))"
      using Suc.prems(1) e nth_mem[OF offs(2)] by (auto simp: batch_ok_def)
    have eq: "next_event (Suc n) k offs w =
        (if stale (pool w) v then next_event n k (offs - 1) w else Some (Some (v, ty), offs - 1, w))"
      using Suc.prems(1) offs e v by (simp add: batch_ok_def get_ev_def stale_def)
    have prev: "batch_ok (pool w) (offs - 1)" "nat (offs - 1 + 1) < n"
      using Suc.prems False offs by (auto simp: batch_ok_def)
    show ?thesis
    proof (cases "stale (pool w) v")
      case True
      have st: "stale (pool w) (fst (pevents (pool w) ! j))" if "int j \<le> offs" "\<not> int j \<le> offs - 1" for j
        using that True e offs(1) by (simp add: le_antisym)
      obtain r offs' w' where r: "next_event n k (offs - 1) w = Some (r, offs', w')"
        and d: "(\<exists>i. int i \<le> offs - 1 \<and> \<not> stale (pool w) (fst (pevents (pool w) ! i))
           \<and> (\<forall>j. i < j \<longrightarrow> int j \<le> offs - 1 \<longrightarrow> stale (pool w) (fst (pevents (pool w) ! j)))
           \<and> r = Some (pevents (pool w) ! i) \<and> offs' = int i - 1 \<and> w' = w)
        \<or> (\<forall>j. int j \<le> offs - 1 \<longrightarrow> stale (pool w) (fst (pevents (pool w) ! j))) \<and> new_batch k w r offs' w'"
        using Suc.IH[OF prev] by blast
      have "next_event (Suc n) k offs w = Some (r, offs', w')"
        using eq True r by simp
      moreover have "int i \<le> offs" if "int i \<le> offs - 1" for i
        using that by simp
      ultimately show ?thesis
        using d st by blast
    next
      case f: False
      have "\<forall>j. i < j \<longrightarrow> int j \<le> offs \<longrightarrow> stale (pool w) (fst (pevents (pool w) ! j))"
        using offs(1) by simp
      then show ?thesis
        using eq f e offs(1) by auto
    qed
  qed
qed simp

section \<open>Properties\<close>

text \<open>A listening socket and two connections that are each other's pair.\<close>

definition demo_pool :: poolhd where
  "demo_pool = \<lparr>pmax = 4, pcount = 3, efd = 3, links = [0, 1, 2, 3],
     items = [empty_eval\<lparr>fd := 4, index := 0\<rparr>,
              empty_eval\<lparr>fd := 5, index := 1, pair := Some 2, etype := EV_TUNNEL\<rparr>,
              empty_eval\<lparr>fd := 6, index := 2, pair := Some 1, etype := EV_TUNNEL\<rparr>,
              empty_eval],
     pevents = [(1, 1), (2, 1)], iters = 3\<rparr>"

definition demo_world :: world where
  "demo_world = (start_world default_params)\<lparr>pool := demo_pool\<rparr>"

lemma demo_live: "live demo_pool = {0, 1, 2}"
  by (auto simp: live_def demo_pool_def numeral_eq_Suc)

lemma demo_pool_inv: "pool_inv demo_pool"
proof -
  have "links_ok demo_pool"
    by (auto simp: links_ok_def demo_pool_def less_Suc_eq numeral_eq_Suc)
  moreover have "ev_ok demo_pool (items demo_pool ! v)" if "v \<in> {0, 1, 2}" for v
    using that unfolding ev_ok_def ptr_ok_def demo_live by (auto simp: demo_pool_def empty_eval_def)
  ultimately show ?thesis
    by (simp add: pool_inv_def demo_live)
qed

lemma demo_listener: "listener demo_pool 0"
  by (auto simp: listener_def demo_live) (auto simp: demo_pool_def empty_eval_def)

lemma demo_world_pool: "pool demo_world = demo_pool"
  by (simp add: demo_world_def)

text \<open>
  C21. \<open>del_event\<close> ends without a failed assertion on any connection but the listening socket.
  It closes exactly the chain of pairs: the connection and the live ones its \<open>pair\<close> pointers
  lead to, and nothing else leaves the table. Each of them is marked with -1 and taken from epoll
  and closed once, and these are all the calls made; every other item is untouched but for a
  dropped \<open>pair\<close>, the listening socket stays, and the table keeps its invariant.
\<close>

theorem del_event_closes:
  assumes "pool_inv (pool w)" and "ptr_ok (pool w) v" and "listener (pool w) l" and "l \<noteq> v"
  shows "\<exists>w'. del_event k v w = Some w' \<and> pool_inv (pool w') \<and> listener (pool w') l
     \<and> live (pool w') = live (pool w) - {u. chained (pool w) v u} \<and> fd (items (pool w') ! v) = - 1
     \<and> items_kept {u. chained (pool w) v u} (pool w) (pool w')
     \<and> (\<forall>u. chained (pool w) v u \<longrightarrow> fd (items (pool w') ! u) = - 1)
     \<and> (\<exists>us es. hist w' = hist w @ es \<and> map fst es = close_calls (pool w) us \<and> distinct us
          \<and> set us = {u. chained (pool w) v u})"
proof -
  obtain w' where w': "del_event k v w = Some w'" "pool_inv (pool w')" "listener (pool w') l"
    "fd (items (pool w') ! v) = - 1" "items_kept (live (pool w) - live (pool w')) (pool w) (pool w')"
    "\<forall>u \<in> live (pool w) - live (pool w'). fd (items (pool w') ! u) = - 1" "cut v w w'"
    using del_event_ok[OF assms] by blast
  have C: "live (pool w) - live (pool w') = {u. chained (pool w) v u}" "live (pool w') \<subseteq> live (pool w)"
    "\<exists>us es. hist w' = hist w @ es \<and> map fst es = close_calls (pool w) us \<and> distinct us
       \<and> set us = live (pool w) - live (pool w')"
    using w'(7) unfolding cut_def Let_def by blast+
  have "live (pool w') = live (pool w) - {u. chained (pool w) v u}"
    using C(1,2) by blast
  then show ?thesis
    using w' C(3) unfolding C(1) by blast
qed

theorem del_event_closes_witness:
  "\<exists>w'. del_event plain_kernel 1 demo_world = Some w' \<and> pool_inv (pool w') \<and> listener (pool w') 0
     \<and> live (pool w') = live (pool demo_world) - {u. chained (pool demo_world) 1 u}
     \<and> chained (pool demo_world) 1 2 \<and> \<not> chained (pool demo_world) 1 0
     \<and> (\<exists>us es. hist w' = hist demo_world @ es \<and> map fst es = close_calls (pool demo_world) us
          \<and> distinct us \<and> set us = {u. chained (pool demo_world) 1 u})"
proof -
  have lst: "listener (pool demo_world) 0"
    by (simp add: demo_world_pool demo_listener)
  obtain w' where w': "del_event plain_kernel 1 demo_world = Some w'" "pool_inv (pool w')" "listener (pool w') 0"
    "live (pool w') = live (pool demo_world) - {u. chained (pool demo_world) 1 u}"
    "\<exists>us es. hist w' = hist demo_world @ es \<and> map fst es = close_calls (pool demo_world) us
          \<and> distinct us \<and> set us = {u. chained (pool demo_world) 1 u}"
    using del_event_closes[OF _ _ lst, of 1 plain_kernel]
    by (auto simp: demo_world_pool demo_pool_inv ptr_ok_def demo_live)
  have "0 \<in> live (pool w')"
    using w'(3) by (simp add: listener_def)
  then have "\<not> chained (pool demo_world) 1 0"
    using w'(4) by auto
  moreover have "chained (pool demo_world) 1 2"
    using chained_next[OF chained_start, of 1 "pool demo_world" 2] unfolding demo_world_pool demo_live
    by (simp add: demo_pool_def)
  ultimately show ?thesis
    using w' by blast
qed

text \<open>
  C22. \<open>add_event\<close> keeps the table's invariant and every live connection. It returns null when
  the table is full or \<open>epoll_ctl\<close> fails, and otherwise a slot that was not in use, with the
  descriptor, type and position it was given.
\<close>

theorem add_event_fresh:
  assumes "pool_inv (pool w)" and "0 < f"
    and "\<forall>u \<in> live (pool w). pair (items (pool w) ! u) \<noteq> Some (links (pool w) ! nat (pcount (pool w)))"
  shows "\<exists>r w'. add_event k ty f e w = Some (r, w') \<and> pool_inv (pool w')
     \<and> (\<forall>u \<in> live (pool w). items (pool w') ! u = items (pool w) ! u)
     \<and> (case r of
          None \<Rightarrow> live (pool w') = live (pool w)
        | Some v \<Rightarrow> v \<notin> live (pool w) \<and> live (pool w') = insert v (live (pool w))
            \<and> items (pool w') ! v = new_eval (pool w) ty f)"
  using add_event_ok[OF assms] by blast

theorem add_event_fresh_witness:
  "\<exists>r w'. add_event plain_kernel EV_REQUEST 9 1 demo_world = Some (r, w') \<and> pool_inv (pool w')
     \<and> (\<forall>u \<in> live (pool demo_world). items (pool w') ! u = items (pool demo_world) ! u)
     \<and> (case r of
          None \<Rightarrow> live (pool w') = live (pool demo_world)
        | Some v \<Rightarrow> v \<notin> live (pool demo_world) \<and> live (pool w') = insert v (live (pool demo_world))
            \<and> items (pool w') ! v = new_eval (pool demo_world) EV_REQUEST 9)"
  by (rule add_event_fresh)
     (simp_all add: demo_world_pool demo_pool_inv demo_live, simp add: demo_pool_def empty_eval_def)

section \<open>What happens between two events\<close>

text \<open>
  What the handlers do to the table between two calls of \<open>next_event\<close>: they add and close
  connections, edit the other fields of one, and make system calls. \<open>T\<close> collects the slots
  they touched: those \<open>add_event\<close> filled and those \<open>del_event\<close> closed.
\<close>

definition taken :: "poolhd \<Rightarrow> nat set" where
  "taken p = (if pcount p < pmax p then {links p ! nat (pcount p)} else {})"

definition closed_in :: "poolhd \<Rightarrow> poolhd \<Rightarrow> nat set" where
  "closed_in p p' = {u. u < length (items p) \<and> fd (items p ! u) \<noteq> - 1 \<and> fd (items p' ! u) = - 1}"

inductive churn :: "kernel \<Rightarrow> world \<Rightarrow> nat set \<Rightarrow> world \<Rightarrow> bool" for k w0 where
  churn_refl: "churn k w0 {} w0"
| churn_add: "churn k w0 T w \<Longrightarrow> add_event k ty f e w = Some (r, w') \<Longrightarrow> churn k w0 (T \<union> taken (pool w)) w'"
| churn_del: "churn k w0 T w \<Longrightarrow> del_event k v w = Some w' \<Longrightarrow> churn k w0 (T \<union> closed_in (pool w) (pool w')) w'"
| churn_edit: "churn k w0 T w \<Longrightarrow> \<forall>x. mod_iter (f x) = mod_iter x \<and> fd (f x) = fd x \<Longrightarrow> set_ev v f w = Some w'
    \<Longrightarrow> churn k w0 T w'"
| churn_other: "churn k w0 T w \<Longrightarrow> pool w' = pool w \<Longrightarrow> churn k w0 T w'"

text \<open>Closing stamps what it closes and nothing else; adding stamps the slot it takes.\<close>

definition stamped :: "poolhd \<Rightarrow> poolhd \<Rightarrow> bool" where
  "stamped p p' \<longleftrightarrow> length (items p') = length (items p) \<and> iters p' = iters p \<and> pmax p' = pmax p
     \<and> pevents p' = pevents p
     \<and> (\<forall>u < length (items p). mod_iter (items p' ! u) = mod_iter (items p ! u) \<and> fd (items p' ! u) = fd (items p ! u)
          \<or> fd (items p ! u) \<noteq> - 1 \<and> fd (items p' ! u) = - 1 \<and> mod_iter (items p' ! u) = iters p)"

lemma stamped_refl: "stamped p p"
  by (simp add: stamped_def)

lemma stamped_trans:
  assumes "stamped p p'" and "stamped p' p''"
  shows "stamped p p''"
  using assms unfolding stamped_def by (metis (no_types, lifting))

lemma stamped_edit:
  assumes "set_ev v f w = Some w'"
    and "v < length (items (pool w)) \<Longrightarrow> mod_iter (f (items (pool w) ! v)) = mod_iter (items (pool w) ! v)
       \<and> fd (f (items (pool w) ! v)) = fd (items (pool w) ! v)
       \<or> fd (items (pool w) ! v) \<noteq> - 1 \<and> fd (f (items (pool w) ! v)) = - 1
         \<and> mod_iter (f (items (pool w) ! v)) = iters (pool w)"
  shows "stamped (pool w) (pool w')"
  using assms by (auto simp: set_ev_def stamped_def nth_list_update split: if_splits)

lemma stamped_unlink:
  assumes "unlink_ev v w = Some w'"
  shows "stamped (pool w) (pool w')"
proof -
  define c where "c = pcount (pool w) - 1"
  define w1 where "w1 = w\<lparr>pool := (pool w)\<lparr>pcount := c\<rparr>\<rparr>"
  define xs where "xs = (links (pool w))[nat (index (items (pool w) ! v)) := links (pool w) ! nat c, nat c := v]"
  define w2 where "w2 = w1\<lparr>pool := (pool w1)\<lparr>links := xs\<rparr>\<rparr>"
  have "w' = w1 \<or> (\<exists>i. set_ev (links (pool w) ! nat c) (\<lambda>x. x\<lparr>index := i\<rparr>) w2 = Some w')"
    using assms
    by (auto simp: unlink_ev_def get_ev_def Let_def bind_eq_Some_conv c_def w1_def w2_def xs_def split: if_splits)
  moreover have "stamped (pool w) (pool w1)" "stamped (pool w) (pool w2)"
    by (simp_all add: stamped_def w1_def w2_def)
  moreover have "stamped (pool w2) (pool w')" if "set_ev u (\<lambda>x. x\<lparr>index := i\<rparr>) w2 = Some w'" for u i
    using that by (rule stamped_edit) simp
  ultimately show ?thesis
    using stamped_trans by blast
qed

lemma stamped_unpair:
  assumes "unpair v q w = Some w'"
  shows "stamped (pool w) (pool w')"
proof -
  obtain w1 where w1: "(if pair (items (pool w) ! q) = Some v then set_ev q (\<lambda>x. x\<lparr>pair := None\<rparr>) w else Some w) = Some w1"
    "set_ev v (\<lambda>x. x\<lparr>pair := None\<rparr>) w1 = Some w'"
    using assms by (auto simp: unpair_def get_ev_def bind_eq_Some_conv split: if_splits)
  have "stamped (pool w) (pool w1)"
    using w1(1) stamped_edit[of q _ w w1] by (auto simp: stamped_refl split: if_splits)
  moreover have "stamped (pool w1) (pool w')"
    using w1(2) by (rule stamped_edit) simp
  ultimately show ?thesis
    by (rule stamped_trans)
qed

lemma stamped_del_n: "del_event_n n k v w = Some w' \<Longrightarrow> stamped (pool w) (pool w')"
proof (induction n arbitrary: v w)
  case (Suc n)
  obtain val where val: "get_ev v w = Some val"
    using Suc.prems by (auto simp: bind_eq_Some_conv)
  then have vn: "v < length (items (pool w))" "items (pool w) ! v = val"
    by (auto simp: get_ev_def split: if_splits)
  show ?case
  proof (cases "fd val = - 1")
    case True
    then show ?thesis
      using Suc.prems val by (auto simp: bind_eq_Some_conv stamped_refl split: if_splits)
  next
    case False
    define w1 where "w1 = snd (sys k (Close (fd val)) (snd (sys k (Epoll_del (fd val)) w)))"
    have pw1: "pool w1 = pool w"
      by (simp add: w1_def)
    obtain w2 w3 where w2: "set_ev v (\<lambda>x. x\<lparr>buff_data := None, fd := - 1, mod_iter := iters (pool w)\<rparr>) w1 = Some w2"
      and w3: "unlink_ev v w2 = Some w3"
      and rest: "(case pair val of None \<Rightarrow> Some w3 | Some q \<Rightarrow> do { w \<leftarrow> unpair v q w3; del_event_n n k q w }) = Some w'"
      using Suc.prems val False
      by (auto simp: bind_eq_Some_conv Let_def split_beta w1_def split: if_splits)
    have "stamped (pool w) (pool w2)"
      using stamped_edit[OF w2] vn False pw1 by simp
    moreover note stamped_unlink[OF w3]
    moreover have "stamped (pool w3) (pool w')"
    proof (cases "pair val")
      case (Some q)
      then obtain w4 where "unpair v q w3 = Some w4" "del_event_n n k q w4 = Some w'"
        using rest by (auto simp: bind_eq_Some_conv)
      then show ?thesis
        using stamped_unpair Suc.IH stamped_trans by blast
    qed (use rest in \<open>simp add: stamped_refl\<close>)
    ultimately show ?thesis
      using stamped_trans by blast
  qed
qed simp

lemma add_event_stamps:
  assumes "add_event k ty f e w = Some (r, w')"
  shows "length (items (pool w')) = length (items (pool w))" and "iters (pool w') = iters (pool w)"
    and "pmax (pool w') = pmax (pool w)" and "pevents (pool w') = pevents (pool w)"
    and "\<And>u. u < length (items (pool w)) \<Longrightarrow> mod_iter (items (pool w') ! u)
           = (if u \<in> taken (pool w) then iters (pool w) else mod_iter (items (pool w) ! u))"
  using assms
  by (auto simp: add_event_def set_ev_def taken_def nth_list_update Let_def split_beta bind_eq_Some_conv split: if_splits)

text \<open>So the slots that carry the number of the batch are those touched since.\<close>

lemma churn_stamps:
  assumes "churn k w0 T w"
  shows "length (items (pool w)) = length (items (pool w0)) \<and> iters (pool w) = iters (pool w0)
     \<and> pmax (pool w) = pmax (pool w0) \<and> pevents (pool w) = pevents (pool w0)
     \<and> (\<forall>u < length (items (pool w)). mod_iter (items (pool w) ! u)
           = (if u \<in> T then iters (pool w) else mod_iter (items (pool w0) ! u)))"
  using assms
proof (induction rule: churn.induct)
  case (churn_add T w ty f e r w')
  then show ?case
    using add_event_stamps[OF churn_add.hyps(2)] by auto
next
  case (churn_del T w v w')
  then show ?case
    using stamped_del_n[OF churn_del.hyps(2)[unfolded del_event_def]]
    by (auto simp: stamped_def closed_in_def)
next
  case (churn_edit T w f v w')
  then show ?case
    by (auto simp: set_ev_def nth_list_update split: if_splits)
qed simp_all

text \<open>Fetching a batch is what makes the numbers of all slots older than the current one.\<close>

lemma wait_batch_ages:
  assumes "mod_iter (items (pool w) ! u) \<le> iters (pool w)" and "iters (pool w) \<noteq> - 1"
    and "0 \<le> fst (wait_batch k w)"
  shows "mod_iter (items (pool (snd (wait_batch k w))) ! u) < iters (pool (snd (wait_batch k w)))"
proof -
  have "iters (pool w) < iters (pool w) + 1"
    using assms(2) by (rule word_less_Suc)
  then show ?thesis
    using assms by (auto simp: wait_batch_def Let_def split_beta split: if_splits)
qed

text \<open>
  C23. Between two calls of \<open>next_event\<close> the handlers add and close connections; \<open>T\<close> holds
  the slots they filled or closed since the state \<open>w0\<close> in which the batch was fetched. The next
  call walks the batch backwards. It skips exactly the events of slots in \<open>T\<close> and returns the
  first event of a connection that was neither made nor closed since; when there is none it fetches
  a new batch and returns its last event, or nothing when the kernel has none. So no handler runs
  on a closed or reused slot, and no event of another connection is lost.
\<close>

theorem next_event_safe:
  assumes "churn k w0 T w"
    and "\<forall>u \<in> fst ` set (pevents (pool w) @ fetched k w). u \<in> T \<or> mod_iter (items (pool w0) ! u) < iters (pool w0)"
    and "wait_ok k w" and "0 < pmax (pool w)" and "iters (pool w) \<noteq> - 1"
    and "batch_ok (pool w) offs" and "nat (offs + 1) < n"
  shows "\<exists>r offs' w'. next_event n k offs w = Some (r, offs', w')
     \<and> ((\<exists>i. int i \<le> offs \<and> fst (pevents (pool w) ! i) \<notin> T
           \<and> (\<forall>j. i < j \<longrightarrow> int j \<le> offs \<longrightarrow> fst (pevents (pool w) ! j) \<in> T)
           \<and> r = Some (pevents (pool w) ! i) \<and> offs' = int i - 1 \<and> w' = w)
        \<or> (\<forall>j. int j \<le> offs \<longrightarrow> fst (pevents (pool w) ! j) \<in> T) \<and> new_batch k w r offs' w')"
proof -
  note ch = churn_stamps[OF assms(1)]
  have len: "u < length (items (pool w))" if "u \<in> fst ` set (pevents (pool w) @ fetched k w)" for u
    using that assms(3,6) by (auto simp: wait_ok_def batch_ok_def fetched_def Let_def)
  have st: "stale (pool w) u \<longleftrightarrow> u \<in> T" if "u \<in> fst ` set (pevents (pool w) @ fetched k w)" for u
    using ch assms(2) len[OF that] that by (auto simp: stale_def)
  have ev: "stale (pool w) (fst (pevents (pool w) ! j)) \<longleftrightarrow> fst (pevents (pool w) ! j) \<in> T" if "int j \<le> offs" for j
    using that assms(6) by (intro st) (auto simp: batch_ok_def)
  have "\<forall>u \<in> fst ` set (fetched k w). mod_iter (items (pool w) ! u) \<le> iters (pool w)"
    using ch assms(2) len by (force intro: less_imp_le)
  from next_event_exact[OF assms(3-5) this assms(6,7)] show ?thesis
    using ev by (metis (no_types, lifting))
qed

text \<open>Both sides of a tunnel have an event waiting when the first is closed; then only the listener has one.\<close>

definition wake_kernel :: kernel where
  "wake_kernel h c = (if c = Epoll_wait 4 then (ok_reply 1)\<lparr>evs := [(0, 1)]\<rparr> else plain_kernel h c)"

definition demo_closed :: world where
  "demo_closed = the (del_event wake_kernel 1 demo_world)"

lemma demo_closed:
  "del_event wake_kernel 1 demo_world = Some demo_closed"
  "pool demo_closed = demo_pool\<lparr>pcount := 1, links := [0, 2, 1, 3],
     items := [empty_eval\<lparr>fd := 4, index := 0\<rparr>,
       empty_eval\<lparr>fd := - 1, index := 1, etype := EV_TUNNEL, mod_iter := 3\<rparr>,
       empty_eval\<lparr>fd := - 1, index := 1, etype := EV_TUNNEL, mod_iter := 3\<rparr>, empty_eval]\<rparr>"
  by (simp_all add: demo_closed_def del_event_def demo_world_def demo_pool_def get_ev_def set_ev_def unlink_ev_def
      unpair_def sys_def wake_kernel_def ok_reply_def empty_eval_def start_world_def empty_pool_def Let_def)

theorem next_event_safe_witness:
  "churn wake_kernel demo_world {1, 2} demo_closed
   \<and> (\<exists>w'. next_event 5 wake_kernel 1 demo_closed = Some (Some (0, 1), - 1, w'))"
proof
  have "closed_in (pool demo_world) (pool demo_closed) = {1, 2}"
    by (auto simp: closed_in_def demo_closed(2) demo_world_pool demo_pool_def empty_eval_def less_Suc_eq numeral_eq_Suc)
  then show ch: "churn wake_kernel demo_world {1, 2} demo_closed"
    using churn_del[OF churn_refl demo_closed(1)] by simp
  have ev: "fetched wake_kernel demo_closed = [(0, 1)]" "pevents (pool demo_closed) = [(1, 1), (2, 1)]"
    by (simp_all add: fetched_def sys_def wake_kernel_def demo_closed(2) demo_pool_def ok_reply_def Let_def)
  have "\<exists>r offs' w'. next_event 5 wake_kernel 1 demo_closed = Some (r, offs', w')
     \<and> ((\<exists>i. int i \<le> 1 \<and> fst (pevents (pool demo_closed) ! i) \<notin> {1, 2}
           \<and> (\<forall>j. i < j \<longrightarrow> int j \<le> 1 \<longrightarrow> fst (pevents (pool demo_closed) ! j) \<in> {1, 2})
           \<and> r = Some (pevents (pool demo_closed) ! i) \<and> offs' = int i - 1 \<and> w' = demo_closed)
        \<or> (\<forall>j. int j \<le> 1 \<longrightarrow> fst (pevents (pool demo_closed) ! j) \<in> {1, 2})
          \<and> new_batch wake_kernel demo_closed r offs' w')"
  proof (rule next_event_safe[OF ch])
    show "\<forall>u \<in> fst ` set (pevents (pool demo_closed) @ fetched wake_kernel demo_closed).
        u \<in> {1, 2} \<or> mod_iter (items (pool demo_world) ! u) < iters (pool demo_world)"
      by (auto simp: ev demo_world_pool) (simp add: demo_pool_def empty_eval_def)
    show "wait_ok wake_kernel demo_closed"
      by (simp add: wait_ok_def sys_def wake_kernel_def demo_closed(2) demo_pool_def ok_reply_def Let_def)
    show "batch_ok (pool demo_closed) 1"
      by (simp add: batch_ok_def demo_closed(2) demo_pool_def)
  qed (simp_all add: demo_closed(2) demo_pool_def)
  moreover have "fst (pevents (pool demo_closed) ! i) \<in> {1, 2}" if "int i \<le> 1" for i
    using that by (cases i) (auto simp: ev)
  ultimately obtain r offs' w' where r: "next_event 5 wake_kernel 1 demo_closed = Some (r, offs', w')"
    "new_batch wake_kernel demo_closed r offs' w'"
    by blast
  then have "r = Some (0, 1)" "offs' = - 1"
    by (simp_all add: new_batch_def wait_batch_def sys_def wake_kernel_def demo_closed(2) demo_pool_def ok_reply_def Let_def)
  then show "\<exists>w'. next_event 5 wake_kernel 1 demo_closed = Some (Some (0, 1), - 1, w')"
    using r(1) by simp
qed

end
