(* ===== verification/Desync.thy ===== *)
theory Desync
  imports Packets Os
begin

text \<open>
  The desynchronisation engine of \<open>byedpi/desync.c\<close> (the Linux code): a client's first
  packet is modified (HTTP header case, TLS record splitting) and sent in parts, each in one of
  the ways that confuse a middlebox: plain, out of order (a low TTL, so that the first copy is
  lost), with an urgent byte, or with fake content that is replaced before retransmission.

  The lemmas say what reaches the peer. Whatever the split list, the bytes accepted by the
  kernel for the connection are the packet from the offset on, in order and without gaps or
  repetition, up to the position \<open>desync\<close> returns.
\<close>

section \<open>Socket helpers\<close>

definition v4mapped :: bytes where
  "v4mapped = [0, 0, 0, 0, 0, 0, 0, 0, 0, 0, 0xff, 0xff]"

definition get_family :: "bytes \<Rightarrow> int" where
  "get_family dst =
     (if sa_family dst = AF_INET6 \<and> take 12 (sin6_addr dst) = v4mapped then AF_INET
      else sa_family dst)"

definition setttl :: "kernel \<Rightarrow> int \<Rightarrow> int \<Rightarrow> int \<Rightarrow> world \<Rightarrow> int \<times> world" where
  "setttl k f t family w =
     (let (r, w) = sys k (Setsockopt f (if family = AF_INET then IP_TTL else IPV6_UNICAST_HOPS) [t]) w
      in (if ret r < 0 then - 1 else 0, w))"

text \<open>The BPF program that drops incoming segments with SACK blocks.\<close>

definition sack_filter :: "int list" where
  "sack_filter = [0x30, 0, 0, 0x0c, 0x74, 0, 0, 0x04, 0x35, 0, 3, 0x0b, 0x30, 0, 0, 0x22,
     0x15, 0, 1, 0x05, 0x6, 0, 0, 0, 0x6, 0, 0, 0x00040000]"

definition drop_sack_fd :: "kernel \<Rightarrow> int \<Rightarrow> world \<Rightarrow> int \<times> world" where
  "drop_sack_fd k f w =
     (let (r, w) = sys k (Setsockopt f SO_ATTACH_FILTER sack_filter) w
      in (if ret r = - 1 then - 1 else 0, w))"

definition delay :: "kernel \<Rightarrow> int \<Rightarrow> world \<Rightarrow> world" where
  "delay k ms w = snd (sys k (Nanosleep ms) w)"

text \<open>
  The distance of \<open>tcpi_notsent_bytes\<close> from \<open>tcpi_state\<close> in \<open>struct tcp_info\<close>. The reply
  of \<open>TCP_INFO\<close> has the state, the size filled in and the unsent bytes.
\<close>

definition NOTSENT_OFFS :: int where "NOTSENT_OFFS = 144"

fun wait_send_loop :: "nat \<Rightarrow> kernel \<Rightarrow> int \<Rightarrow> world \<Rightarrow> bool \<times> world" where
  "wait_send_loop 0 k sfd w = (False, w)"
| "wait_send_loop (Suc n) k sfd w =
     (if \<not> wait_send_f (prm w) then (False, w)
      else let (r, w) = sys k (Getsockopt sfd TCP_INFO) w in
        if ret r < 0 then (False, w)
        else case vals r of
          [state, ts, notsent] \<Rightarrow>
            if state \<noteq> 1 then (True, w)
            else if ts < NOTSENT_OFFS then (False, w\<lparr>prm := (prm w)\<lparr>wait_send_f := False\<rparr>\<rparr>)
            else if notsent = 0 then (True, w)
            else wait_send_loop n k sfd (delay k 1 w)
        | _ \<Rightarrow> (True, w))"

definition wait_send :: "kernel \<Rightarrow> int \<Rightarrow> world \<Rightarrow> world" where
  "wait_send k sfd w =
     (let (returned, w) = wait_send_loop 500 k sfd w
      in if returned then w else delay k (sfdelay (prm w)) w)"

definition wait_send_if_support :: "kernel \<Rightarrow> int \<Rightarrow> world \<Rightarrow> world" where
  "wait_send_if_support k sfd w = (if wait_send_f (prm w) then wait_send k sfd w else w)"

section \<open>Sending a part\<close>

text \<open>A \<open>memcpy\<close> into a shared mapping: part of the trace, but not a call that can fail.\<close>

definition map_write :: "int \<Rightarrow> bytes \<Rightarrow> world \<Rightarrow> world" where
  "map_write ffd bs w =
     w\<lparr>hist := hist w @ [(Map_write ffd bs, \<lparr>ret = 0, err = 0, out = [], vals = [], evs = []\<rparr>)]\<rparr>"

definition fake_packet :: "params \<Rightarrow> desync_params \<Rightarrow> int \<Rightarrow> bytes option" where
  "fake_packet pr opt cnt =
     (let pkt = (case fake_data opt of
                   Some d \<Rightarrow> d
                 | None \<Rightarrow> if cnt \<noteq> IS_HTTP then fake_tls pr else fake_http pr)
      in if fake_offset opt \<noteq> 0 then
           (if fake_offset opt < int (length pkt)
            then do { c_assert (0 \<le> fake_offset opt); Some (drop (nat (fake_offset opt)) pkt) }
            else Some [])
         else Some pkt)"

definition opt_sockopt :: "kernel \<Rightarrow> bool \<Rightarrow> int \<Rightarrow> sockopt \<Rightarrow> int list \<Rightarrow> world \<Rightarrow> int \<times> world" where
  "opt_sockopt k c f o' v w =
     (if c then let (r, w) = sys k (Setsockopt f o' v) w in (ret r, w) else (0, w))"

text \<open>
  The body of the loop that runs once: whether the file is mapped, the result and the world.
  \<open>real\<close> is the part of the packet that must arrive.
\<close>

definition send_fake_body ::
  "kernel \<Rightarrow> int \<Rightarrow> int \<Rightarrow> bytes \<Rightarrow> bytes \<Rightarrow> int \<Rightarrow> int \<Rightarrow> desync_params \<Rightarrow> world \<Rightarrow> bool \<times> int \<times> world" where
  "send_fake_body k sfd ffd pkt real pos fa opt w =
     (let (r, w) = sys k (Ftruncate ffd pos) w in
      if ret r < 0 then (False, - 1, w)
      else let (r, w) = sys k (Mmap ffd pos) w in
      if ret r < 0 then (False, - 1, w)
      else let w = map_write ffd (take (nat pos) pkt) w;
               (t, w) = setttl k sfd (if ttl opt \<noteq> 0 then ttl opt else 8) fa w in
      if t < 0 then (True, - 1, w)
      else let (m, w) = opt_sockopt k (md5sig opt) sfd TCP_MD5SIG [5] w in
      if m < 0 then (True, - 1, w)
      else let v4o = (ip_options opt \<noteq> None \<and> fa = AF_INET);
               (i, w) = opt_sockopt k v4o sfd IP_OPTIONS
                          (case ip_options opt of Some bs \<Rightarrow> map uint bs | None \<Rightarrow> []) w in
      if i < 0 then (True, - 1, w)
      else let (r, w) = sys k (Sendfile sfd ffd pos) w; len = ret r in
      if len < 0 then (True, len, w)
      else let w = wait_send k sfd w;
               w = map_write ffd real w;
               (t, w) = setttl k sfd (def_ttl (prm w)) fa w in
      if t < 0 then (True, len, w)
      else let (i, w) = opt_sockopt k v4o sfd IP_OPTIONS [] w in
      if i < 0 then (True, len, w)
      else let (m, w) = opt_sockopt k (md5sig opt) sfd TCP_MD5SIG [0] w in
      (True, len, w))"

definition send_fake ::
  "kernel \<Rightarrow> int \<Rightarrow> bytes \<Rightarrow> int \<Rightarrow> int \<Rightarrow> int \<Rightarrow> int \<Rightarrow> desync_params \<Rightarrow> world \<Rightarrow> (int \<times> world) option" where
  "send_fake k sfd buffer lp cnt pos fa opt w = do {
     let (g, w) = (if md5sig opt then let (r, w) = sys k (Getpeername sfd) w in (ret r, w) else (0, w));
     if g < 0 then Some (- 1, w)
     else do {
       pkt \<leftarrow> fake_packet (prm w) opt cnt;
       let (r, w) = sys k Memfd_create w;
       let ffd = ret r;
       if ffd < 0 then Some (- 1, w)
       else do {
         real \<leftarrow> rdn buffer lp pos;
         let (mapped, len, w) = send_fake_body k sfd ffd pkt real pos fa opt w;
         let w = (if mapped then snd (sys k (Munmap ffd pos) w) else w);
         let w = snd (sys k (Close ffd) w);
         Some (len, w)
       }
     }
   }"

abbreviation (input) MSG_OOB :: int where "MSG_OOB \<equiv> 1"

definition send_oob ::
  "kernel \<Rightarrow> int \<Rightarrow> bytes \<Rightarrow> int \<Rightarrow> int \<Rightarrow> byte \<times> byte \<Rightarrow> world \<Rightarrow> (int \<times> world) option" where
  "send_oob k sfd buffer lp pos c w = do {
     c_assert (0 \<le> lp + pos);
     rchar \<leftarrow> rd buffer (nat (lp + pos));
     b1 \<leftarrow> wr buffer (nat (lp + pos)) (if snd c \<noteq> 0 then fst c else of_char (CHR ''a''));
     bs \<leftarrow> rdn b1 lp (pos + 1);
     let (r, w) = sys k (Send sfd bs MSG_OOB) w;
     if ret r < 0 then Some (- 1, w)
     else Some (ret r - 1, wait_send_if_support k sfd w)
   }"

definition send_disorder ::
  "kernel \<Rightarrow> int \<Rightarrow> bytes \<Rightarrow> int \<Rightarrow> int \<Rightarrow> int \<Rightarrow> world \<Rightarrow> (int \<times> world) option" where
  "send_disorder k sfd buffer lp pos fa w = do {
     let (t, w) = setttl k sfd 1 fa w;
     if t < 0 then Some (- 1, w)
     else do {
       bs \<leftarrow> rdn buffer lp pos;
       let (r, w) = sys k (Send sfd bs 0) w;
       let w = (if ret r < 0 then w else wait_send_if_support k sfd w);
       let (t, w) = setttl k sfd (def_ttl (prm w)) fa w;
       Some (if t < 0 then - 1 else ret r, w)
     }
   }"

definition send_late_oob ::
  "kernel \<Rightarrow> int \<Rightarrow> bytes \<Rightarrow> int \<Rightarrow> int \<Rightarrow> int \<Rightarrow> byte \<times> byte \<Rightarrow> world \<Rightarrow> (int \<times> world) option" where
  "send_late_oob k sfd buffer lp pos fa c w = do {
     let (t, w) = setttl k sfd 1 fa w;
     if t < 0 then Some (- 1, w)
     else do {
       (len, w) \<leftarrow> send_oob k sfd buffer lp pos c w;
       let (t, w) = setttl k sfd (def_ttl (prm w)) fa w;
       Some (if t < 0 then - 1 else len, w)
     }
   }"

section \<open>desync\<close>

text \<open>
  The TLS record loop. \<open>lp\<close> is where the last record starts; \<open>part_tls\<close> works on the memory
  from there on. The result is the buffer and the new packet size.
\<close>

fun tlsrec_loop :: "part list \<Rightarrow> int \<Rightarrow> bytes \<Rightarrow> int \<Rightarrow> int \<Rightarrow> int \<Rightarrow> int \<Rightarrow> (bytes \<times> int) option" where
  "tlsrec_loop [] i buffer bfsz n lp host = Some (buffer, n)"
| "tlsrec_loop (p # ps) i buffer bfsz n lp host = do {
     let pos0 = p_pos p + i * 5;
     let pos = (if p_flag p = OFFSET_SNI then pos0 + (host - 5)
                else if pos0 < 0 then pos0 + n else pos0);
     if pos < lp then Some (buffer, n)
     else do {
       (r, b') \<leftarrow> part_tls (drop (nat lp) buffer) (bfsz - lp) (n - lp) (pos - lp);
       let buffer' = take (nat lp) buffer @ b';
       if r = 0 then Some (buffer', n)
       else tlsrec_loop ps (i + 1) buffer' bfsz (n + 5) (pos + 5) host
     }
   }"

text \<open>The send of one part, by its mode.\<close>

definition send_part ::
  "kernel \<Rightarrow> int \<Rightarrow> bytes \<Rightarrow> int \<Rightarrow> int \<Rightarrow> int \<Rightarrow> int \<Rightarrow> demode \<Rightarrow> desync_params \<Rightarrow> world \<Rightarrow> (int \<times> world) option" where
  "send_part k sfd buffer lp ty len fa m d w =
     (case m of
        DESYNC_FAKE \<Rightarrow> if len \<noteq> 0 then send_fake k sfd buffer lp ty len fa d w else Some (0, w)
      | DESYNC_DISORDER \<Rightarrow> send_disorder k sfd buffer lp len fa w
      | DESYNC_OOB \<Rightarrow> send_oob k sfd buffer lp len (oob_char d) w
      | DESYNC_DISOOB \<Rightarrow> send_late_oob k sfd buffer lp len fa (oob_char d) w
      | _ \<Rightarrow> do {
          bs \<leftarrow> rdn buffer lp len;
          let (r, w) = sys k (Send sfd bs 0) w;
          Some (ret r, wait_send_if_support k sfd w)
        })"

text \<open>The split position of a part; \<open>None\<close> when the part does not apply to this packet.\<close>

definition part_pos :: "part \<Rightarrow> int \<Rightarrow> int \<Rightarrow> int \<Rightarrow> int option" where
  "part_pos p ty n host =
     (if p_flag p = OFFSET_SNI then (if ty \<noteq> IS_HTTPS then None else Some (p_pos p + host))
      else if p_flag p = OFFSET_HOST then (if ty \<noteq> IS_HTTP then None else Some (p_pos p + host))
      else if p_pos p < 0 \<or> p_flag p = OFFSET_END then Some (p_pos p + n)
      else Some (p_pos p))"

text \<open>\<open>Inl\<close> is an early return, \<open>Inr lp\<close> the end of the loop with the position reached.\<close>

fun parts_loop ::
  "part list \<Rightarrow> kernel \<Rightarrow> int \<Rightarrow> bytes \<Rightarrow> int \<Rightarrow> int \<Rightarrow> int \<Rightarrow> int \<Rightarrow> int \<Rightarrow> int \<Rightarrow> desync_params \<Rightarrow> world \<Rightarrow>
   ((int + int) \<times> world) option" where
  "parts_loop [] k sfd buffer n offset lp ty host fa d w = Some (Inr lp, w)"
| "parts_loop (p # ps) k sfd buffer n offset lp ty host fa d w =
     (case part_pos p ty n host of
        None \<Rightarrow> parts_loop ps k sfd buffer n offset lp ty host fa d w
      | Some pos \<Rightarrow>
          if offset \<noteq> 0 \<and> pos \<le> offset
          then parts_loop ps k sfd buffer n offset lp ty host fa d w
          else if pos < 0 \<or> n < pos \<or> pos < lp then Some (Inr lp, w)
          else do {
            (s, w) \<leftarrow> send_part k sfd buffer lp ty (pos - lp) fa (p_m p) d w;
            if s < 0 then Some (Inl (if errno w = EAGAIN then lp else - 1), w)
            else if s \<noteq> pos - lp then Some (Inl (lp + s), w)
            else parts_loop ps k sfd buffer n offset pos ty host fa d w
          })"

definition send_rest :: "kernel \<Rightarrow> int \<Rightarrow> bytes \<Rightarrow> int \<Rightarrow> int \<Rightarrow> world \<Rightarrow> (int \<times> world) option" where
  "send_rest k sfd buffer n lp w =
     (if lp < n then do {
        bs \<leftarrow> rdn buffer lp (n - lp);
        let (r, w) = sys k (Send sfd bs 0) w;
        Some (if ret r < 0 then (if errno w = EAGAIN then lp else - 1) else n, w)
      }
      else Some (n, w))"

text \<open>The kind of the packet and the position of its host name.\<close>

definition classify :: "bytes \<Rightarrow> nat \<Rightarrow> (int \<times> int) option" where
  "classify buffer n = do {
     (l, h) \<leftarrow> parse_tls buffer n;
     if l \<noteq> 0 then Some (IS_HTTPS, int (case h of Some x \<Rightarrow> x | None \<Rightarrow> 0))
     else do {
       (l, h, _) \<leftarrow> parse_http buffer n False;
       Some (if l \<noteq> 0 then IS_HTTP else 0, int (case h of Some x \<Rightarrow> x | None \<Rightarrow> 0))
     }
   }"

definition modify_packet :: "desync_params \<Rightarrow> int \<Rightarrow> int \<Rightarrow> bytes \<Rightarrow> int \<Rightarrow> int \<Rightarrow> (bool \<times> bytes \<times> int) option" where
  "modify_packet d ty host buffer bfsz n =
     (if ty = IS_HTTP \<and> mod_http_f d \<noteq> 0 then do {
        (r, b) \<leftarrow> mod_http buffer (nat n) (mod_http_f d);
        Some (r = 0, b, n)
      }
      else if ty = IS_HTTPS \<and> tlsrec d \<noteq> [] then do {
        (b, n') \<leftarrow> tlsrec_loop (tlsrec d) 0 buffer bfsz n 0 host;
        Some (True, b, n')
      }
      else Some (True, buffer, n))"

definition desync ::
  "kernel \<Rightarrow> int \<Rightarrow> bytes \<Rightarrow> int \<Rightarrow> int \<Rightarrow> int \<Rightarrow> bytes \<Rightarrow> int \<Rightarrow> world \<Rightarrow> (int \<times> bytes \<times> world) option" where
  "desync k sfd buffer bfsz n offset dst dp_c w = do {
     c_assert (0 \<le> dp_c \<and> nat dp_c < length (dp (prm w)));
     let d = dp (prm w) ! nat dp_c;
     let fa = get_family dst;
     (ty, host) \<leftarrow> classify buffer (nat n);
     (ok, b, n') \<leftarrow> modify_packet d ty host buffer bfsz n;
     if \<not> ok then Some (- 1, b, w)
     else do {
       let (s, w) = (if drop_sack d then drop_sack_fd k sfd w else (0, w));
       if s \<noteq> 0 then Some (- 1, b, w)
       else do {
         (res, w) \<leftarrow> parts_loop (parts d) k sfd b n' offset offset ty host fa d w;
         case res of
           Inl r \<Rightarrow> Some (r, b, w)
         | Inr lp \<Rightarrow> do { (r, w) \<leftarrow> send_rest k sfd b n' lp w; Some (r, b, w) }
       }
     }
   }"

definition post_desync :: "kernel \<Rightarrow> int \<Rightarrow> int \<Rightarrow> world \<Rightarrow> (int \<times> world) option" where
  "post_desync k sfd dp_c w = do {
     c_assert (0 \<le> dp_c \<and> nat dp_c < length (dp (prm w)));
     if drop_sack (dp (prm w) ! nat dp_c) then do {
       let (r, w) = sys k (Setsockopt sfd SO_DETACH_FILTER [dp_c]) w;
       Some (if ret r = - 1 then - 1 else 0, w)
     }
     else Some (0, w)
   }"

text \<open>The fakes before a UDP datagram: \<open>n\<close> of them are left to send.\<close>

fun udp_fakes :: "nat \<Rightarrow> kernel \<Rightarrow> int \<Rightarrow> bytes \<Rightarrow> bytes \<Rightarrow> world \<Rightarrow> bool \<times> world" where
  "udp_fakes 0 k sfd pkt dst w = (True, w)"
| "udp_fakes (Suc n) k sfd pkt dst w =
     (let (r, w) = sys k (Sendto sfd pkt dst) w
      in if ret r < 0 then (False, w) else udp_fakes n k sfd pkt dst w)"

definition fake_udp_packet :: "params \<Rightarrow> desync_params \<Rightarrow> bytes option" where
  "fake_udp_packet pr d =
     (let pkt = (case fake_data d of Some x \<Rightarrow> x | None \<Rightarrow> fake_udp pr)
      in if fake_offset d \<noteq> 0 then
           (if fake_offset d < int (length pkt)
            then do { c_assert (0 \<le> fake_offset d); Some (drop (nat (fake_offset d)) pkt) }
            else Some [])
         else Some pkt)"

definition desync_udp ::
  "kernel \<Rightarrow> int \<Rightarrow> bytes \<Rightarrow> int \<Rightarrow> int \<Rightarrow> bytes \<Rightarrow> int \<Rightarrow> world \<Rightarrow> (int \<times> world) option" where
  "desync_udp k sfd buffer start n dst dp_c w = do {
     c_assert (0 \<le> dp_c \<and> nat dp_c < length (dp (prm w)));
     let d = dp (prm w) ! nat dp_c;
     let fa = get_family dst;
     bs \<leftarrow> rdn buffer start n;
     if udp_fake_count d \<noteq> 0 then do {
       pkt \<leftarrow> fake_udp_packet (prm w) d;
       let (t, w) = setttl k sfd (if ttl d \<noteq> 0 then ttl d else 8) fa w;
       if t < 0 then Some (- 1, w)
       else do {
         let (ok, w) = udp_fakes (nat (udp_fake_count d)) k sfd pkt dst w;
         if \<not> ok then Some (- 1, w)
         else do {
           let (t, w) = setttl k sfd (def_ttl (prm w)) fa w;
           if t < 0 then Some (- 1, w)
           else do { let (r, w) = sys k (Sendto sfd bs dst) w; Some (ret r, w) }
         }
       }
     }
     else do { let (r, w) = sys k (Sendto sfd bs dst) w; Some (ret r, w) }
   }"

section \<open>What reaches the peer\<close>

text \<open>
  The stream a trace puts on a connection: the bytes of plain sends, of an urgent send all but
  the urgent byte, and for \<open>sendfile\<close> the content the mapping has when the segment is sent
  again, which is the next write to it. The second component is the size of a \<open>sendfile\<close>
  whose content is not final yet.
\<close>

fun stream_step :: "int \<Rightarrow> bytes \<times> nat option \<Rightarrow> call \<times> reply \<Rightarrow> bytes \<times> nat option" where
  "stream_step sfd (bs, pend) (Send f xs fl, r) =
     (if f = sfd \<and> 0 \<le> ret r
      then (bs @ take (nat (if fl = MSG_OOB then ret r - 1 else ret r)) xs, pend) else (bs, pend))"
| "stream_step sfd (bs, pend) (Sendfile f ffd n, r) =
     (if f = sfd \<and> 0 \<le> ret r then (bs, Some (nat (ret r))) else (bs, pend))"
| "stream_step sfd (bs, pend) (Map_write ffd xs, r) =
     (case pend of Some m \<Rightarrow> (bs @ take m xs, None) | None \<Rightarrow> (bs, None))"
| "stream_step sfd s _ = s"

definition stream :: "int \<Rightarrow> trace \<Rightarrow> bytes \<times> nat option" where
  "stream sfd h = foldl (stream_step sfd) ([], None) h"

text \<open>
  What the kernel promises: it accepts no more than it is given, an urgent send that succeeds
  takes at least the urgent byte, and setting an option does not fail with \<open>EAGAIN\<close>.
\<close>

definition send_contract :: "kernel \<Rightarrow> bool" where
  "send_contract k \<longleftrightarrow>
     (\<forall>h f bs. ret (k h (Send f bs MSG_OOB)) \<le> int (length bs) \<and> (bs \<noteq> [] \<longrightarrow> ret (k h (Send f bs MSG_OOB)) \<noteq> 0))
     \<and> (\<forall>h f bs. ret (k h (Send f bs 0)) \<le> int (length bs))
     \<and> (\<forall>h f ffd n. 0 \<le> n \<longrightarrow> ret (k h (Sendfile f ffd n)) \<le> n)
     \<and> (\<forall>h f o' v. ret (k h (Setsockopt f o' v)) < 0 \<longrightarrow> err (k h (Setsockopt f o' v)) \<noteq> EAGAIN)"

lemma stream_append: "stream sfd (h @ es) = foldl (stream_step sfd) (stream sfd h) es"
  by (simp add: stream_def)

lemma stream_snoc: "stream sfd (h @ [e]) = stream_step sfd (stream sfd h) e"
  by (simp add: stream_def)

lemma step_quiet:
  "stream_step sfd s (Setsockopt f o' v, r) = s" "stream_step sfd s (Getsockopt f o', r) = s"
  "stream_step sfd s (Nanosleep n, r) = s" "stream_step sfd s (Memfd_create, r) = s"
  "stream_step sfd s (Getpeername f, r) = s" "stream_step sfd s (Ftruncate f n, r) = s"
  "stream_step sfd s (Mmap f n, r) = s" "stream_step sfd s (Munmap f n, r) = s"
  "stream_step sfd s (Close f, r) = s"
  by (cases s; simp)+

lemma delay_quiet: "stream sfd (hist (delay k ms w)) = stream sfd (hist w)"
  by (simp add: delay_def stream_snoc step_quiet)

lemma setttl_quiet:
  assumes "setttl k f t fam w = (r, w')"
  shows "stream sfd (hist w') = stream sfd (hist w)"
  using assms by (auto simp: setttl_def stream_snoc step_quiet split_beta Let_def)

lemma setttl_errno:
  assumes "setttl k f t fam w = (r, w')" and "send_contract k" and "r < 0"
  shows "errno w' \<noteq> EAGAIN"
  using assms by (auto simp: setttl_def sys_def send_contract_def Let_def split: if_splits)

lemma setttl_errno_ok:
  assumes "setttl k f t fam w = (r, w')" and "\<not> r < 0"
  shows "errno w' = errno w"
  using assms by (auto simp: setttl_def sys_def Let_def split: if_splits)

lemma opt_sockopt_quiet:
  assumes "opt_sockopt k c f o' v w = (r, w')"
  shows "stream sfd (hist w') = stream sfd (hist w)"
  using assms by (auto simp: opt_sockopt_def stream_snoc step_quiet split_beta Let_def split: if_splits)

lemma wait_send_loop_quiet: "stream sfd (hist (snd (wait_send_loop n k f w))) = stream sfd (hist w)"
proof (induction n arbitrary: w)
  case (Suc n)
  show ?case
    by (auto simp: Suc split_beta Let_def stream_snoc step_quiet delay_quiet split: list.splits)
qed simp

lemma wait_send_quiet: "stream sfd (hist (wait_send k f w)) = stream sfd (hist w)"
  using wait_send_loop_quiet[of sfd 500 k f w] by (simp add: wait_send_def split_beta Let_def delay_quiet)

lemma wait_send_if_quiet: "stream sfd (hist (wait_send_if_support k f w)) = stream sfd (hist w)"
  by (simp add: wait_send_if_support_def wait_send_quiet)

lemma map_write_stream:
  "stream sfd (hist (map_write ffd xs w)) =
   (case stream sfd (hist w) of (bs, Some m) \<Rightarrow> (bs @ take m xs, None) | (bs, None) \<Rightarrow> (bs, None))"
  by (cases "stream sfd (hist w)") (simp add: map_write_def stream_snoc split: option.splits)

lemma sys_stream:
  "sys k c w = (r, w') \<Longrightarrow> stream sfd (hist w') = stream_step sfd (stream sfd (hist w)) (c, r)"
  by (auto simp: sys_def Let_def stream_snoc)

lemmas quiet = setttl_quiet opt_sockopt_quiet wait_send_quiet wait_send_if_quiet step_quiet

text \<open>
  The body of \<open>send_fake\<close>: what it returns is what arrives, and it is the real content.
\<close>

lemma send_fake_body_stream:
  assumes body: "send_fake_body k sfd ffd pkt real pos fa opt w = (m, len, w')"
    and st: "stream sfd (hist w) = (x, None)"
  shows "stream sfd (hist w') = (x @ take (nat len) real, None)"
proof -
  note q = sys_stream[of k _ _ _ _ sfd] setttl_quiet[of k _ _ _ _ _ _ sfd] opt_sockopt_quiet[of k _ _ _ _ _ _ _ sfd]
  from body show ?thesis
    unfolding send_fake_body_def Let_def
    by (auto simp: st step_quiet map_write_stream wait_send_quiet
        dest!: q(1) q(2) q(3) split: prod.splits if_splits)
qed

lemma send_fake_body_le:
  assumes "send_fake_body k sfd ffd pkt real pos fa opt w = (m, len, w')" and "send_contract k" and "0 \<le> pos"
  shows "len \<le> pos"
  using assms unfolding send_fake_body_def Let_def
  by (auto simp: send_contract_def sys_def Let_def split: prod.splits if_splits)

lemma send_fake_stream:
  assumes fk: "send_fake k sfd buffer lp cnt pos fa opt w = Some (s, w')"
    and st: "stream sfd (hist w) = (x, None)" and real: "rdn buffer lp pos = Some real"
  shows "stream sfd (hist w') = (x @ take (nat s) real, None)"
proof -
  obtain g w1 where g: "(if md5sig opt then let (r, w) = sys k (Getpeername sfd) w in (ret r, w) else (0, w)) = (g, w1)"
    by force
  have h1: "stream sfd (hist w1) = (x, None)"
    using g st by (auto simp: split_beta Let_def stream_snoc step_quiet split: if_splits)
  obtain r w2 where r: "sys k Memfd_create w1 = (r, w2)" by force
  have h2: "stream sfd (hist w2) = (x, None)"
    using sys_stream[OF r, of sfd] h1 by (simp add: step_quiet)
  show ?thesis
  proof (cases "g < 0 \<or> ret r < 0")
    case True
    then show ?thesis
      using fk g r h1 h2 by (auto simp: send_fake_def bind_eq_Some_conv Let_def split: if_splits)
  next
    case False
    obtain pkt where pkt: "fake_packet (prm w1) opt cnt = Some pkt"
      using fk g False by (auto simp: send_fake_def bind_eq_Some_conv)
    obtain m len w3 where b: "send_fake_body k sfd (ret r) pkt real pos fa opt w2 = (m, len, w3)"
      using prod_cases3 by blast
    have "s = len" and w': "w' = snd (sys k (Close (ret r)) (if m then snd (sys k (Munmap (ret r) pos) w3) else w3))"
      using fk g r pkt real b False by (simp_all add: send_fake_def Let_def)
    then show ?thesis
      using send_fake_body_stream[OF b h2] by (simp add: stream_append step_quiet)
  qed
qed

lemma send_oob_stream:
  assumes s: "send_oob k sfd buffer lp pos c w = Some (s, w')" and k: "send_contract k"
    and st: "stream sfd (hist w) = (x, None)" and real: "rdn buffer lp pos = Some real"
  shows "stream sfd (hist w') = (x @ take (nat s) real, None)"
proof -
  define i where "i = nat (lp + pos)"
  define v where "v = (if snd c \<noteq> 0 then fst c else of_char (CHR ''a'') :: byte)"
  define w1 where "w1 = snd (sys k (Send sfd (take (nat (pos + 1)) (drop (nat lp) (buffer[i := v]))) 1) w)"
  define r where "r = fst (sys k (Send sfd (take (nat (pos + 1)) (drop (nat lp) (buffer[i := v]))) 1) w)"
  have b: "0 \<le> lp" "0 \<le> pos" "lp + pos < int (length buffer)" "real = take (nat pos) (drop (nat lp) buffer)"
    using s real by (auto simp: send_oob_def rdn_def rd_def bind_eq_Some_conv split: if_splits)
  have res: "(s, w') = (if ret r < 0 then (- 1, w1) else (ret r - 1, wait_send_if_support k sfd w1))"
    using s b by (auto simp: send_oob_def rdn_def rd_def wr_def bind_eq_Some_conv i_def[symmetric] v_def[symmetric]
        r_def w1_def Let_def split_beta split: if_splits)
  have le: "ret r \<le> pos + 1" "ret r \<noteq> 0"
  proof -
    have "ret r \<le> int (length (take (nat (pos + 1)) (drop (nat lp) (buffer[i := v]))))"
      unfolding r_def sys_def Let_def fst_conv using k unfolding send_contract_def by blast
    then show "ret r \<le> pos + 1"
      using b by simp
    have "take (nat (pos + 1)) (drop (nat lp) (buffer[i := v])) \<noteq> []"
      using b by simp
    then show "ret r \<noteq> 0"
      unfolding r_def sys_def Let_def fst_conv using k unfolding send_contract_def by blast
  qed
  have h1: "stream sfd (hist w1) = (if 0 \<le> ret r
      then (x @ take (nat (ret r - 1)) (take (nat (pos + 1)) (drop (nat lp) (buffer[i := v]))), None) else (x, None))"
    by (simp add: w1_def r_def stream_snoc st)
  show ?thesis
  proof (cases "ret r < 0")
    case True
    then show ?thesis using res h1 by simp
  next
    case False
    have cut: "take m (drop (nat lp) (buffer[i := v])) = take m (drop (nat lp) buffer)" if "m \<le> nat pos" for m
    proof -
      have "nat lp + m \<le> i"
        using that b by (simp add: i_def nat_add_distrib)
      then show ?thesis
        by (simp add: take_drop add.commute)
    qed
    have "nat (ret r - 1) \<le> nat pos"
      using le by simp
    then have "take (nat (ret r - 1)) (take (nat (pos + 1)) (drop (nat lp) (buffer[i := v]))) = take (nat (ret r - 1)) real"
      using b cut by (simp add: min_absorb1)
    then show ?thesis
      using False res h1 by (simp add: wait_send_if_quiet)
  qed
qed

lemma send_disorder_stream:
  assumes s: "send_disorder k sfd buffer lp pos fa w = Some (s, w')" and k: "send_contract k"
    and ok: "0 \<le> s \<or> errno w' = EAGAIN"
    and st: "stream sfd (hist w) = (x, None)" and real: "rdn buffer lp pos = Some real"
  shows "stream sfd (hist w') = (x @ take (nat s) real, None)"
proof -
  obtain t1 w1 where t1: "setttl k sfd 1 fa w = (t1, w1)" by force
  obtain r w2 where r: "sys k (Send sfd real 0) w1 = (r, w2)" by force
  define w3 where "w3 = (if ret r < 0 then w2 else wait_send_if_support k sfd w2)"
  obtain t2 w4 where t2: "setttl k sfd (def_ttl (prm w3)) fa w3 = (t2, w4)" by force
  have h: "stream sfd (hist w1) = (x, None)"
    "stream sfd (hist w4) = (if 0 \<le> ret r then (x @ take (nat (ret r)) real, None) else (x, None))"
    using setttl_quiet[OF t1, of sfd] sys_stream[OF r, of sfd] setttl_quiet[OF t2, of sfd] st
    by (auto simp: w3_def wait_send_if_quiet)
  show ?thesis
  proof (cases "t1 < 0")
    case True
    then show ?thesis using s t1 h by (auto simp: send_disorder_def)
  next
    case False
    then have "s = (if t2 < 0 then - 1 else ret r)" "w' = w4"
      using s t1 r t2 real by (auto simp: send_disorder_def w3_def Let_def)
    moreover have "\<not> t2 < 0"
      using ok setttl_errno[OF t2 k] calculation by auto
    ultimately show ?thesis
      using h by simp
  qed
qed

lemma send_late_oob_stream:
  assumes s: "send_late_oob k sfd buffer lp pos fa c w = Some (s, w')" and k: "send_contract k"
    and ok: "0 \<le> s \<or> errno w' = EAGAIN"
    and st: "stream sfd (hist w) = (x, None)" and real: "rdn buffer lp pos = Some real"
  shows "stream sfd (hist w') = (x @ take (nat s) real, None)"
proof -
  obtain t1 w1 where t1: "setttl k sfd 1 fa w = (t1, w1)" by force
  have h1: "stream sfd (hist w1) = (x, None)"
    using setttl_quiet[OF t1, of sfd] st by simp
  show ?thesis
  proof (cases "t1 < 0")
    case True
    then show ?thesis using s t1 h1 by (auto simp: send_late_oob_def)
  next
    case False
    then obtain len w2 where len: "send_oob k sfd buffer lp pos c w1 = Some (len, w2)"
      using s t1 by (auto simp: send_late_oob_def bind_eq_Some_conv)
    obtain t2 w3 where t2: "setttl k sfd (def_ttl (prm w2)) fa w2 = (t2, w3)" by force
    have res: "s = (if t2 < 0 then - 1 else len)" "w' = w3"
      using s t1 False len t2 by (auto simp: send_late_oob_def)
    have "\<not> t2 < 0"
      using ok setttl_errno[OF t2 k] res by auto
    then show ?thesis
      using send_oob_stream[OF len k h1 real] setttl_quiet[OF t2, of sfd] res by simp
  qed
qed

lemma send_part_stream:
  assumes s: "send_part k sfd buffer lp ty len fa m d w = Some (s, w')" and k: "send_contract k"
    and ok: "0 \<le> s \<or> errno w' = EAGAIN"
    and st: "stream sfd (hist w) = (x, None)" and real: "rdn buffer lp len = Some real"
  shows "stream sfd (hist w') = (x @ take (nat s) real, None)"
proof (cases m)
  case DESYNC_FAKE
  then show ?thesis
    using s send_fake_stream[OF _ st real] st by (auto simp: send_part_def split: if_splits)
next
  case DESYNC_DISORDER
  then show ?thesis
    using s send_disorder_stream[OF _ k ok st real] by (auto simp: send_part_def)
next
  case DESYNC_OOB
  then show ?thesis
    using s send_oob_stream[OF _ k st real] by (auto simp: send_part_def)
next
  case DESYNC_DISOOB
  then show ?thesis
    using s send_late_oob_stream[OF _ k ok st real] by (auto simp: send_part_def)
next
  case DESYNC_NONE
  then show ?thesis
    using s real st by (auto simp: send_part_def Let_def split_beta stream_snoc wait_send_if_quiet)
next
  case DESYNC_SPLIT
  then show ?thesis
    using s real st by (auto simp: send_part_def Let_def split_beta stream_snoc wait_send_if_quiet)
qed

lemma length_rdn: "rdn b i n = Some xs \<Longrightarrow> int (length xs) = n \<and> 0 \<le> n"
  by (auto simp: rdn_def split: if_splits)

lemma send_le:
  assumes "send_contract k" and "fl = 0 \<or> fl = MSG_OOB"
  shows "ret (fst (sys k (Send f bs fl) w)) \<le> int (length bs)"
proof -
  have "ret (k (hist w) (Send f bs 0)) \<le> int (length bs)"
    using assms(1) unfolding send_contract_def by blast
  moreover have "ret (k (hist w) (Send f bs MSG_OOB)) \<le> int (length bs)"
    using assms(1) unfolding send_contract_def by blast
  ultimately show ?thesis
    using assms(2) by (auto simp: sys_def Let_def)
qed

lemma send_oob_le:
  assumes s: "send_oob k sfd buffer lp pos c w = Some (s, w')" and k: "send_contract k" and pos: "0 \<le> pos"
  shows "s \<le> pos"
proof -
  obtain b1 bs where bs: "rdn b1 lp (pos + 1) = Some bs"
    and s: "s = - 1 \<or> s = ret (fst (sys k (Send sfd bs MSG_OOB) w)) - 1"
    using s by (auto simp: send_oob_def bind_eq_Some_conv Let_def split_beta split: if_splits)
  then show ?thesis
    using send_le[OF k, of MSG_OOB sfd bs w] length_rdn[OF bs] pos by auto
qed

lemma send_fake_le:
  assumes s: "send_fake k sfd buffer lp cnt pos fa opt w = Some (s, w')" and k: "send_contract k" and pos: "0 \<le> pos"
  shows "s \<le> pos"
proof -
  have "fst (snd (send_fake_body k sfd ffd pkt real pos fa opt w1)) \<le> pos" for ffd pkt real w1
    using send_fake_body_le[OF _ k pos] by (metis prod.collapse)
  then show ?thesis
    using s pos by (auto simp: send_fake_def bind_eq_Some_conv Let_def split_beta split: if_splits)
qed

lemma send_part_le:
  assumes s: "send_part k sfd buffer lp ty len fa m d w = Some (s, w')" and k: "send_contract k"
    and real: "rdn buffer lp len = Some real"
  shows "s \<le> len"
proof -
  have len: "int (length real) = len" "0 \<le> len"
    using length_rdn[OF real] by auto
  have plain: "ret (fst (sys k (Send sfd real 0) w1)) \<le> len" for w1
    using send_le[OF k, of 0 sfd real w1] len by simp
  show ?thesis
  proof (cases m)
    case DESYNC_FAKE
    then show ?thesis
      using s len send_fake_le[OF _ k] by (auto simp: send_part_def split: if_splits)
  next
    case DESYNC_DISORDER
    then show ?thesis
      using s len real plain by (auto simp: send_part_def send_disorder_def Let_def split_beta split: if_splits)
  next
    case DESYNC_OOB
    then show ?thesis
      using s len send_oob_le[OF _ k] by (auto simp: send_part_def)
  next
    case DESYNC_DISOOB
    then show ?thesis
      using s len
      by (auto simp: send_part_def send_late_oob_def bind_eq_Some_conv Let_def split_beta split: if_splits
          dest!: send_oob_le[OF _ k])
  next
    case DESYNC_NONE
    then show ?thesis
      using s real plain by (auto simp: send_part_def Let_def split_beta)
  next
    case DESYNC_SPLIT
    then show ?thesis
      using s real plain by (auto simp: send_part_def Let_def split_beta)
  qed
qed

lemma rdn_split:
  assumes "rdn b lp (n - lp) = Some all" and "lp \<le> pos" and "pos \<le> n"
  shows "rdn b lp (pos - lp) = Some (take (nat (pos - lp)) all)"
    and "rdn b pos (n - pos) = Some (drop (nat (pos - lp)) all)"
proof -
  have b: "0 \<le> lp" "n \<le> int (length b)" "all = take (nat (n - lp)) (drop (nat lp) b)"
    using assms by (auto simp: rdn_def split: if_splits)
  then show "rdn b lp (pos - lp) = Some (take (nat (pos - lp)) all)"
    using assms(2,3) by (simp add: rdn_def min_absorb1)
  have "drop (nat (pos - lp)) all = take (nat (n - pos)) (drop (nat pos) b)"
    using b assms(2,3) by (simp add: drop_take nat_diff_distrib)
  then show "rdn b pos (n - pos) = Some (drop (nat (pos - lp)) all)"
    using b assms(2,3) by (simp add: rdn_def)
qed

text \<open>
  The loop over the parts sends a prefix of the packet from \<open>lp\<close> on: what it reports, as a
  result that is not an error or as the position where the rest starts, is what arrived.
\<close>

lemma parts_loop_stream:
  assumes "parts_loop ps k sfd buffer n offset lp ty host fa d w = Some (res, w')" and "send_contract k"
    and "stream sfd (hist w) = (x, None)" and "rdn buffer lp (n - lp) = Some all" and "lp \<le> n"
    and "0 \<le> lp"
  shows "case res of
      Inl r \<Rightarrow> 0 \<le> r \<longrightarrow> lp \<le> r \<and> r \<le> n \<and> stream sfd (hist w') = (x @ take (nat (r - lp)) all, None)
    | Inr q \<Rightarrow> lp \<le> q \<and> q \<le> n \<and> stream sfd (hist w') = (x @ take (nat (q - lp)) all, None)"
  using assms
proof (induction ps arbitrary: lp w x all)
  case Nil
  then show ?case by auto
next
  case (Cons p ps)
  show ?case
  proof (cases "part_pos p ty n host")
    case None
    then show ?thesis using Cons.IH[OF _ Cons.prems(2-6)] Cons.prems(1) by simp
  next
    case (Some pos)
    consider "offset \<noteq> 0 \<and> pos \<le> offset" | "\<not> (offset \<noteq> 0 \<and> pos \<le> offset)" "pos < 0 \<or> n < pos \<or> pos < lp"
      | "\<not> (offset \<noteq> 0 \<and> pos \<le> offset)" "0 \<le> pos" "pos \<le> n" "lp \<le> pos"
      by linarith
    then show ?thesis
    proof cases
      case 1
      then show ?thesis using Some Cons.IH[OF _ Cons.prems(2-6)] Cons.prems(1) by simp
    next
      case 2
      then show ?thesis using Some Cons.prems by auto
    next
      case 3
      obtain s w1 where s: "send_part k sfd buffer lp ty (pos - lp) fa (p_m p) d w = Some (s, w1)"
        using Some Cons.prems(1) 3 by (auto simp: bind_eq_Some_conv split: if_splits)
      note real = rdn_split[OF Cons.prems(4) 3(4,3)]
      have arrived: "stream sfd (hist w1) = (x @ take (nat s) (take (nat (pos - lp)) all), None)"
        if "0 \<le> s \<or> errno w1 = EAGAIN"
        using send_part_stream[OF s Cons.prems(2) that Cons.prems(3) real(1)] .
      consider "s < 0" | "0 \<le> s" "s \<noteq> pos - lp" | "s = pos - lp" "0 \<le> s"
        using 3 by linarith
      then show ?thesis
      proof cases
        case c: 1
        then show ?thesis
          using Some Cons.prems(1,5,6) 3 s arrived by (auto simp: not_less split: if_splits)
      next
        case c: 2
        then have "res = Inl (lp + s)" "w' = w1"
          using Some Cons.prems(1) 3 s by (auto split: if_splits)
        moreover have "take (nat s) (take (nat (pos - lp)) all) = take (nat s) all"
          using send_part_le[OF s Cons.prems(2) real(1)] c by (simp add: min_absorb1)
        moreover have "lp + s \<le> n"
          using send_part_le[OF s Cons.prems(2) real(1)] 3 by simp
        ultimately show ?thesis
          using arrived c by simp
      next
        case c: 3
        then have rec: "parts_loop ps k sfd buffer n offset pos ty host fa d w1 = Some (res, w')"
          using Some Cons.prems(1) 3 s by (auto split: if_splits)
        have st1: "stream sfd (hist w1) = (x @ take (nat (pos - lp)) all, None)"
          using arrived c by simp
        have app: "take (nat (pos - lp)) all @ take (nat (r - pos)) (drop (nat (pos - lp)) all) = take (nat (r - lp)) all"
          if "pos \<le> r" for r
        proof -
          have "nat (r - lp) = nat (pos - lp) + nat (r - pos)"
            using that 3 by simp
          then show ?thesis
            by (simp only: take_add)
        qed
        show ?thesis
          using Cons.IH[OF rec Cons.prems(2) st1 real(2) 3(3,2)] app 3(4)
          by (auto split: sum.splits)
      qed
    qed
  qed
qed

text \<open>
  The rest of the packet goes out in one plain send. A short one is not noticed: the result is
  the end of the packet all the same. \<open>rest_sent\<close> is how much of \<open>m\<close> bytes arrived.
\<close>

definition rest_sent :: "int \<Rightarrow> trace \<Rightarrow> nat \<Rightarrow> nat \<Rightarrow> bool" where
  "rest_sent sfd h m sent \<longleftrightarrow> sent = m
     \<or> sent < m \<and> (\<exists>h0 bs rp. h = h0 @ [(Send sfd bs 0, rp)] \<and> 0 \<le> ret rp \<and> ret rp < int (length bs)
                    \<and> int (m - sent) = int (length bs) - ret rp)"

lemma send_rest_stream:
  assumes "send_rest k sfd buffer n lp w = Some (r, w')" and k: "send_contract k"
    and st: "stream sfd (hist w) = (x, None)" and all: "rdn buffer lp (n - lp) = Some all" and "0 \<le> r"
    and "lp \<le> n" and "0 \<le> lp"
  shows "lp \<le> r \<and> (\<exists>sent. stream sfd (hist w') = (x @ take sent all, None) \<and> rest_sent sfd (hist w') (nat (r - lp)) sent)"
proof (cases "lp < n")
  case True
  define rp where "rp = fst (sys k (Send sfd all 0) w)"
  have le: "ret rp \<le> int (length all)"
    unfolding rp_def using send_le[OF k] by blast
  have len: "int (length all) = n - lp"
    using length_rdn[OF all] by simp
  have w': "w' = snd (sys k (Send sfd all 0) w)"
    and r: "r = (if ret rp < 0 then (if errno w' = EAGAIN then lp else - 1) else n)"
    using assms(1) True all by (auto simp: send_rest_def Let_def split_beta rp_def)
  have h: "hist w' = hist w @ [(Send sfd all 0, rp)]"
    by (simp add: w' rp_def)
  have stw: "stream sfd (hist w') = (if 0 \<le> ret rp then (x @ take (nat (ret rp)) all, None) else (x, None))"
    by (simp add: h stream_snoc st)
  show ?thesis
  proof (cases "ret rp < 0")
    case True
    then show ?thesis
      using stw r \<open>0 \<le> r\<close> by (intro conjI exI[of _ 0]) (auto simp: rest_sent_def split: if_splits)
  next
    case False
    then have "rest_sent sfd (hist w') (nat (r - lp)) (nat (ret rp))"
      using r le len h by (auto simp: rest_sent_def of_nat_diff)
    then show ?thesis
      using stw r False \<open>lp \<le> n\<close> by auto
  qed
next
  case False
  then show ?thesis
    using assms by (auto simp: send_rest_def rest_sent_def)
qed

lemma desync_parts:
  assumes run: "desync k sfd buffer bfsz n offset dst dp_c w = Some (r, b', w')" and ok: "0 \<le> r"
    and cl: "classify buffer (nat n) = Some (ty, host)"
    and md: "modify_packet (dp (prm w) ! nat dp_c) ty host buffer bfsz n = Some (True, b', n')"
    and st: "stream sfd (hist w) = (x, None)"
  shows "\<exists>d w1 res w2. stream sfd (hist w1) = (x, None) \<and>
    parts_loop (parts d) k sfd b' n' offset offset ty host (get_family dst) d w1 = Some (res, w2) \<and>
    (case res of Inl q \<Rightarrow> r = q \<and> w' = w2 | Inr lp \<Rightarrow> send_rest k sfd b' n' lp w2 = Some (r, w'))"
proof -
  define d where "d = dp (prm w) ! nat dp_c"
  obtain s w1 where s: "(if drop_sack d then drop_sack_fd k sfd w else (0, w)) = (s, w1)"
    by force
  have st1: "stream sfd (hist w1) = (x, None)"
    using s st by (auto simp: drop_sack_fd_def Let_def split_beta stream_snoc step_quiet split: if_splits)
  have s0: "s = 0"
    using run ok cl md s by (auto simp: desync_def Let_def bind_eq_Some_conv d_def[symmetric] split: if_splits)
  have eq: "do {
      (res, w) \<leftarrow> parts_loop (parts d) k sfd b' n' offset offset ty host (get_family dst) d w1;
      case res of
        Inl r \<Rightarrow> Some (r, b', w)
      | Inr lp \<Rightarrow> do { (r, w) \<leftarrow> send_rest k sfd b' n' lp w; Some (r, b', w) }
    } = Some (r, b', w')"
    using run cl md s s0 unfolding desync_def Let_def d_def[symmetric]
    by (cases "0 \<le> dp_c \<and> nat dp_c < length (dp (prm w))") (simp_all add: c_assert_def)
  then obtain res w2 where pl: "parts_loop (parts d) k sfd b' n' offset offset ty host (get_family dst) d w1 = Some (res, w2)"
    by (auto simp: bind_eq_Some_conv)
  have fin: "case res of Inl q \<Rightarrow> r = q \<and> w' = w2 | Inr lp \<Rightarrow> send_rest k sfd b' n' lp w2 = Some (r, w')"
    using eq pl by (auto simp: bind_eq_Some_conv split: sum.splits)
  show ?thesis using st1 pl fin by blast
qed

text \<open>
  C1. What \<open>desync\<close> puts on the connection, with every fake segment replaced by what the peer
  keeps of it, is the packet (as the HTTP and TLS modifications left it) from \<open>offset\<close> on, in
  order, without a gap and without a byte repeated: for any list of parts and modes and any
  pattern of short sends, up to the position the function returns. The one exception is the
  last plain send: when it is short, the function still reports the whole packet.
\<close>

theorem desync_delivers:
  assumes run: "desync k sfd buffer bfsz n offset dst dp_c w = Some (r, b', w')" and ok: "0 \<le> r"
    and cl: "classify buffer (nat n) = Some (ty, host)"
    and md: "modify_packet (dp (prm w) ! nat dp_c) ty host buffer bfsz n = Some (True, b', n')"
    and bounds: "n' \<le> int (length b')" "0 \<le> offset" "offset \<le> n'"
    and k: "send_contract k" and st: "stream sfd (hist w) = (x, None)"
  shows "offset \<le> r \<and> r \<le> n' \<and> (\<exists>sent. stream sfd (hist w') = (x @ take sent (drop (nat offset) b'), None)
     \<and> rest_sent sfd (hist w') (nat (r - offset)) sent)"
proof -
  obtain d w1 res w2 where st1: "stream sfd (hist w1) = (x, None)"
    and pl: "parts_loop (parts d) k sfd b' n' offset offset ty host (get_family dst) d w1 = Some (res, w2)"
    and fin: "case res of Inl q \<Rightarrow> r = q \<and> w' = w2 | Inr lp \<Rightarrow> send_rest k sfd b' n' lp w2 = Some (r, w')"
    using desync_parts[OF run ok cl md st] by blast
  define all where "all = take (nat (n' - offset)) (drop (nat offset) b')"
  have all: "rdn b' offset (n' - offset) = Some all"
    using bounds by (simp add: rdn_def all_def)
  note ps = parts_loop_stream[OF pl k st1 all bounds(3,2)]
  have cut: "take (nat (q - offset)) all = take (nat (q - offset)) (drop (nat offset) b')" if "q \<le> n'" for q
    using that by (simp add: all_def min_absorb1)
  show ?thesis
  proof (cases res)
    case (Inl q)
    then have "rest_sent sfd (hist w') (nat (r - offset)) (nat (r - offset))"
      by (simp add: rest_sent_def)
    then show ?thesis
      using fin ps ok cut[of q] Inl by auto
  next
    case (Inr lp)
    then have lp: "offset \<le> lp" "lp \<le> n'" "stream sfd (hist w2) = (x @ take (nat (lp - offset)) all, None)"
      using ps by auto
    have sr: "send_rest k sfd b' n' lp w2 = Some (r, w')"
      using fin Inr by simp
    have rn: "r \<le> n'"
      using sr lp ok by (auto simp: send_rest_def bind_eq_Some_conv Let_def split_beta split: if_splits)
    obtain sent where last: "lp \<le> r" and
      sent: "stream sfd (hist w') = ((x @ take (nat (lp - offset)) all) @ take sent (drop (nat (lp - offset)) all), None)"
        "rest_sent sfd (hist w') (nat (r - lp)) sent"
      using send_rest_stream[OF sr k lp(3) rdn_split(2)[OF all lp(1,2)] ok lp(2)] bounds lp(1) by auto
    define tot where "tot = nat (lp - offset) + sent"
    have rs: "rest_sent sfd (hist w') (nat (r - offset)) tot"
    proof -
      have "nat (r - offset) = nat (lp - offset) + nat (r - lp)"
        using last lp bounds by auto
      then show ?thesis
        using sent(2) by (auto simp: rest_sent_def tot_def)
    qed
    then have "tot \<le> nat (r - offset)"
      by (auto simp: rest_sent_def)
    then have "take tot all = take tot (drop (nat offset) b')"
      using rn by (simp add: all_def min_absorb1)
    moreover have "stream sfd (hist w') = (x @ take tot all, None)"
      using sent(1) by (simp add: tot_def take_add)
    ultimately show ?thesis
      using last lp rn rs by auto
  qed
qed

section \<open>Record splitting keeps the handshake\<close>

lemma tls_records_append:
  "tls_records xs = Some rs \<Longrightarrow> tls_records (xs @ ys) = map_option ((@) rs) (tls_records ys)"
proof (induction xs arbitrary: rs rule: tls_records.induct)
  case (2 a b c h l rest)
  define n where "n = unat h * 256 + unat l"
  obtain rs' where rs': "n \<le> length rest" "tls_records (drop n rest) = Some rs'" "rs = ([a, b, c], take n rest) # rs'"
    using 2(2) by (auto simp: n_def Let_def bind_eq_Some_conv split: if_splits)
  have "tls_records (drop n rest @ ys) = map_option ((@) rs') (tls_records ys)"
    using 2(1)[OF n_def] rs' by simp
  then show ?case
    using rs' by (cases "tls_records ys") (simp_all add: n_def[symmetric] Let_def)
next
  case 1
  then show ?case by (cases "tls_records ys") auto
qed auto

lemma tls_records_first:
  assumes "tls_records zs = Some ((h, p) # rs)"
  shows "tls_records (take (5 + length p) zs) = Some [(h, p)]" and "tls_records (drop (5 + length p) zs) = Some rs"
    and "5 + length p \<le> length zs"
proof -
  obtain a b c x y rest where zs: "zs = a # b # c # x # y # rest"
    using assms by (cases zs rule: tls_records.cases) auto
  define n where "n = unat x * 256 + unat y"
  have r: "n \<le> length rest" "h = [a, b, c]" "p = take n rest" "tls_records (drop n rest) = Some rs"
    using assms by (auto simp: zs n_def Let_def bind_eq_Some_conv split: if_splits)
  have five: "5 + length p = Suc (Suc (Suc (Suc (Suc n))))"
    using r by simp
  show "tls_records (take (5 + length p) zs) = Some [(h, p)]" "tls_records (drop (5 + length p) zs) = Some rs"
    "5 + length p \<le> length zs"
    using r unfolding five by (simp_all add: zs n_def[symmetric] Let_def)
qed

text \<open>
  The packet from \<open>lp\<close> on is one record \<open>(h, p)\<close>, and whole records precede it. Then the
  loop leaves whole records with the same payload.
\<close>

lemma tls_records_join:
  assumes "lp \<le> n" "tls_records (take lp buffer) = Some rs" "tls_records (take (n - lp) (drop lp buffer)) = Some [r]"
  shows "tls_records (take n buffer) = Some (rs @ [r])"
proof -
  have "take n buffer = take lp buffer @ take (n - lp) (drop lp buffer)"
    using assms(1) by (metis le_add_diff_inverse take_add)
  then show ?thesis using tls_records_append[OF assms(2)] assms(3) by simp
qed

lemma tls_record_length:
  assumes "tls_records xs = Some [(h, p)]"
  shows "length xs = 5 + length p"
  using tls_records_first(3)[OF assms] tls_records_first(2)[OF assms]
  by (cases "drop (5 + length p) xs" rule: tls_records.cases)
     (auto simp: Let_def bind_eq_Some_conv split: if_splits)

text \<open>One round that splits the last record: the first half joins those in front.\<close>

lemma tls_split_round:
  assumes n: "n - lp = 5 + length p" "lp \<le> n" "n \<le> length buffer" and c: "c \<le> length p"
    and b1: "tls_records (take (n - lp + 5) b1) = Some [(h, take c p), (h, drop c p)]" "length b1 = length buffer - lp"
    and r: "tls_records (take lp buffer) = Some rs0"
  shows "tls_records (take (lp + c + 5) (take lp buffer @ b1)) = Some (rs0 @ [(h, take c p)])"
    and "tls_records (take (n + 5 - (lp + c + 5)) (drop (lp + c + 5) (take lp buffer @ b1))) = Some [(h, drop c p)]"
    and "length (take lp buffer @ b1) = length buffer"
proof -
  have lt: "length (take lp buffer) = lp" using n by simp
  have e: "n + 5 - (lp + c + 5) = length p + 5 - c" using n by arith
  have two: "tls_records (take (5 + c) b1) = Some [(h, take c p)]"
    "tls_records (take (n + 5 - (lp + c + 5)) (drop (5 + c) b1)) = Some [(h, drop c p)]"
    unfolding e using tls_records_first(1,2)[OF b1(1)] c n
    by (simp_all add: min_absorb1 min_absorb2 drop_take add.commute)
  show "tls_records (take (lp + c + 5) (take lp buffer @ b1)) = Some (rs0 @ [(h, take c p)])"
    using tls_records_append[OF r, of "take (5 + c) b1"] two(1) lt by (simp add: add.commute)
  show "tls_records (take (n + 5 - (lp + c + 5)) (drop (lp + c + 5) (take lp buffer @ b1))) = Some [(h, drop c p)]"
    using two(2) lt by (simp add: add.commute)
  show "length (take lp buffer @ b1) = length buffer" using lt b1(2) n by simp
qed

lemma tlsrec_loop_round:
  assumes "tlsrec_loop (q # ps) i buffer (int bfsz) (int n) (int lp) host = Some (b', n')" "lp \<le> n" "n \<le> bfsz"
  shows "b' = buffer \<and> n' = int n \<or> (\<exists>c r b1.
    part_tls (drop lp buffer) (int (bfsz - lp)) (int (n - lp)) (int c) = Some (r, b1) \<and>
    (if r = 0 then b' = take lp buffer @ b1 \<and> n' = int n
     else tlsrec_loop ps (i + 1) (take lp buffer @ b1) (int bfsz) (int (n + 5)) (int (lp + c + 5)) host = Some (b', n')))"
proof -
  define pos0 where "pos0 = p_pos q + i * 5"
  define pos where "pos = (if p_flag q = OFFSET_SNI then pos0 + (host - 5) else if pos0 < 0 then pos0 + int n else pos0)"
  have eq: "(if pos < int lp then Some (buffer, int n)
     else do {
       (r, b') \<leftarrow> part_tls (drop lp buffer) (int bfsz - int lp) (int n - int lp) (pos - int lp);
       if r = 0 then Some (take lp buffer @ b', int n)
       else tlsrec_loop ps (i + 1) (take lp buffer @ b') (int bfsz) (int n + 5) (pos + 5) host
     }) = Some (b', n')"
    using assms(1) by (simp only: tlsrec_loop.simps Let_def nat_int pos_def pos0_def)
  show ?thesis
  proof (cases "pos < int lp")
    case True
    then show ?thesis using eq by simp
  next
    case False
    define c where "c = nat (pos - int lp)"
    have c: "pos - int lp = int c" "pos + 5 = int (lp + c + 5)" "int n + 5 = int (n + 5)"
      using False by (simp_all add: c_def)
    have d: "int bfsz - int lp = int (bfsz - lp)" "int n - int lp = int (n - lp)" using assms(2,3) by auto
    from eq False obtain r b1 where "part_tls (drop lp buffer) (int (bfsz - lp)) (int (n - lp)) (int c) = Some (r, b1)"
      "(if r = 0 then Some (take lp buffer @ b1, int n)
        else tlsrec_loop ps (i + 1) (take lp buffer @ b1) (int bfsz) (int (n + 5)) (int (lp + c + 5)) host) = Some (b', n')"
      unfolding c d by (auto simp: bind_eq_Some_conv)
    then show ?thesis by (cases "r = 0") auto
  qed
qed

text \<open>
  C17. The loop over the TLS record options keeps the handshake, when the rest of the packet is
  exactly one TLS record, as a ClientHello is that fills its packet: after it the packet is a
  sequence of TLS records, the new ones with the type and version of that record, whose payloads
  make up the payload of the packet, and the packet has not outgrown the buffer. Of a packet whose
  first record is shorter than the packet this is false; the property on the missing header shows how.
\<close>

theorem tlsrec_loop_records:
  fixes lp n bfsz :: nat
  assumes "tlsrec_loop ps i buffer (int bfsz) (int n) (int lp) host = Some (b', n')"
    and "lp \<le> n" and "n \<le> bfsz" and "bfsz \<le> length buffer" and "bfsz < 2 ^ 63"
    and "tls_records (take lp buffer) = Some rs0"
    and "tls_records (take (n - lp) (drop lp buffer)) = Some [(h, p)]"
  shows "\<exists>rs. tls_records (take (nat n') b') = Some rs \<and> concat (map snd rs) = concat (map snd rs0) @ p
     \<and> int n \<le> n' \<and> n' \<le> int bfsz \<and> length b' = length buffer \<and> (\<forall>r \<in> set rs. r \<in> set rs0 \<or> fst r = h)"
  using assms
proof (induction ps arbitrary: i buffer n lp rs0 p)
  case Nil
  then show ?case using tls_records_join[OF Nil(2,6,7)] by auto
next
  case (Cons q ps)
  have stop: ?case if "b' = buffer" "n' = int n"
    using tls_records_join[OF Cons.prems(2,6,7)] Cons.prems that by auto
  have np: "n - lp = 5 + length p"
    using tls_record_length[OF Cons.prems(7)] Cons.prems(2-4) by simp
  consider "b' = buffer" "n' = int n"
    | (part) c r b1 where "part_tls (drop lp buffer) (int (bfsz - lp)) (int (n - lp)) (int c) = Some (r, b1)"
      "if r = 0 then b' = take lp buffer @ b1 \<and> n' = int n
       else tlsrec_loop ps (i + 1) (take lp buffer @ b1) (int bfsz) (int (n + 5)) (int (lp + c + 5)) host = Some (b', n')"
    using tlsrec_loop_round[OF Cons.prems(1-3)] by blast
  then show ?case
  proof cases
    case part
    show ?thesis
    proof (cases "bfsz - lp < (n - lp) + 5 \<or> n - lp < c + 5")
      case True
      have "c_size (int (bfsz - lp) - int (n - lp)) = int (bfsz - lp) - int (n - lp)"
        using Cons.prems(2,3,5) by (intro c_size_id) auto
      then have "r = 0" "b1 = drop lp buffer" using True part(1) by (auto simp: part_tls_def)
      then show ?thesis using part(2) stop by simp
    next
      case False
      then have cl: "c \<le> length p" and sz: "n - lp + 5 \<le> bfsz - lp" "bfsz - lp \<le> length (drop lp buffer)" "bfsz - lp < 2 ^ 63"
        using np Cons.prems(3-5) by auto
      have b1: "r = 5" "tls_records (take (n - lp + 5) b1) = Some [(h, take c p), (h, drop c p)]" "length b1 = length buffer - lp"
        using part_tls_split_records[OF Cons.prems(7) cl sz] part(1) by auto
      have nb: "n \<le> length buffer" using Cons.prems(3,4) by linarith
      note two = tls_split_round[OF np Cons.prems(2) nb cl b1(2,3) Cons.prems(6)]
      have le: "lp + c + 5 \<le> n + 5" "n + 5 \<le> bfsz" "bfsz \<le> length (take lp buffer @ b1)"
        using False np cl Cons.prems(2-4) two(3) by arith+
      have rec: "tlsrec_loop ps (i + 1) (take lp buffer @ b1) (int bfsz) (int (n + 5)) (int (lp + c + 5)) host = Some (b', n')"
        using part(2) b1(1) by simp
      show ?thesis
        using Cons.IH[OF rec le Cons.prems(5) two(1,2)] two(3) by fastforce
    qed
  qed (rule stop)
qed

section \<open>Witnesses\<close>

lemma plain_kernel_contract: "send_contract plain_kernel"
  by (auto simp: send_contract_def ok_reply_def)

definition split_world :: world where
  "split_world = start_world (default_params\<lparr>dp := [zero_dp\<lparr>parts := [\<lparr>p_m = DESYNC_SPLIT, p_flag = 0, p_pos = 2\<rparr>]\<rparr>],
     wait_send_f := False\<rparr>)"

text \<open>Four bytes that are neither TLS nor HTTP, split after the second.\<close>

theorem desync_delivers_witness:
  "\<exists>r b' w'. desync plain_kernel 7 [1, 2, 3, 4] 8 4 0 (replicate 28 0) 0 split_world = Some (r, b', w') \<and> 0 \<le> r
   \<and> 0 \<le> r \<and> r \<le> 4 \<and> (\<exists>sent. stream 7 (hist w') = ([] @ take sent (drop (nat 0) b'), None)
     \<and> rest_sent 7 (hist w') (nat (r - 0)) sent)"
proof -
  define w' where "w' = snd (snd (the (desync plain_kernel 7 [1, 2, 3, 4] 8 4 0 (replicate 28 0) 0 split_world)))"
  have run: "desync plain_kernel 7 [1, 2, 3, 4] 8 4 0 (replicate 28 0) 0 split_world = Some (4, [1, 2, 3, 4], w')"
    unfolding w'_def by code_simp
  have "classify [1, 2, 3, 4] (nat 4) = Some (0, 0)"
    by code_simp
  moreover have "modify_packet (dp (prm split_world) ! nat 0) 0 0 [1, 2, 3, 4] 8 4 = Some (True, [1, 2, 3, 4], 4)"
    by (simp add: modify_packet_def)
  moreover have "stream 7 (hist split_world) = ([], None)"
    by (simp add: stream_def split_world_def start_world_def)
  ultimately have "0 \<le> (4 :: int) \<and> (4 :: int) \<le> 4 \<and> (\<exists>sent. stream 7 (hist w') = ([] @ take sent (drop (nat 0) [1, 2, 3, 4]), None)
     \<and> rest_sent 7 (hist w') (nat (4 - 0)) sent)"
    using plain_kernel_contract by (intro desync_delivers[OF run]) simp_all
  with run show ?thesis
    by fastforce
qed

theorem tlsrec_loop_records_witness:
  "\<exists>b' n' rs. tlsrec_loop [\<lparr>p_m = DESYNC_NONE, p_flag = 0, p_pos = 1\<rparr>] 0 [22, 3, 1, 0, 3, 7, 8, 9, 0, 0, 0, 0, 0] (int 13) (int 8) (int 0) 0
       = Some (b', n') \<and> tls_records (take (nat n') b') = Some rs \<and> concat (map snd rs) = [7, 8, 9]"
proof -
  define r where "r = the (tlsrec_loop [\<lparr>p_m = DESYNC_NONE, p_flag = 0, p_pos = 1\<rparr>] 0
    [22, 3, 1, 0, 3, 7, 8, 9, 0, 0, 0, 0, 0] (int 13) (int 8) (int 0) 0)"
  have run: "tlsrec_loop [\<lparr>p_m = DESYNC_NONE, p_flag = 0, p_pos = 1\<rparr>] 0
    [22, 3, 1, 0, 3, 7, 8, 9, 0, 0, 0, 0, 0] (int 13) (int 8) (int 0) 0 = Some (fst r, snd r)"
    unfolding r_def by code_simp
  have "tls_records (take 0 [22, 3, 1, 0, 3, 7, 8, 9, 0, 0, 0, 0, 0]) = Some []"
    "tls_records (take (8 - 0) (drop 0 [22, 3, 1, 0, 3, 7, 8, 9, 0, 0, 0, 0, 0])) = Some [([22, 3, 1], [7, 8, 9])]"
    by code_simp+
  then obtain rs where "tls_records (take (nat (snd r)) (fst r)) = Some rs" "concat (map snd rs) = concat (map snd []) @ [7, 8, 9]"
    using tlsrec_loop_records[OF run, of "[]" "[22, 3, 1]" "[7, 8, 9]"] by auto
  then have "tls_records (take (nat (snd r)) (fst r)) = Some rs \<and> concat (map snd rs) = [7, 8, 9]"
    by simp
  with run show ?thesis
    by blast
qed

text \<open>
  C31. A ClientHello whose first record is shorter than the packet (it continues in a second
  record) and a split position behind that record: \<open>part_tls\<close> inserts nothing but does not
  return 0, so that the loop counts five bytes that are not there. The packet that is sent then
  ends with five bytes of whatever the buffer held.
\<close>

theorem tlsrec_counts_missing_header:
  assumes "p_flag p \<noteq> OFFSET_SNI" and "0 \<le> p_pos p" and "ANTOHS buffer 3 = Some r" and "int (unat r) < p_pos p"
    and "p_pos p + 5 \<le> n" and "n + 5 \<le> bfsz" and "bfsz < 2 ^ 63"
  shows "tlsrec_loop [p] 0 buffer bfsz n 0 host = Some (buffer, n + 5)"
proof -
  have "\<not> c_size (bfsz - n) < 5"
    using assms(2,5-7) by (subst c_size_id) auto
  moreover have "\<not> n < 3" "\<not> p_pos p < 0"
    using assms(2,5) by auto
  moreover have "\<not> n < p_pos p + 5"
    using assms(5) by simp
  ultimately have "part_tls buffer bfsz n (p_pos p) = Some (n, buffer)"
    unfolding part_tls_def using assms(3-5) by (simp only: bind.bind_lunit if_True if_False not_le[symmetric] not_not) auto
  then show ?thesis
    using assms(1,2,5) by simp
qed

theorem tlsrec_counts_missing_header_witness:
  "tlsrec_loop [\<lparr>p_m = DESYNC_NONE, p_flag = 0, p_pos = 4\<rparr>] 0
     [22, 3, 1, 0, 1, 7, 22, 3, 1, 0, 1, 8, 0xaa, 0xbb, 0xcc, 0xdd, 0xee] 17 12 0 0 =
   Some ([22, 3, 1, 0, 1, 7, 22, 3, 1, 0, 1, 8, 0xaa, 0xbb, 0xcc, 0xdd, 0xee], 12 + 5)"
proof (rule tlsrec_counts_missing_header)
  show "ANTOHS [22, 3, 1, 0, 1, 7, 22, 3, 1, 0, 1, 8, 0xaa, 0xbb, 0xcc, 0xdd, 0xee] 3 = Some 1"
    by code_simp
qed simp_all

end
