(* ===== verification/Socks.thy ===== *)
theory Socks
  imports Os
begin

text \<open>
  The SOCKS4 and SOCKS5 messages of \<open>byedpi/proxy.c\<close> and the address helpers they use. The
  lemmas show that the parsers stay inside the request, that an address written into a reply
  is the one read back from it, and that mapping an IPv4 address into IPv6 and back is the
  identity.
\<close>

section \<open>Constants\<close>

abbreviation (input) S_SIZE_MIN :: int where "S_SIZE_MIN \<equiv> 8"
abbreviation (input) S_SIZE_I4 :: int where "S_SIZE_I4 \<equiv> 10"
abbreviation (input) S_SIZE_I6 :: int where "S_SIZE_I6 \<equiv> 22"
abbreviation (input) S_SIZE_ID :: int where "S_SIZE_ID \<equiv> 7"

abbreviation (input) S_ATP_I4 :: byte where "S_ATP_I4 \<equiv> 0x01"
abbreviation (input) S_ATP_ID :: byte where "S_ATP_ID \<equiv> 0x03"
abbreviation (input) S_ATP_I6 :: byte where "S_ATP_I6 \<equiv> 0x04"

abbreviation (input) S_AUTH_NONE :: byte where "S_AUTH_NONE \<equiv> 0x00"
abbreviation (input) S_AUTH_BAD :: byte where "S_AUTH_BAD \<equiv> 0xff"

abbreviation (input) S_ER_GEN :: int where "S_ER_GEN \<equiv> 1"
abbreviation (input) S_ER_NET :: int where "S_ER_NET \<equiv> 3"
abbreviation (input) S_ER_HOST :: int where "S_ER_HOST \<equiv> 4"
abbreviation (input) S_ER_CONN :: int where "S_ER_CONN \<equiv> 5"
abbreviation (input) S_ER_CMD :: int where "S_ER_CMD \<equiv> 7"
abbreviation (input) S_ER_ATP :: int where "S_ER_ATP \<equiv> 8"

section \<open>Addresses\<close>

text \<open>
  \<open>ipv6m\<close> is the IPv6 address seen as \<open>o64\<close> (bytes 8 to 15 of the union), \<open>o16\<close> (16, 17),
  \<open>t16\<close> (18, 19) and \<open>o32\<close> (20 to 23).
\<close>

definition map_fix :: "bytes \<Rightarrow> bool \<Rightarrow> bytes" where
  "map_fix a f6 =
     (if sa_family a = AF_INET \<and> f6
      then set_sin6_addr (replicate 10 0 @ [0xff, 0xff] @ sin_addr a) (set_family AF_INET6 a)
      else if take 10 (drop 8 a) = replicate 10 0 \<and> take 2 (drop 18 a) = [0xff, 0xff] \<and> \<not> f6
      then set_sin_addr (take 4 (drop 20 a)) (set_family AF_INET a)
      else a)"

definition addr_equ :: "bytes \<Rightarrow> bytes \<Rightarrow> bool" where
  "addr_equ a b =
     (if sa_family a = AF_INET then sin_addr a = sin_addr b
      else take 8 (sin6_addr a) = take 8 (sin6_addr b) \<and> drop 8 (sin6_addr a) = drop 8 (sin6_addr b))"

section \<open>Sockets and names\<close>

definition nb_socket :: "kernel \<Rightarrow> int \<Rightarrow> int \<Rightarrow> world \<Rightarrow> int \<times> world" where
  "nb_socket k domain ty w =
     (let (r, w) = sys k (Socket domain ty) w
      in if ret r < 0 then (- 1, w)
         else let (_, w) = sys k (Vpn_protect (ret r)) w in (ret r, w))"

text \<open>
  The name is terminated in place and restored, so the byte behind it must be in the buffer.
  The address of the reply is its \<open>out\<close>.
\<close>

definition resolve :: "kernel \<Rightarrow> bytes \<Rightarrow> int \<Rightarrow> int \<Rightarrow> bytes \<Rightarrow> int \<Rightarrow> world \<Rightarrow> (int \<times> bytes \<times> world) option" where
  "resolve k buffer host len addr ty w = do {
     name \<leftarrow> rdn buffer host len;
     _ \<leftarrow> rdn buffer (host + len) 1;
     let (r, w) = sys k (Getaddrinfo name ty AI_ADDRCONFIG (if ipv6 (prm w) then 0 else AF_INET)) w;
     if ret r \<noteq> 0 \<or> out r = [] then Some (- 1, addr, w)
     else Some (0, if sa_family (out r) = AF_INET6 then take 28 (out r)
                   else take 16 (out r) @ drop 16 addr, w)
   }"

section \<open>Replies\<close>

fun has_none :: "bytes \<Rightarrow> bool" where
  "has_none [] = False"
| "has_none (x # xs) = (if x = S_AUTH_NONE then True else has_none xs)"

definition auth_socks5 :: "kernel \<Rightarrow> int \<Rightarrow> bytes \<Rightarrow> int \<Rightarrow> world \<Rightarrow> (int \<times> bytes \<times> world) option" where
  "auth_socks5 k f buffer n w =
     (if n \<le> 2 then Some (- 1, buffer, w)
      else do {
        m \<leftarrow> rd buffer 1;
        if uint m \<noteq> n - 2 then Some (- 1, buffer, w)
        else do {
          methods \<leftarrow> rdn buffer 2 (n - 2);
          let c = (if has_none methods then S_AUTH_NONE else S_AUTH_BAD);
          buffer \<leftarrow> wr buffer 1 c;
          bs \<leftarrow> rdn buffer 0 2;
          let (r, w) = sys k (Send f bs 0) w;
          if ret r < 0 then Some (- 1, buffer, w)
          else Some (if c \<noteq> S_AUTH_BAD then 0 else - 1, buffer, w)
        }
      })"

definition resp_s5_error :: "kernel \<Rightarrow> int \<Rightarrow> int \<Rightarrow> world \<Rightarrow> int \<times> world" where
  "resp_s5_error k f e w =
     (let (r, w) = sys k (Send f [5, word_of_int e, 0, S_ATP_I4, 0, 0, 0, 0, 0, 0] 0) w in (ret r, w))"

definition s5_code :: "int \<Rightarrow> int" where
  "s5_code e =
     (if e = 0 then 0
      else if e = ECONNREFUSED then S_ER_CONN
      else if e = EHOSTUNREACH \<or> e = ETIMEDOUT then S_ER_HOST
      else if e = ENETUNREACH then S_ER_NET
      else S_ER_GEN)"

definition resp_error :: "kernel \<Rightarrow> int \<Rightarrow> int \<Rightarrow> int \<Rightarrow> world \<Rightarrow> int \<times> world" where
  "resp_error k f e fl w =
     (if fl = FLAG_S4 then
        let (r, w) = sys k (Send f [0, if e \<noteq> 0 then 0x5b else 0x5a, 0, 0, 0, 0, 0, 0] 0) w in (ret r, w)
      else if fl = FLAG_S5 then resp_s5_error k f (s5_code e) w
      else (0, w))"

section \<open>Requests\<close>

text \<open>\<open>strchr (buff + 8, 0)\<close>: the first NUL from a position on.\<close>

function find_nul :: "bytes \<Rightarrow> nat \<Rightarrow> nat option" where
  "find_nul b i = do { x \<leftarrow> rd b i; if x = 0 then Some i else find_nul b (Suc i) }"
  by pat_completeness auto
termination
  by (relation "measure (\<lambda>(b, i). length b - i)") (auto simp: rd_eq_Some_iff)

declare find_nul.simps [simp del]

definition s4_get_addr :: "kernel \<Rightarrow> bytes \<Rightarrow> int \<Rightarrow> bytes \<Rightarrow> world \<Rightarrow> (int \<times> bytes \<times> world) option" where
  "s4_get_addr k buff n dst w =
     (if n < 9 then Some (- 1, dst, w)
      else do {
        hdr \<leftarrow> rdn buff 0 8;
        if hdr ! 1 \<noteq> 1 then Some (- 1, dst, w)
        else do {
          (r, dst, w) \<leftarrow>
            (if take 3 (drop 4 hdr) = [0, 0, 0] then do {
               z \<leftarrow> rd buff (nat (n - 1));
               if \<not> resolve_f (prm w) \<or> z \<noteq> 0 then Some (- 1, dst, w)
               else do {
                 id_end \<leftarrow> find_nul buff 8;
                 let len = (n - int id_end) - 2;
                 if len < 3 \<or> 255 < len then Some (- 1, dst, w)
                 else resolve k buff (int id_end + 1) len dst SOCK_STREAM w
               }
             }
             else Some (0, set_sin_addr (take 4 (drop 4 hdr)) (set_family AF_INET dst), w));
          if r \<noteq> 0 then Some (- 1, dst, w)
          else Some (0, set_port (hdr ! 2) (hdr ! 3) dst, w)
        }
      })"

text \<open>
  \<open>base\<close> is where the request starts in the buffer. The port is copied from the two bytes
  before the end \<open>o\<close> of the address; for an unknown address type \<open>o\<close> is 0.
\<close>

definition s5_size :: "bytes \<Rightarrow> int" where
  "s5_size r =
     (if r ! 3 = S_ATP_I4 then S_SIZE_I4
      else if r ! 3 = S_ATP_ID then uint (r ! 4) + S_SIZE_ID
      else if r ! 3 = S_ATP_I6 then S_SIZE_I6 else 0)"

definition s5_get_addr ::
  "kernel \<Rightarrow> bytes \<Rightarrow> int \<Rightarrow> int \<Rightarrow> bytes \<Rightarrow> int \<Rightarrow> world \<Rightarrow> (int \<times> bytes \<times> world) option" where
  "s5_get_addr k buffer base n addr ty w =
     (if n < S_SIZE_MIN then Some (- S_ER_GEN, addr, w)
      else do {
        hdr \<leftarrow> rdn buffer base 5;
        let o' = s5_size hdr;
        if n < o' then Some (- S_ER_GEN, addr, w)
        else do {
          (e, addr, w) \<leftarrow>
            (if hdr ! 3 = S_ATP_I4 then do {
               a \<leftarrow> rdn buffer (base + 4) 4;
               Some (0, set_sin_addr a (set_family AF_INET addr), w)
             }
             else if hdr ! 3 = S_ATP_ID then
               (if \<not> resolve_f (prm w) then Some (- S_ER_ATP, addr, w)
                else if hdr ! 4 < 3 then Some (- S_ER_HOST, addr, w)
                else do {
                  (r, addr, w) \<leftarrow> resolve k buffer (base + 5) (uint (hdr ! 4)) addr ty w;
                  Some (if r \<noteq> 0 then - S_ER_HOST else 0, addr, w)
                })
             else if hdr ! 3 = S_ATP_I6 then
               (if \<not> ipv6 (prm w) then Some (- S_ER_ATP, addr, w)
                else do {
                  a \<leftarrow> rdn buffer (base + 4) 16;
                  Some (0, set_sin6_addr a (set_family AF_INET6 addr), w)
                })
             else Some (0, addr, w));
          if e < 0 then Some (e, addr, w)
          else do {
            p \<leftarrow> rdn buffer (base + o' - 2) 2;
            Some (o', set_port (p ! 0) (p ! 1) addr, w)
          }
        }
      })"

text \<open>
  The address is written at \<open>base\<close>, or so that it ends at \<open>base\<close> when \<open>end'\<close> is set; the
  first three bytes of the request stay as they are.
\<close>

definition s5_set_addr :: "bytes \<Rightarrow> int \<Rightarrow> int \<Rightarrow> bytes \<Rightarrow> bool \<Rightarrow> (int \<times> bytes) option" where
  "s5_set_addr buffer base n addr end' =
     (if n < S_SIZE_I4 then Some (- 1, buffer)
      else if sa_family addr = AF_INET then do {
        let r = (if end' then base - S_SIZE_I4 else base);
        b \<leftarrow> wrn buffer (r + 3) (S_ATP_I4 # sin_addr addr @ take 2 (drop 2 addr));
        Some (S_SIZE_I4, b)
      }
      else if n < S_SIZE_I6 then Some (- 1, buffer)
      else do {
        let r = (if end' then base - S_SIZE_I6 else base);
        b \<leftarrow> wrn buffer (r + 3) (S_ATP_I6 # sin6_addr addr @ take 2 (drop 2 addr));
        Some (S_SIZE_I6, b)
      })"

section \<open>Address mapping\<close>

lemma list2_cases:
  assumes "length xs = 2"
  obtains a b where "xs = [a, b]"
  using assms by (auto simp: length_Suc_conv numeral_eq_Suc)

lemma list4_cases:
  assumes "length xs = 4"
  obtains a b c d where "xs = [a, b, c, d]"
  using assms by (auto simp: length_Suc_conv numeral_eq_Suc)

lemma list8_cases:
  assumes "length xs = 8"
  obtains a b c d e f g h where "xs = [a, b, c, d, e, f, g, h]"
  using assms by (auto simp: length_Suc_conv numeral_eq_Suc)

lemma sockaddr_28:
  assumes "sockaddr_ok a"
  obtains a0 a1 a2 a3 a4 a5 a6 a7 xs ys where "a = [a0, a1, a2, a3, a4, a5, a6, a7] @ xs @ ys"
    "length xs = 16" "length ys = 4"
proof -
  have a: "length a = 28" using assms by (simp add: sockaddr_ok_def)
  have "length (take 8 a) = 8" using a by simp
  then obtain a0 a1 a2 a3 a4 a5 a6 a7 where "take 8 a = [a0, a1, a2, a3, a4, a5, a6, a7]"
    by (rule list8_cases)
  moreover have "a = take 8 a @ take 16 (drop 8 a) @ drop 16 (drop 8 a)"
    by (metis append_take_drop_id)
  ultimately show ?thesis
    using that[of a0 a1 a2 a3 a4 a5 a6 a7 "take 16 (drop 8 a)" "drop 16 (drop 8 a)"] a by simp
qed

lemma family_set [simp]:
  assumes "2 \<le> length a" and "0 \<le> f" and "f < 65536"
  shows "sa_family (set_family f a) = f"
proof -
  have "uint (word_of_int f :: byte) = f mod 256" "uint (word_of_int (f div 256) :: byte) = f div 256 mod 256"
    by (simp_all add: uint_word_of_int)
  moreover have "f div 256 mod 256 = f div 256"
    using assms by auto
  moreover obtain x y zs where "a = x # y # zs"
    using assms(1) by (cases a; cases "tl a") auto
  ultimately show ?thesis
    by (simp add: sa_family_def set_family_def)
qed

lemma sockaddr_updates [simp]:
  "sockaddr_ok a \<Longrightarrow> sockaddr_ok (set_family f a)"
  "sockaddr_ok a \<Longrightarrow> sockaddr_ok (set_port p q a)"
  "sockaddr_ok a \<Longrightarrow> length x = 4 \<Longrightarrow> sockaddr_ok (set_sin_addr x a)"
  "sockaddr_ok a \<Longrightarrow> length y = 16 \<Longrightarrow> sockaddr_ok (set_sin6_addr y a)"
  by (simp_all add: sockaddr_ok_def set_family_def set_port_def set_sin_addr_def set_sin6_addr_def)

lemma sockaddr_reads [simp]:
  assumes "sockaddr_ok a"
  shows "length x = 4 \<Longrightarrow> sin_addr (set_sin_addr x a) = x"
    and "length y = 16 \<Longrightarrow> sin6_addr (set_sin6_addr y a) = y"
    and "length y = 16 \<Longrightarrow> sin_addr (set_sin6_addr y a) = sin_addr a"
    and "sin_addr (set_family f a) = sin_addr a" and "sin6_addr (set_family f a) = sin6_addr a"
    and "sin_addr (set_port p q a) = sin_addr a" and "sin6_addr (set_port p q a) = sin6_addr a"
    and "sa_family (set_port p q a) = sa_family a"
    and "length x = 4 \<Longrightarrow> sa_family (set_sin_addr x a) = sa_family a"
    and "length y = 16 \<Longrightarrow> sa_family (set_sin6_addr y a) = sa_family a"
    and "length x = 4 \<Longrightarrow> take 2 (drop 2 (set_sin_addr x a)) = take 2 (drop 2 a)"
    and "length y = 16 \<Longrightarrow> take 2 (drop 2 (set_sin6_addr y a)) = take 2 (drop 2 a)"
    and "take 2 (drop 2 (set_port p q a)) = [p, q]"
    and "take 2 (drop 2 (set_family f a)) = take 2 (drop 2 a)"
    and "length (sin_addr a) = 4" and "length (sin6_addr a) = 16"
proof -
  obtain a0 a1 a2 a3 a4 a5 a6 a7 xs ys where a: "a = [a0, a1, a2, a3, a4, a5, a6, a7] @ xs @ ys"
    and len: "length xs = 16" "length ys = 4"
    using sockaddr_28[OF assms] .
  note defs = sin_addr_def sin6_addr_def set_sin_addr_def set_sin6_addr_def set_family_def set_port_def sa_family_def
  show "length x = 4 \<Longrightarrow> sin_addr (set_sin_addr x a) = x"
    "length y = 16 \<Longrightarrow> sin6_addr (set_sin6_addr y a) = y"
    "length y = 16 \<Longrightarrow> sin_addr (set_sin6_addr y a) = sin_addr a"
    "sin_addr (set_family f a) = sin_addr a" "sin6_addr (set_family f a) = sin6_addr a"
    "sin_addr (set_port p q a) = sin_addr a" "sin6_addr (set_port p q a) = sin6_addr a"
    "sa_family (set_port p q a) = sa_family a"
    "length x = 4 \<Longrightarrow> sa_family (set_sin_addr x a) = sa_family a"
    "length y = 16 \<Longrightarrow> sa_family (set_sin6_addr y a) = sa_family a"
    "length x = 4 \<Longrightarrow> take 2 (drop 2 (set_sin_addr x a)) = take 2 (drop 2 a)"
    "length y = 16 \<Longrightarrow> take 2 (drop 2 (set_sin6_addr y a)) = take 2 (drop 2 a)"
    "take 2 (drop 2 (set_port p q a)) = [p, q]"
    "take 2 (drop 2 (set_family f a)) = take 2 (drop 2 a)"
    "length (sin_addr a) = 4" "length (sin6_addr a) = 16"
    using len by (simp_all add: defs a numeral_2_eq_2 numeral_3_eq_3)
qed

text \<open>
  An IPv4 address mapped into IPv6 is ::ffff:a.b.c.d, and mapping it back gives the same
  family, address and port.
\<close>

lemma map_fix_round_trip:
  assumes "sockaddr_ok a" and "sa_family a = AF_INET"
  shows "sa_family (map_fix a True) = AF_INET6
     \<and> sin6_addr (map_fix a True) = replicate 10 0 @ [0xff, 0xff] @ sin_addr a
     \<and> sa_family (map_fix (map_fix a True) False) = AF_INET
     \<and> sin_addr (map_fix (map_fix a True) False) = sin_addr a
     \<and> take 2 (drop 2 (map_fix (map_fix a True) False)) = take 2 (drop 2 a)"
proof -
  define m where "m = map_fix a True"
  have m: "m = set_sin6_addr (replicate 10 0 @ [0xff, 0xff] @ sin_addr a) (set_family AF_INET6 a)"
    using assms(2) by (simp add: m_def map_fix_def)
  have l16: "length (replicate 10 0 @ [0xff, 0xff] @ sin_addr a) = 16"
    using assms(1) by simp
  have ok: "sockaddr_ok (set_family AF_INET6 a)" "sockaddr_ok m" "2 \<le> length a"
    using assms l16 by (simp_all add: m) (simp add: sockaddr_ok_def)
  have s6: "sin6_addr m = replicate 10 0 @ [0xff, 0xff] @ sin_addr a" "sa_family m = AF_INET6"
    "take 2 (drop 2 m) = take 2 (drop 2 a)"
    using assms(1) ok l16 by (simp_all add: m)
  have d: "take 10 (drop 8 m) = take 10 (sin6_addr m)" "take 2 (drop 18 m) = take 2 (drop 10 (sin6_addr m))"
    "take 4 (drop 20 m) = take 4 (drop 12 (sin6_addr m))"
    by (simp_all add: sin6_addr_def take_drop)
  have "map_fix m False = set_sin_addr (sin_addr a) (set_family AF_INET m)"
    using s6 d assms(1) by (simp add: map_fix_def)
  moreover have "sockaddr_ok (set_family AF_INET m)" "2 \<le> length m"
    using ok(2) by (simp_all) (simp add: sockaddr_ok_def)
  ultimately show ?thesis
    using s6 ok(2) assms(1) by (simp add: m_def[symmetric])
qed

section \<open>SOCKS5 requests and replies\<close>

lemma rdn_wrn_same:
  assumes "wrn b i xs = Some c" and "i \<le> j" and "0 \<le> n" and "j + n \<le> i + int (length xs)"
  shows "rdn c j n = Some (take (nat n) (drop (nat (j - i)) xs))"
proof -
  have c: "c = take (nat i) b @ xs @ drop (nat i + length xs) b" "0 \<le> i" "i + int (length xs) \<le> int (length b)"
    using assms(1) by (auto simp: wrn_def split: if_splits)
  have l: "length (take (nat i) b) = nat i"
    using c by simp
  have "drop (nat j) c = drop (nat (j - i)) xs @ drop (nat i + length xs) b"
    using c l assms by (simp add: nat_diff_distrib)
  moreover have "nat n \<le> length (drop (nat (j - i)) xs)"
    using assms c by (simp add: nat_diff_distrib)
  moreover have "length c = length b"
    using c by simp
  ultimately show ?thesis
    using assms c by (simp add: rdn_def)
qed

text \<open>What \<open>s5_set_addr\<close> writes, \<open>s5_get_addr\<close> reads.\<close>

lemma wrn_type:
  assumes "wrn b (base + 3) (t # xs) = Some b'" "1 \<le> length xs" "0 \<le> base"
  shows "\<exists>x. rdn b' base 5 = Some x \<and> x ! 3 = t"
proof -
  have c: "b' = take (nat (base + 3)) b @ (t # xs) @ drop (nat (base + 3) + (1 + length xs)) b"
    "base + 4 + int (length xs) \<le> int (length b)"
    using assms by (auto simp: wrn_def split: if_splits)
  then have "base + 5 \<le> int (length b')" "nat base \<le> length b'" using assms(2,3) by simp_all
  moreover from this(2) have "drop (nat base) b' ! 3 = b' ! nat (base + 3)" using assms(2,3) by (simp add: nat_add_distrib)
  moreover have "b' ! nat (base + 3) = t" using c assms(2) by (simp add: nth_append)
  ultimately show ?thesis using assms(2,3) by (simp add: rdn_def)
qed

text \<open>
  C27. A SOCKS5 address that \<open>s5_set_addr\<close> wrote is read back by \<open>s5_get_addr\<close>: the same
  length, family, port and address, for IPv4 and for IPv6, at any place in the buffer.
\<close>

theorem s5_addr_round_trip:
  assumes set: "s5_set_addr buffer base n addr False = Some (len, buffer')"
    and fam: "sa_family addr = AF_INET \<or> sa_family addr = AF_INET6 \<and> ipv6 (prm w) \<and> S_SIZE_I6 \<le> n"
    and ok: "sockaddr_ok addr" "sockaddr_ok addr0" and base: "0 \<le> base" "S_SIZE_I4 \<le> n" and n': "len \<le> n'"
  shows "\<exists>addr'. s5_get_addr k buffer' base n' addr0 ty w = Some (len, addr', w)
     \<and> sa_family addr' = sa_family addr \<and> take 2 (drop 2 addr') = take 2 (drop 2 addr)
     \<and> (sa_family addr = AF_INET \<longrightarrow> sin_addr addr' = sin_addr addr)
     \<and> (sa_family addr = AF_INET6 \<longrightarrow> sin6_addr addr' = sin6_addr addr)"
proof -
  have port: "length (take 2 (drop 2 addr)) = 2"
    using ok(1) by (simp add: sockaddr_ok_def)
  then obtain p0 p1 where p: "take 2 (drop 2 addr) = [p0, p1]"
    by (rule list2_cases)
  have l2: "2 \<le> length addr0"
    using ok(2) by (simp add: sockaddr_ok_def)
  show ?thesis
  proof (cases "sa_family addr = AF_INET")
    case True
    obtain s0 s1 s2 s3 where s: "sin_addr addr = [s0, s1, s2, s3]"
      using sockaddr_reads(15)[OF ok(1)] by (rule list4_cases)
    have b: "wrn buffer (base + 3) [S_ATP_I4, s0, s1, s2, s3, p0, p1] = Some buffer'" "len = 10"
      using set base True by (auto simp: s5_set_addr_def Let_def bind_eq_Some_conv s p)
    obtain x where x: "rdn buffer' base 5 = Some x" "x ! 3 = S_ATP_I4"
      using wrn_type[OF b(1) _ base(1)] by auto
    have a: "rdn buffer' (base + 4) 4 = Some [s0, s1, s2, s3]" "rdn buffer' (base + 10 - 2) 2 = Some [p0, p1]"
      using rdn_wrn_same[OF b(1), of "base + 4" 4] rdn_wrn_same[OF b(1), of "base + 10 - 2" 2]
      by (simp_all add: numeral_eq_Suc)
    show ?thesis
      using x a b n' True ok l2 by (simp add: s5_get_addr_def s5_size_def Let_def s p)
  next
    case False
    then have f6: "sa_family addr = AF_INET6" "ipv6 (prm w)" "22 \<le> n"
      using fam by auto
    have ls: "length (sin6_addr addr) = 16"
      using ok by simp
    have b: "wrn buffer (base + 3) (S_ATP_I6 # sin6_addr addr @ [p0, p1]) = Some buffer'" "len = 22"
      using set base False f6(3) by (auto simp: s5_set_addr_def Let_def bind_eq_Some_conv p)
    obtain x where x: "rdn buffer' base 5 = Some x" "x ! 3 = S_ATP_I6"
      using wrn_type[OF b(1) _ base(1)] ls by auto
    have a: "rdn buffer' (base + 4) 16 = Some (sin6_addr addr)" "rdn buffer' (base + 22 - 2) 2 = Some [p0, p1]"
      using rdn_wrn_same[OF b(1), of "base + 4" 16] rdn_wrn_same[OF b(1), of "base + 22 - 2" 2] ls
      by (simp_all add: numeral_eq_Suc)
    show ?thesis
      using x a b n' f6 ok l2 ls by (simp add: s5_get_addr_def s5_size_def Let_def p)
  qed
qed

lemma rdn_Some: "0 \<le> i \<Longrightarrow> 0 \<le> n \<Longrightarrow> i + n \<le> int (length b) \<Longrightarrow> \<exists>xs. rdn b i n = Some xs \<and> length xs = nat n"
  by (auto simp: rdn_def)

lemma resolve_safe:
  assumes "0 \<le> host" and "0 \<le> len" and "host + len < int (length buffer)"
  shows "\<exists>r a w'. resolve k buffer host len addr ty w = Some (r, a, w') \<and> (r = 0 \<or> r = - 1)"
proof -
  obtain name z where "rdn buffer host len = Some name" "rdn buffer (host + len) 1 = Some z"
    using rdn_Some[of host len buffer] rdn_Some[of "host + len" 1 buffer] assms by auto
  then show ?thesis
    by (auto simp: resolve_def Let_def split_beta)
qed

text \<open>
  For the three address types of the protocol the request is never read outside its \<open>n\<close>
  bytes, and a length that is returned is the length of the address, at most \<open>n\<close>.
\<close>

lemma s5_get_addr_fits:
  assumes hdr: "rdn buffer base 5 = Some hdr" and n: "\<not> n < 8" "\<not> n < s5_size hdr"
  shows "s5_get_addr k buffer base n addr ty w =
      do { (e, addr, w) \<leftarrow>
            (if hdr ! 3 = S_ATP_I4 then do {
               a \<leftarrow> rdn buffer (base + 4) 4;
               Some (0, set_sin_addr a (set_family AF_INET addr), w)
             }
             else if hdr ! 3 = S_ATP_ID then
               (if \<not> resolve_f (prm w) then Some (- S_ER_ATP, addr, w)
                else if hdr ! 4 < 3 then Some (- S_ER_HOST, addr, w)
                else do {
                  (r, addr, w) \<leftarrow> resolve k buffer (base + 5) (uint (hdr ! 4)) addr ty w;
                  Some (if r \<noteq> 0 then - S_ER_HOST else 0, addr, w)
                })
             else if hdr ! 3 = S_ATP_I6 then
               (if \<not> ipv6 (prm w) then Some (- S_ER_ATP, addr, w)
                else do {
                  a \<leftarrow> rdn buffer (base + 4) 16;
                  Some (0, set_sin6_addr a (set_family AF_INET6 addr), w)
                })
             else Some (0, addr, w));
          if e < 0 then Some (e, addr, w)
          else do { p \<leftarrow> rdn buffer (base + s5_size hdr - 2) 2; Some (s5_size hdr, set_port (p ! 0) (p ! 1) addr, w) } }"
  unfolding s5_get_addr_def hdr bind.bind_lunit Let_def using n by (simp only: if_False)

text \<open>
  C28. \<open>s5_get_addr\<close> reads only inside the request when its address type is one of the three of
  the protocol: it returns a negative error or the length of the address, which lies inside the
  request.
\<close>

theorem s5_get_addr_safe:
  assumes "0 \<le> base" and "base + n \<le> int (length buffer)"
    and known: "5 \<le> n \<Longrightarrow> buffer ! nat (base + 3) \<in> {S_ATP_I4, S_ATP_ID, S_ATP_I6}"
  shows "\<exists>r a w'. s5_get_addr k buffer base n addr ty w = Some (r, a, w') \<and> (r < 0 \<or> 7 \<le> r \<and> r \<le> n)"
proof (cases "n < 8")
  case True
  then show ?thesis by (simp add: s5_get_addr_def)
next
  case False
  then obtain hdr where hdr: "rdn buffer base 5 = Some hdr"
    using rdn_Some[of base 5 buffer] assms(1,2) by auto
  have h3: "hdr ! 3 = buffer ! nat (base + 3)"
    using hdr assms(1,2) False by (auto simp: rdn_def nat_add_distrib split: if_splits)
  define o' where "o' = s5_size hdr"
  have kn: "hdr ! 3 = S_ATP_I4 \<or> hdr ! 3 = S_ATP_ID \<or> hdr ! 3 = S_ATP_I6"
    using known False h3 by auto
  then have o7: "7 \<le> o'"
    using uint_ge_0[of "hdr ! 4"] by (auto simp: o'_def s5_size_def)
  show ?thesis
  proof (cases "n < o'")
    case True
    then show ?thesis
      using False hdr by (simp add: s5_get_addr_def o'_def Let_def)
  next
    case fits: False
    obtain p where p: "rdn buffer (base + o' - 2) 2 = Some p"
      using rdn_Some[of "base + o' - 2" 2 buffer] assms(1,2) fits o7 by auto
    note eq = s5_get_addr_fits[OF hdr _ fits[unfolded o'_def], of k addr ty w, folded o'_def]
    consider "hdr ! 3 = S_ATP_I4" "o' = 10" | "hdr ! 3 = S_ATP_ID" "o' = uint (hdr ! 4) + 7" | "hdr ! 3 = S_ATP_I6" "o' = 22"
      using kn by (auto simp: o'_def s5_size_def)
    then show ?thesis
    proof cases
      case 1
      then obtain a where "rdn buffer (base + 4) 4 = Some a"
        using rdn_Some[of "base + 4" 4 buffer] assms(1,2) fits by auto
      then show ?thesis using 1 eq[OF False] p fits by simp
    next
      case 2
      obtain r a w' where "resolve k buffer (base + 5) (uint (hdr ! 4)) addr ty w = Some (r, a, w')"
        using resolve_safe[of "base + 5" "uint (hdr ! 4)" buffer k addr ty w] 2 assms(1,2) fits by auto
      then show ?thesis using 2 eq[OF False] p fits o7 by simp
    next
      case 3
      then obtain a where "rdn buffer (base + 4) 16 = Some a"
        using rdn_Some[of "base + 4" 16 buffer] assms(1,2) fits by auto
      then show ?thesis using 3 eq[OF False] p fits by simp
    qed
  qed
qed

text \<open>
  An address type the protocol does not have is not rejected: the size is 0, and the port is
  copied from the two bytes before the request, which for a request at the start of its buffer
  are outside of it.
\<close>

text \<open>
  C30. With any other address type \<open>s5_get_addr\<close> leaves the request: the size it computes is 0 and
  the port is read two bytes before the buffer.
\<close>

theorem s5_get_addr_unknown_type:
  assumes "8 \<le> n" and "n \<le> int (length buffer)" and "buffer ! 3 \<notin> {S_ATP_I4, S_ATP_ID, S_ATP_I6}"
  shows "s5_get_addr k buffer 0 n addr ty w = None"
proof -
  obtain hdr where hdr: "rdn buffer 0 5 = Some hdr"
    using rdn_Some[of 0 5 buffer] assms by auto
  have "hdr ! 3 = buffer ! 3"
    using hdr assms by (auto simp: rdn_def split: if_splits)
  then show ?thesis
    using assms hdr by (simp add: s5_get_addr_def s5_size_def Let_def rdn_def)
qed

lemma has_none_iff: "has_none xs \<longleftrightarrow> S_AUTH_NONE \<in> set xs"
  by (induction xs) auto

text \<open>
  The method negotiation: a well-formed greeting is answered with two bytes, "no
  authentication" when the client offers it and "no acceptable method" otherwise, and only
  the first is a success.
\<close>

text \<open>
  C29. \<open>auth_socks5\<close> answers a method list with exactly one two-byte message: method 0 when the
  client offers it and 255 otherwise, and succeeds only in the first case and when the answer
  was sent.
\<close>

theorem auth_socks5_reply:
  assumes "buffer = [ver, nm] @ methods @ rest" and "uint nm = int (length methods)" and "methods \<noteq> []"
  shows "\<exists>buffer' w'. auth_socks5 k f buffer (2 + int (length methods)) w =
     Some (if 0 \<le> ret (fst (sys k (Send f [ver, if 0 \<in> set methods then 0 else 0xff] 0) w)) \<and> 0 \<in> set methods
           then 0 else - 1, buffer', w')
     \<and> w' = snd (sys k (Send f [ver, if 0 \<in> set methods then 0 else 0xff] 0) w)"
proof -
  have "rdn buffer 2 (int (length methods)) = Some methods"
    using assms by (simp add: rdn_def numeral_2_eq_2)
  moreover have "rd buffer 1 = Some nm" "rdn (buffer[1 := c]) 0 2 = Some [ver, c]"
    "wr buffer 1 c = Some (buffer[1 := c])" for c
    using assms by (simp_all add: rd_def rdn_def wr_def numeral_2_eq_2)
  ultimately show ?thesis
    using assms(2,3)
    by (simp add: auth_socks5_def Let_def has_none_iff split_beta)
qed

section \<open>Witnesses\<close>

definition demo_v4 :: bytes where
  "demo_v4 = [2, 0, 1, 187, 93, 184, 216, 34] @ replicate 20 0"

lemma demo_v4_simps: "sockaddr_ok demo_v4" "sa_family demo_v4 = AF_INET"
  by (simp_all add: demo_v4_def sockaddr_ok_def sa_family_def)

theorem s5_addr_round_trip_witness:
  "\<exists>addr'. s5_get_addr plain_kernel [5, 0, 0, 1, 93, 184, 216, 34, 1, 187] 0 10 (replicate 28 0) SOCK_STREAM
        (start_world default_params) = Some (10, addr', start_world default_params)
     \<and> sa_family addr' = sa_family demo_v4 \<and> take 2 (drop 2 addr') = take 2 (drop 2 demo_v4)
     \<and> (sa_family demo_v4 = AF_INET \<longrightarrow> sin_addr addr' = sin_addr demo_v4)
     \<and> (sa_family demo_v4 = AF_INET6 \<longrightarrow> sin6_addr addr' = sin6_addr demo_v4)"
proof (rule s5_addr_round_trip)
  show "s5_set_addr [5, 0, 0, 0, 0, 0, 0, 0, 0, 0] 0 10 demo_v4 False =
      Some (10, [5, 0, 0, 1, 93, 184, 216, 34, 1, 187])"
    by code_simp
qed (simp_all add: demo_v4_def sa_family_def sockaddr_ok_def)

theorem s5_get_addr_safe_witness:
  "\<exists>r a w'. s5_get_addr plain_kernel [5, 1, 0, 1, 93, 184, 216, 34, 1, 187] 0 10 (replicate 28 0) SOCK_STREAM
        (start_world default_params) = Some (r, a, w') \<and> (r < 0 \<or> 7 \<le> r \<and> r \<le> 10)"
  by (rule s5_get_addr_safe) simp_all

theorem s5_get_addr_unknown_type_witness:
  "s5_get_addr plain_kernel [5, 1, 0, 2, 93, 184, 216, 34, 1, 187] 0 10 (replicate 28 0) SOCK_STREAM
     (start_world default_params) = None"
  by (rule s5_get_addr_unknown_type) simp_all

theorem auth_socks5_reply_witness:
  "\<exists>buffer' w'. auth_socks5 plain_kernel 7 [5, 2, 1, 0] (2 + int (length [1, 0 :: byte])) (start_world default_params) =
     Some (if 0 \<le> ret (fst (sys plain_kernel (Send 7 [5, if 0 \<in> set [1, 0 :: byte] then 0 else 0xff] 0) (start_world default_params)))
              \<and> 0 \<in> set [1, 0 :: byte] then 0 else - 1, buffer', w')
     \<and> w' = snd (sys plain_kernel (Send 7 [5, if 0 \<in> set [1, 0 :: byte] then 0 else 0xff] 0) (start_world default_params))"
  by (rule auth_socks5_reply[where nm = 2 and rest = "[]"]) simp_all

end
