(* ===== verification/Conn.thy ===== *)
theory Conn
  imports Conev Desync Socks
begin

text \<open>
  Outgoing connections: \<open>create_conn\<close> and \<open>udp_associate\<close> of \<open>byedpi/proxy.c\<close> with the
  socket set-up of \<open>byedpi/extend.c\<close> (\<open>socket_mod\<close>, \<open>protect\<close>, \<open>set_timeout\<close>). A
  function returns the C result and the new world.
\<close>

section \<open>Socket set-up\<close>

definition set_timeout :: "kernel \<Rightarrow> int \<Rightarrow> int \<Rightarrow> world \<Rightarrow> int \<times> world" where
  "set_timeout k f s w =
     (let (r, w) = sys k (Setsockopt f TCP_USER_TIMEOUT [s]) w
      in (if ret r \<noteq> 0 then - 1 else 0, w))"

text \<open>
  The descriptor is passed to the process that listens at \<open>path\<close>, which answers with one
  byte. \<open>sun_path\<close> has 108 bytes, the terminating NUL included.
\<close>

definition protect :: "kernel \<Rightarrow> int \<Rightarrow> bytes \<Rightarrow> world \<Rightarrow> (int \<times> world) option" where
  "protect k conn_fd path w = do {
     c_assert (length path < 108);
     let (s, w) = sys k (Socket 1 SOCK_STREAM) w;
     let f = ret s;
     if f < 0 then Some (- 1, w)
     else do {
       let w = snd (sys k (Setsockopt f SO_RCVTIMEO [1]) w);
       let w = snd (sys k (Setsockopt f SO_SNDTIMEO [1]) w);
       let (c, w) = sys k (Connect_un f path) w;
       if ret c \<noteq> 0 then Some (- 1, snd (sys k (Close f) w))
       else do {
         let (m, w) = sys k (Sendmsg_fd f conn_fd) w;
         if ret m < 0 then Some (- 1, snd (sys k (Close f) w))
         else do {
           let (r, w) = sys k (Recv f 1) w;
           let w = snd (sys k (Close f) w);
           Some (if ret r < 1 then - 1 else 0, w)
         }
       }
     }
   }"

definition socket_mod :: "kernel \<Rightarrow> int \<Rightarrow> bytes \<Rightarrow> world \<Rightarrow> (int \<times> world) option" where
  "socket_mod k f dst w = do {
     let (t, w) = (if custom_ttl (prm w) then setttl k f (def_ttl (prm w)) (get_family dst) w else (0, w));
     if t < 0 then Some (- 1, w)
     else case protect_path (prm w) of
       Some path \<Rightarrow> protect k f path w
     | None \<Rightarrow> Some (0, w)
   }"

section \<open>Connecting\<close>

definition close_fail :: "kernel \<Rightarrow> int \<Rightarrow> world \<Rightarrow> (int \<times> world) option" where
  "close_fail k f w = Some (- 1, snd (sys k (Close f) w))"

text \<open>The options of a fresh TCP socket, up to \<open>connect\<close>; the result is 0 or -1.\<close>

definition prepare_socket :: "kernel \<Rightarrow> int \<Rightarrow> bytes \<Rightarrow> world \<Rightarrow> (int \<times> world) option" where
  "prepare_socket k sfd addr w = do {
     (m, w) \<leftarrow> socket_mod k sfd addr w;
     if m < 0 then close_fail k sfd w
     else do {
       let (v, w) = opt_sockopt k (sa_family addr = AF_INET6) sfd IPV6_V6ONLY [0] w;
       if v \<noteq> 0 then close_fail k sfd w
       else do {
         let (b, w) = sys k (Bind sfd (take (SA_SIZE (baddr (prm w))) (baddr (prm w)))) w;
         if ret b < 0 then close_fail k sfd w
         else do {
           let (s, w) = opt_sockopt k True sfd TCP_SYNCNT [1] w;
           if s \<noteq> 0 then close_fail k sfd w
           else do {
             let (t, w) = opt_sockopt k (tfo (prm w)) sfd TCP_FASTOPEN_CONNECT [1] w;
             if t \<noteq> 0 then close_fail k sfd w
             else do {
               let (n, w) = opt_sockopt k True sfd TCP_NODELAY [1] w;
               if n \<noteq> 0 then close_fail k sfd w else Some (0, w)
             }
           }
         }
       }
     }
   }"

definition create_conn :: "kernel \<Rightarrow> nat \<Rightarrow> bytes \<Rightarrow> eid \<Rightarrow> world \<Rightarrow> (int \<times> world) option" where
  "create_conn k val dst next w = do {
     let addr = map_fix dst (sa_family (baddr (prm w)) = AF_INET6);
     if sa_family addr \<noteq> sa_family (baddr (prm w)) then Some (- 1, w)
     else do {
       let (sfd, w) = nb_socket k (sa_family addr) SOCK_STREAM w;
       if sfd < 0 then Some (- 1, w)
       else do {
         (p, w) \<leftarrow> prepare_socket k sfd addr w;
         if p < 0 then Some (- 1, w)
         else do {
           let (c, w) = sys k (Connect sfd (take (SA_SIZE addr) addr)) w;
           if ret c < 0 \<and> errno w \<noteq> EINPROGRESS \<and> errno w \<noteq> EAGAIN then close_fail k sfd w
           else do {
             (q, w) \<leftarrow> add_event k next sfd POLLOUT w;
             case q of
               None \<Rightarrow> close_fail k sfd w
             | Some q \<Rightarrow> do {
                 w \<leftarrow> set_ev val (\<lambda>x. x\<lparr>pair := Some q\<rparr>) w;
                 w \<leftarrow> set_ev q (\<lambda>x. x\<lparr>pair := Some val, in6 := dst, flag := FLAG_CONN\<rparr>) w;
                 w \<leftarrow> set_ev val (\<lambda>x. x\<lparr>etype := EV_IGNORE\<rparr>) w;
                 Some (0, w)
               }
           }
         }
       }
     }
   }"

text \<open>
  The two sockets of a UDP association. The test after the second \<open>add_event\<close> looks at the
  first connection, as in the source, so that a null \<open>client\<close> is dereferenced.
\<close>

definition udp_remote :: "kernel \<Rightarrow> bytes \<Rightarrow> world \<Rightarrow> ((nat \<times> int) option \<times> world) option" where
  "udp_remote k dst w = do {
     let fam = sa_family (baddr (prm w));
     let (ufd, w) = nb_socket k fam SOCK_DGRAM w;
     if ufd < 0 then Some (None, w)
     else do {
       let (v, w) = opt_sockopt k (fam = AF_INET6) ufd IPV6_V6ONLY [0] w;
       if v \<noteq> 0 then Some (None, snd (sys k (Close ufd) w))
       else do {
         let addr = (if fam = AF_INET6 then map_fix dst True else dst);
         let (b, w) = sys k (Bind ufd (take (SA_SIZE (baddr (prm w))) (baddr (prm w)))) w;
         if ret b < 0 then Some (None, snd (sys k (Close ufd) w))
         else do {
           (q, w) \<leftarrow> add_event k EV_UDP_TUNNEL ufd POLLIN w;
           case q of
             None \<Rightarrow> Some (None, snd (sys k (Close ufd) w))
           | Some q \<Rightarrow>
               if sa_port_raw dst = 0 then Some (Some (q, ufd), w)
               else do {
                 (m, w) \<leftarrow> socket_mod k ufd addr w;
                 if m < 0 then do { w \<leftarrow> del_event k q w; Some (None, w) }
                 else do {
                   let (c, w) = sys k (Connect ufd (take (SA_SIZE addr) addr)) w;
                   if ret c < 0 then do { w \<leftarrow> del_event k q w; Some (None, w) }
                   else do { w \<leftarrow> set_ev q (\<lambda>x. x\<lparr>in6 := addr\<rparr>) w; Some (Some (q, ufd), w) }
                 }
               }
         }
       }
     }
   }"

definition udp_associate :: "kernel \<Rightarrow> nat \<Rightarrow> bytes \<Rightarrow> world \<Rightarrow> (int \<times> world) option" where
  "udp_associate k val dst w = do {
     (u, w) \<leftarrow> udp_remote k dst w;
     case u of
       None \<Rightarrow> Some (- 1, w)
     | Some (pair', ufd) \<Rightarrow> do {
         v \<leftarrow> get_ev val w;
         let (g, w) = sys k (Getsockname (fd v)) w;
         if ret g \<noteq> 0 then Some (- 1, w)
         else do {
           let addr = set_port 0 0 (out g);
           let (cfd, w) = nb_socket k (sa_family addr) SOCK_DGRAM w;
           if cfd < 0 then do { w \<leftarrow> del_event k pair' w; Some (- 1, w) }
           else do {
             let (b, w) = sys k (Bind cfd (take (SA_SIZE addr) addr)) w;
             if ret b < 0 then do {
               w \<leftarrow> del_event k pair' w;
               Some (- 1, snd (sys k (Close cfd) w))
             }
             else do {
               (client, w) \<leftarrow> add_event k EV_UDP_TUNNEL cfd POLLIN w;
               client \<leftarrow> client;
               w \<leftarrow> set_ev val (\<lambda>x. x\<lparr>etype := EV_IGNORE, pair := Some client\<rparr>) w;
               v \<leftarrow> get_ev val w;
               w \<leftarrow> set_ev client (\<lambda>x. x\<lparr>pair := Some pair'\<rparr>) w;
               w \<leftarrow> set_ev pair' (\<lambda>x. x\<lparr>pair := Some val\<rparr>) w;
               w \<leftarrow> set_ev client (\<lambda>x. x\<lparr>flag := FLAG_CONN, in6 := set_port 0 0 (in6 v)\<rparr>) w;
               let (g, w) = sys k (Getsockname cfd) w;
               if ret g \<noteq> 0 then Some (- 1, w)
               else do {
                 (len, s5r) \<leftarrow> s5_set_addr (5 # replicate 21 0) 0 22 (out g) False;
                 if len < 0 then Some (- 1, w)
                 else do {
                   let (s, w) = sys k (Send (fd v) (take (nat len) s5r) 0) w;
                   if ret s < 0 then Some (- 1, w)
                   else do {
                     (m, w) \<leftarrow> mod_etype k val 0 w;
                     Some (if m \<noteq> 0 then - 1 else 0, w)
                   }
                 }
               }
             }
           }
         }
       }
   }"

end
