(* ===== verification/Extend.thy ===== *)
theory Extend
  imports Conn
begin

text \<open>
  Strategy selection of \<open>byedpi/extend.c\<close>: which desynchronisation parameters a connection
  uses, the cache of the strategy that worked for an address, the detection of a blocked
  connection, and the retry with the next strategy. The buffer of a connection holds the
  client's first packet until the server's answer is accepted.
\<close>

section \<open>The strategy cache\<close>

text \<open>
  The key is the start of the socket address, without its last bytes: 14 of 16 bytes for IPv4,
  22 of 28 for IPv6.
\<close>

definition cache_key :: "bytes \<Rightarrow> bytes" where
  "cache_key dst = take (if sa_family dst = AF_INET then 16 - 2 else 28 - 4 - 2) dst"

definition mode_add_get :: "kernel \<Rightarrow> bytes \<Rightarrow> int \<Rightarrow> world \<Rightarrow> (int \<times> world) option" where
  "mode_add_get k dst m w = do {
     c_assert (- 1 \<le> m \<and> m < int (length (dp (prm w))));
     let str = cache_key dst;
     hdr \<leftarrow> mempool (prm w);
     if m = 0 then do {
       hdr \<leftarrow> mem_delete hdr str;
       Some (0, w\<lparr>prm := (prm w)\<lparr>mempool := Some hdr\<rparr>\<rparr>)
     }
     else if 0 < m then do {
       let (t, w) = sys k Time w;
       let (c, w) = sys k (Malloc 72) w;
       let (d, w) = (if ret c \<noteq> 0 \<and> \<not> stat hdr then sys k (Malloc (int (length str))) w else (c, w));
       (v, hdr) \<leftarrow> mem_add (ret c \<noteq> 0) (ret d \<noteq> 0) hdr str;
       case v of
         None \<Rightarrow> Some (- 1, w\<lparr>prm := (prm w)\<lparr>mempool := Some hdr\<rparr>\<rparr>)
       | Some v \<Rightarrow>
           Some (0, w\<lparr>prm := (prm w)\<lparr>mempool := Some (mem_set hdr str (v\<lparr>e_m := m, e_time := ret t\<rparr>))\<rparr>\<rparr>)
     }
     else case mem_get hdr str of
       None \<Rightarrow> Some (- 1, w)
     | Some v \<Rightarrow> do {
         let (t, w) = sys k Time w;
         Some (if e_time v + cache_ttl (prm w) < ret t then 0 else e_m v, w)
       }
   }"

section \<open>Matching a packet against the options\<close>

text \<open>The ports are compared as the machine reads them, in network byte order.\<close>

definition check_port :: "u16 \<times> u16 \<Rightarrow> bytes \<Rightarrow> bool" where
  "check_port p dst \<longleftrightarrow> uint (fst p) \<le> sa_port_raw dst \<and> sa_port_raw dst \<le> uint (snd p)"

text \<open>The name and each of its parent domains, from the most specific on.\<close>

function check_host_loop :: "mphdr \<Rightarrow> bytes \<Rightarrow> nat \<Rightarrow> nat \<Rightarrow> bool option" where
  "check_host_loop hs b host e =
     (if host < e then do {
        name \<leftarrow> rdn b (int host) (int (e - host));
        if mem_get hs name \<noteq> None then Some True
        else do {
          q \<leftarrow> memchr b host (e - host) 46;
          case q of
            None \<Rightarrow> Some False
          | Some p \<Rightarrow> check_host_loop hs b (Suc p) e
        }
      }
      else Some False)"
  by pat_completeness auto
termination
  by (relation "measure (\<lambda>(hs, b, host, e). e - host)") (auto dest: memchr_Some_SomeD)

declare check_host_loop.simps [simp del]

definition check_host :: "mphdr \<Rightarrow> eval \<Rightarrow> bool option" where
  "check_host hs val = do {
     b \<leftarrow> buff_data val;
     let n = nat (buff_size val);
     (len, host) \<leftarrow> parse_tls b n;
     (len, host) \<leftarrow> (if len \<noteq> 0 then Some (len, host)
                     else do { (l, h, _) \<leftarrow> parse_http b n False;
                               Some (l, if h = None then host else h) });
     c_assert (len = 0 \<or> host \<noteq> None);
     if len \<le> 0 then Some False
     else case host of
       None \<Rightarrow> None
     | Some h \<Rightarrow> check_host_loop hs b h (h + nat len)
   }"

definition check_proto_tcp :: "int \<Rightarrow> eval \<Rightarrow> bool option" where
  "check_proto_tcp pr val =
     (if bit_test pr IS_TCP then Some True
      else do {
        b \<leftarrow> buff_data val;
        let n = nat (buff_size val);
        h \<leftarrow> (if bit_test pr IS_HTTP then is_http b n else Some False);
        if h then Some True
        else if bit_test pr IS_HTTPS then is_tls_chello b n else Some False
      })"

section \<open>Connecting with a strategy, and trying the next one\<close>

definition connect_hook :: "kernel \<Rightarrow> nat \<Rightarrow> bytes \<Rightarrow> eid \<Rightarrow> world \<Rightarrow> (int \<times> world) option" where
  "connect_hook k val dst next w = do {
     (m, w) \<leftarrow> mode_add_get k dst (- 1) w;
     w \<leftarrow> set_ev val (\<lambda>x. x\<lparr>cache := (m = 0), attempt := (if m < 0 then 0 else m)\<rparr>) w;
     create_conn k val dst next w
   }"

definition reconnect :: "kernel \<Rightarrow> nat \<Rightarrow> int \<Rightarrow> world \<Rightarrow> (int \<times> world) option" where
  "reconnect k val m w = do {
     v \<leftarrow> get_ev val w;
     client \<leftarrow> pair v;
     (c, w) \<leftarrow> create_conn k client (in6 v) EV_DESYNC w;
     if c \<noteq> 0 then Some (- 1, w)
     else do {
       w \<leftarrow> set_ev val (\<lambda>x. x\<lparr>pair := None\<rparr>) w;
       w \<leftarrow> del_event k val w;
       w \<leftarrow> set_ev client (\<lambda>x. x\<lparr>etype := EV_IGNORE, attempt := m, cache := True, buff_offset := 0\<rparr>) w;
       Some (0, w)
     }
   }"

text \<open>
  The search for the next strategy from \<open>m\<close> on. A strategy without \<open>detect\<close> ends it
  (\<open>Inl ()\<close>); otherwise the result is the first index whose test holds, or the number of
  strategies.
\<close>

fun next_mode :: "(desync_params \<Rightarrow> bool option) \<Rightarrow> desync_params list \<Rightarrow> int \<Rightarrow> (unit + int) option" where
  "next_mode t [] m = Some (Inr m)"
| "next_mode t (d # ds) m =
     (if detect d = 0 then Some (Inl ())
      else do { b \<leftarrow> t d; if b then Some (Inr m) else next_mode t ds (m + 1) })"

definition pair_of :: "nat \<Rightarrow> world \<Rightarrow> (nat \<times> eval) option" where
  "pair_of val w = do {
     v \<leftarrow> get_ev val w;
     c \<leftarrow> pair v;
     cv \<leftarrow> get_ev c w;
     Some (c, cv)
   }"

definition on_torst :: "kernel \<Rightarrow> nat \<Rightarrow> world \<Rightarrow> (int \<times> world) option" where
  "on_torst k val w = do {
     (c, cv) \<leftarrow> pair_of val w;
     let m = attempt cv + 1;
     c_assert (0 \<le> m);
     r \<leftarrow> next_mode (\<lambda>d. Some (bit_test (detect d) DETECT_TORST)) (drop (nat m) (dp (prm w))) m;
     case r of
       Inl _ \<Rightarrow> Some (- 1, w)
     | Inr m \<Rightarrow>
         if int (length (dp (prm w))) \<le> m then do {
           v \<leftarrow> get_ev val w;
           (_, w) \<leftarrow> mode_add_get k (in6 v) 0 w;
           Some (- 1, w)
         }
         else reconnect k val m w
   }"

definition on_fin :: "kernel \<Rightarrow> nat \<Rightarrow> world \<Rightarrow> (int \<times> world) option" where
  "on_fin k val w = do {
     (c, cv) \<leftarrow> pair_of val w;
     let m = attempt cv + 1;
     c_assert (0 \<le> m);
     r \<leftarrow> next_mode
           (\<lambda>d. if bit_test (detect d) DETECT_TLS_ERR
                then do { b \<leftarrow> buff_data cv; is_tls_chello b (nat (buff_size cv)) } else Some False)
           (drop (nat m) (dp (prm w))) m;
     case r of
       Inl _ \<Rightarrow> Some (- 1, w)
     | Inr m \<Rightarrow> if int (length (dp (prm w))) \<le> m then Some (- 1, w) else reconnect k val m w
   }"

text \<open>Whether the answer \<open>resp\<close> (its first \<open>sn\<close> bytes) looks blocked to strategy \<open>d\<close>.\<close>

definition response_blocked :: "bytes \<Rightarrow> nat \<Rightarrow> bytes \<Rightarrow> nat \<Rightarrow> desync_params \<Rightarrow> bool option" where
  "response_blocked req qn resp sn d = do {
     a \<leftarrow> (if bit_test (detect d) DETECT_HTTP_LOCAT then is_http_redirect req qn resp sn else Some False);
     if a then Some True
     else if bit_test (detect d) DETECT_TLS_ERR then do {
       ch \<leftarrow> is_tls_chello req qn;
       sh \<leftarrow> (if ch then is_tls_shello resp sn else Some False);
       if ch \<and> \<not> sh then Some True else neq_tls_sid req qn resp sn
     }
     else Some False
   }"

definition on_response :: "kernel \<Rightarrow> nat \<Rightarrow> bytes \<Rightarrow> nat \<Rightarrow> world \<Rightarrow> (int \<times> world) option" where
  "on_response k val resp sn w = do {
     (c, cv) \<leftarrow> pair_of val w;
     let m = attempt cv + 1;
     c_assert (0 \<le> m);
     r \<leftarrow> next_mode
           (\<lambda>d. do { req \<leftarrow> buff_data cv; response_blocked req (nat (buff_size cv)) resp sn d })
           (drop (nat m) (dp (prm w))) m;
     case r of
       Inl _ \<Rightarrow> Some (- 1, w)
     | Inr m \<Rightarrow> if m < int (length (dp (prm w))) then reconnect k val m w else Some (- 1, w)
   }"

definition to_tunnel :: "nat \<Rightarrow> world \<Rightarrow> world option" where
  "to_tunnel client w = do {
     c \<leftarrow> get_ev client w;
     q \<leftarrow> pair c;
     w \<leftarrow> set_ev q (\<lambda>x. x\<lparr>etype := EV_TUNNEL\<rparr>) w;
     c_assert (buff_data c \<noteq> None);
     set_ev client (\<lambda>x. x\<lparr>etype := EV_TUNNEL, buff_data := None, buff_size := 0, buff_offset := 0\<rparr>) w
   }"

section \<open>The handlers\<close>

definition on_tunnel_check :: "kernel \<Rightarrow> nat \<Rightarrow> bool \<Rightarrow> world \<Rightarrow> (int \<times> world) option" where
  "on_tunnel_check k val out' w = do {
     c_assert (\<not> out');
     v \<leftarrow> get_ev val w;
     (r, w) \<leftarrow> recv_into k (Recv (fd v) (bfsize (prm w))) 0 w;
     let n = ret r;
     if n < 1 then
       (if errno w = ECONNRESET \<or> errno w = ECONNREFUSED \<or> errno w = ETIMEDOUT
        then on_torst k val w else on_fin k val w)
     else do {
       (q, w) \<leftarrow> on_response k val (buf w) (nat n) w;
       if q = 0 then Some (0, w)
       else do {
         w \<leftarrow> set_ev val (\<lambda>x. x\<lparr>recv_count := recv_count x + n\<rparr>) w;
         (c, cv) \<leftarrow> pair_of val w;
         bs \<leftarrow> rdn (buf w) 0 n;
         let (s, w) = sys k (Send (fd cv) bs 0) w;
         if ret s \<noteq> n then Some (- 1, w)
         else do {
           w \<leftarrow> to_tunnel c w;
           let (t, w) = (if timeout (prm w) \<noteq> 0 then set_timeout k (fd v) 0 w else (0, w));
           if t \<noteq> 0 then Some (- 1, w)
           else do {
             let m = attempt cv;
             (p, w) \<leftarrow> post_desync k (fd v) m w;
             if p \<noteq> 0 then Some (- 1, w)
             else if \<not> cache cv then Some (0, w)
             else mode_add_get k (in6 v) m w
           }
         }
       }
     }
   }"

definition on_desync_again :: "kernel \<Rightarrow> nat \<Rightarrow> world \<Rightarrow> (int \<times> world) option" where
  "on_desync_again k val0 w = do {
     v0 \<leftarrow> get_ev val0 w;
     (e, w) \<leftarrow> (if flag v0 = FLAG_CONN then mod_etype k val0 POLLIN w else Some (0, w));
     if e \<noteq> 0 then Some (- 1, w)
     else do {
       val \<leftarrow> (if flag v0 = FLAG_CONN then pair v0 else Some val0);
       v \<leftarrow> get_ev val w;
       let m = attempt v;
       let n = buff_size v;
       c_assert (0 < n \<and> n \<le> bfsize (prm w));
       data \<leftarrow> buff_data v;
       bs \<leftarrow> rdn data 0 n;
       b \<leftarrow> wrn (buf w) 0 bs;
       let w = w\<lparr>buf := b\<rparr>;
       (q, qv) \<leftarrow> pair_of val w;
       let (t, w) = (if timeout (prm w) \<noteq> 0 then set_timeout k (fd qv) (timeout (prm w)) w else (0, w));
       if t \<noteq> 0 then Some (- 1, w)
       else do {
         (sn, b, w) \<leftarrow> desync k (fd qv) (buf w) (bfsize (prm w)) n (buff_offset v) (in6 qv) m w;
         let w = w\<lparr>buf := b\<rparr>;
         if sn < 0 then Some (- 1, w)
         else do {
           w \<leftarrow> set_ev val (\<lambda>x. x\<lparr>buff_offset := buff_offset x + sn\<rparr>) w;
           if sn < n then do {
             (e, w) \<leftarrow> mod_etype k q POLLOUT w;
             if e \<noteq> 0 then Some (- 1, w)
             else do { w \<leftarrow> set_ev q (\<lambda>x. x\<lparr>etype := EV_DESYNC\<rparr>) w; Some (0, w) }
           }
           else do { w \<leftarrow> set_ev q (\<lambda>x. x\<lparr>etype := EV_PRE_TUNNEL\<rparr>) w; Some (0, w) }
         }
       }
     }
   }"

text \<open>The first strategy without \<open>detect\<close> whose filters accept the packet.\<close>

fun pick_mode :: "bytes \<Rightarrow> eval \<Rightarrow> desync_params list \<Rightarrow> int \<Rightarrow> int option" where
  "pick_mode dst val [] m = Some m"
| "pick_mode dst val (d # ds) m =
     (if detect d = 0 \<and> (fst (pf d) = 0 \<or> check_port (pf d) dst) then do {
        p \<leftarrow> (if proto d = 0 then Some True else check_proto_tcp (proto d) val);
        h \<leftarrow> (if \<not> p then Some False
              else case hosts d of None \<Rightarrow> Some True | Some hs \<Rightarrow> check_host hs val);
        if h then Some m else pick_mode dst val ds (m + 1)
      }
      else pick_mode dst val ds (m + 1))"

definition on_desync :: "kernel \<Rightarrow> nat \<Rightarrow> bool \<Rightarrow> world \<Rightarrow> (int \<times> world) option" where
  "on_desync k val out' w =
     (if out' then on_desync_again k val w
      else do {
        v \<leftarrow> get_ev val w;
        if buff_size v = bfsize (prm w) then do { w \<leftarrow> to_tunnel val w; Some (0, w) }
        else do {
          (r, w) \<leftarrow> recv_into k (Recv (fd v) (bfsize (prm w) - buff_size v)) 0 w;
          let n = ret r;
          if n \<le> 0 then Some (- 1, w)
          else do {
            let sz = buff_size v + n;
            let (a, w) = sys k (Realloc sz) w;
            new \<leftarrow> rdn (buf w) 0 n;
            let old = (case buff_data v of Some d \<Rightarrow> d | None \<Rightarrow> []);
            w \<leftarrow> set_ev val (\<lambda>x. x\<lparr>buff_size := sz, recv_count := recv_count x + n,
                   buff_data := (if ret a = 0 then None else Some (old @ new))\<rparr>) w;
            if ret a = 0 then Some (- 1, w)
            else do {
              v \<leftarrow> get_ev val w;
              (q, qv) \<leftarrow> pair_of val w;
              m \<leftarrow> (if attempt v = 0 then pick_mode (in6 qv) v (dp (prm w)) 0 else Some (attempt v));
              if int (length (dp (prm w))) \<le> m then Some (- 1, w)
              else do {
                w \<leftarrow> set_ev val (\<lambda>x. x\<lparr>attempt := m\<rparr>) w;
                on_desync_again k val w
              }
            }
          }
        }
      })"

fun pick_mode_udp :: "bytes \<Rightarrow> desync_params list \<Rightarrow> int \<Rightarrow> int" where
  "pick_mode_udp dst [] m = m"
| "pick_mode_udp dst (d # ds) m =
     (if detect d = 0 \<and> (proto d = 0 \<or> bit_test (proto d) IS_UDP) \<and> (fst (pf d) = 0 \<or> check_port (pf d) dst)
      then m else pick_mode_udp dst ds (m + 1))"

text \<open>The datagram is the \<open>n\<close> bytes of the buffer from \<open>start\<close> on.\<close>

definition udp_hook :: "kernel \<Rightarrow> nat \<Rightarrow> int \<Rightarrow> int \<Rightarrow> bytes \<Rightarrow> world \<Rightarrow> (int \<times> world) option" where
  "udp_hook k val start n dst w = do {
     v \<leftarrow> get_ev val w;
     if recv_count v \<noteq> 0 then do {
       bs \<leftarrow> rdn (buf w) start n;
       let (r, w) = sys k (Send (fd v) bs 0) w;
       Some (ret r, w)
     }
     else do {
       let m = (if attempt v = 0 then pick_mode_udp dst (dp (prm w)) 0 else attempt v);
       if int (length (dp (prm w))) \<le> m then Some (- 1, w)
       else desync_udp k (fd v) (buf w) start n dst m w
     }
   }"

section \<open>The host filter\<close>

text \<open>The name itself or one of its parent domains is on the list.\<close>

definition in_domain :: "mphdr \<Rightarrow> bytes \<Rightarrow> bool" where
  "in_domain hs name \<longleftrightarrow>
     (\<exists>i < length name. (i = 0 \<or> name ! (i - 1) = 46) \<and> mem_get hs (drop i name) \<noteq> None)"

lemma in_domain_parent:
  assumes "mem_get hs name = None" and "p < length name" and "name ! p = 46" and "\<forall>i < p. name ! i \<noteq> 46"
  shows "in_domain hs name \<longleftrightarrow> in_domain hs (drop (Suc p) name)"
proof
  assume "in_domain hs name"
  then obtain i where i: "i < length name" "name ! (i - 1) = 46" "i \<noteq> 0" "mem_get hs (drop i name) \<noteq> None"
    using assms(1) unfolding in_domain_def by (metis drop0)
  then have "p \<le> i - 1"
    using assms(4) not_less by blast
  then have "Suc p \<le> i"
    using i(3) by simp
  then obtain j where "i = Suc p + j"
    using le_Suc_ex by blast
  then show "in_domain hs (drop (Suc p) name)"
    unfolding in_domain_def using i by (intro exI[of _ j]) (cases j, auto simp: add.commute)
next
  assume "in_domain hs (drop (Suc p) name)"
  then obtain i where i: "i < length name - Suc p" "i = 0 \<or> name ! (Suc p + (i - 1)) = 46"
    "mem_get hs (drop (i + Suc p) name) \<noteq> None"
    by (auto simp: in_domain_def)
  then show "in_domain hs name"
    unfolding in_domain_def using assms(2,3)
    by (intro exI[of _ "i + Suc p"]) (cases i, auto simp: add.commute)
qed

lemma check_host_loop_domain:
  assumes "h + n \<le> length b"
  shows "check_host_loop hs b h (h + n) = Some (in_domain hs (take n (drop h b)))"
  using assms
proof (induction n arbitrary: h rule: less_induct)
  case (less n)
  define name where "name = take n (drop h b)"
  have len: "length name = n"
    using less.prems by (simp add: name_def)
  have nth: "name ! i = b ! (h + i)" if "i < n" for i
    using that less.prems by (simp add: name_def)
  have rdn: "rdn b (int h) (int n) = Some name"
    using less.prems by (simp add: name_def cmem)
  consider "n = 0" | "n \<noteq> 0" "mem_get hs name \<noteq> None"
    | "n \<noteq> 0" "mem_get hs name = None" "memchr b h n 46 = Some None"
    | p where "n \<noteq> 0" "mem_get hs name = None" "memchr b h n 46 = Some (Some p)"
    using memchr_safe[OF less.prems, of 46] by (cases "memchr b h n 46") fastforce+
  then show ?case
  proof cases
    case 1
    then show ?thesis by (subst check_host_loop.simps) (simp add: in_domain_def)
  next
    case 2
    then have "in_domain hs name"
      unfolding in_domain_def using len by (intro exI[of _ 0]) auto
    then show ?thesis
      using 2 rdn by (subst check_host_loop.simps) (simp add: name_def[symmetric])
  next
    case 3
    have "b ! (h + i) \<noteq> 46" if "i < n" for i
      using memchr_Some_NoneD[OF 3(3), of "h + i"] that by simp
    then have "name ! (i - 1) \<noteq> 46" if "i < length name" for i
      using that nth len by simp
    then have "\<not> in_domain hs name"
      using 3(2) unfolding in_domain_def by (metis drop0)
    then show ?thesis
      using 3 rdn by (subst check_host_loop.simps) (simp add: name_def[symmetric])
  next
    case 4
    note p = memchr_Some_SomeD[OF 4(3)]
    define m where "m = n - Suc (p - h)"
    have m: "Suc p + m = h + n" "m < n" "Suc p + m \<le> length b"
      using p less.prems 4(1) by (auto simp: m_def)
    have "in_domain hs name \<longleftrightarrow> in_domain hs (drop (Suc (p - h)) name)"
      using p 4(2) len nth by (intro in_domain_parent) auto
    moreover have "drop (Suc (p - h)) name = take m (drop (Suc p) b)"
      using p by (simp add: name_def m_def drop_take)
    ultimately show ?thesis
      using 4 rdn less.IH[OF m(2,3)] m(1) by (subst check_host_loop.simps) (simp add: name_def[symmetric])
  qed
qed

text \<open>
  The host a packet names: the server name of its ClientHello, or else the host of the \<open>Host\<close>
  header of its HTTP request. An empty name is none.
\<close>

definition packet_host :: "bytes \<Rightarrow> nat \<Rightarrow> bytes option" where
  "packet_host b n =
     (case parse_tls b n of
        Some (len, Some h) \<Rightarrow>
          if len \<noteq> 0 then Some (take (nat len) (drop h b))
          else (case parse_http b n False of
             Some (r, Some g, _) \<Rightarrow> if 0 < r then Some (take (nat r) (drop g b)) else None
           | _ \<Rightarrow> None)
      | _ \<Rightarrow> (case parse_http b n False of
             Some (r, Some g, _) \<Rightarrow> if 0 < r then Some (take (nat r) (drop g b)) else None
           | _ \<Rightarrow> None))"

lemma http_host_inside:
  assumes "http_host_at b n h r" and "0 < r"
  shows "h + nat r \<le> n"
  using assms unfolding http_host_at_def by auto

lemma check_host_http:
  assumes d: "buff_data val = Some b" "nat (buff_size val) \<le> length b"
    and t: "parse_tls b (nat (buff_size val)) = Some (0, h0)"
  shows "check_host hs val = Some (case parse_http b (nat (buff_size val)) False of
       Some (r, Some g, _) \<Rightarrow> 0 < r \<and> in_domain hs (take (nat r) (drop g b)) | _ \<Rightarrow> False)"
proof -
  obtain r g p where g: "parse_http b (nat (buff_size val)) False = Some (r, g, p)"
    "case g of None \<Rightarrow> r = 0 | Some h \<Rightarrow> http_host_at b (nat (buff_size val)) h r"
    using parse_http_host[OF d(2), of False] by blast
  show ?thesis
  proof (cases g)
    case None
    then show ?thesis
      using g d t by (simp add: check_host_def)
  next
    case (Some h)
    show ?thesis
    proof (cases "0 < r")
      case True
      then have "h + nat r \<le> length b"
        using http_host_inside[of b "nat (buff_size val)" h r] g(2) Some d(2) by simp
      then show ?thesis
        using check_host_loop_domain[of h "nat r" b hs] g d t Some True by (simp add: check_host_def)
    next
      case False
      then show ?thesis
        using g d t Some by (simp add: check_host_def)
    qed
  qed
qed

lemma check_host_tls:
  assumes d: "buff_data val = Some b" "nat (buff_size val) \<le> length b"
    and t: "parse_tls b (nat (buff_size val)) = Some (len, Some h)" "len \<noteq> 0"
  shows "check_host hs val = Some (in_domain hs (take (nat len) (drop h b)))"
proof -
  have l: "0 < len" "int h + len \<le> int (nat (buff_size val))"
    using parse_tls_host[OF d(2)] t by auto
  then have "h + nat len \<le> length b"
    using d(2) by linarith
  then show ?thesis
    using l(1) check_host_loop_domain[of h "nat len" b hs] d t by (simp add: check_host_def)
qed

text \<open>
  C34. The host filter of a strategy, on every packet in the buffer: \<open>check_host\<close> returns, reads
  only inside the packet and answers whether the host the packet names (the server name of a
  ClientHello, or else the \<open>Host\<close> header of an HTTP request) or one of its parent domains is on
  the list, however many labels it has; a packet that names none is not matched.
\<close>

theorem check_host_matches_domain:
  assumes "buff_data val = Some b" and "nat (buff_size val) \<le> length b"
  shows "check_host hs val = Some (case packet_host b (nat (buff_size val)) of
       None \<Rightarrow> False | Some name \<Rightarrow> in_domain hs name)"
proof -
  obtain len h0 where t: "parse_tls b (nat (buff_size val)) = Some (len, h0)"
    "case h0 of None \<Rightarrow> len = 0 | Some h \<Rightarrow> True"
    using parse_tls_host[OF assms(2)] by (fastforce split: option.splits)
  show ?thesis
  proof (cases "len = 0")
    case True
    then show ?thesis
      using check_host_http[OF assms, of h0 hs] t
      by (auto simp: packet_host_def split: option.splits)
  next
    case False
    then obtain h where "h0 = Some h"
      using t(2) by (cases h0) auto
    then show ?thesis
      using check_host_tls[OF assms, of len h hs] t(1) False by (simp add: packet_host_def)
  qed
qed

text \<open>A request for a host on the list, and one for a host below a listed domain.\<close>

definition http_get :: bytes where
  "http_get = cstr ''GET / HTTP/1.1'' @ [10] @ cstr ''Host: a.b'' @ [10]"

theorem check_host_matches_domain_witness:
  "check_host one_host (empty_eval\<lparr>buff_data := Some tls_data, buff_size := 517\<rparr>)
     = Some (in_domain one_host (take (nat 17) (drop 153 tls_data)))
   \<and> check_host one_host (empty_eval\<lparr>buff_data := Some http_get, buff_size := 25\<rparr>)
     = Some (in_domain one_host (cstr ''a.b''))"
proof
  have "517 \<le> length tls_data" and t: "packet_host tls_data 517 = Some (take (nat 17) (drop 153 tls_data))"
    by code_simp+
  then show "check_host one_host (empty_eval\<lparr>buff_data := Some tls_data, buff_size := 517\<rparr>)
     = Some (in_domain one_host (take (nat 17) (drop 153 tls_data)))"
    using check_host_matches_domain[of "empty_eval\<lparr>buff_data := Some tls_data, buff_size := 517\<rparr>" tls_data one_host]
    by simp
  have "25 \<le> length http_get" and h: "packet_host http_get 25 = Some (cstr ''a.b'')"
    by code_simp+
  then show "check_host one_host (empty_eval\<lparr>buff_data := Some http_get, buff_size := 25\<rparr>)
     = Some (in_domain one_host (cstr ''a.b''))"
    using check_host_matches_domain[of "empty_eval\<lparr>buff_data := Some http_get, buff_size := 25\<rparr>" http_get one_host]
    by simp
qed

section \<open>The strategy cache\<close>

text \<open>
  C40. The key of the strategy cache leaves out the last two bytes of an IPv6 address, so that
  addresses that differ only there share one entry.
\<close>

theorem cache_key_drops_ipv6_tail:
  assumes "sockaddr_ok a" and "sa_family a = AF_INET6"
  shows "cache_key (a[22 := x, 23 := y]) = cache_key a
     \<and> take 2 (drop 14 (sin6_addr (a[22 := x, 23 := y]))) = [x, y]"
proof -
  have "sa_family (a[22 := x, 23 := y]) = AF_INET6"
    using assms by (simp add: sa_family_def)
  then have "cache_key (a[22 := x, 23 := y]) = cache_key a"
    using assms(2) by (simp add: cache_key_def)
  moreover have "take 2 (drop 14 (sin6_addr (a[22 := x, 23 := y]))) = [x, y]"
    using assms(1) by (intro nth_equalityI)
      (auto simp: sockaddr_ok_def sin6_addr_def less_Suc_eq numeral_2_eq_2)
  ultimately show ?thesis by blast
qed

theorem cache_key_drops_ipv6_tail_witness:
  "cache_key ((10 # replicate 27 0)[22 := 1, 23 := 2]) = cache_key (10 # replicate 27 0)
   \<and> take 2 (drop 14 (sin6_addr ((10 # replicate 27 0)[22 := 1, 23 := 2]))) = [1, 2]"
  by (rule cache_key_drops_ipv6_tail) (simp_all add: sockaddr_ok_def sa_family_def)

lemma malloc_sys: "\<forall>h n. ret (k h (Malloc n)) \<noteq> 0 \<Longrightarrow> ret (fst (sys k (Malloc n) w)) \<noteq> 0"
  by (simp add: sys_def Let_def)

lemma mode_set:
  assumes hdr: "mempool (prm w) = Some hdr" "mp_inv hdr" "mp_count hdr < 2 ^ 32 - 1"
    and m: "0 < m" "m < int (length (dp (prm w)))" and k: "\<forall>h n. ret (k h (Malloc n)) \<noteq> 0"
  defines "t \<equiv> ret (fst (sys k Time w))"
  shows "\<exists>w' hdr'. mode_add_get k dst m w = Some (0, w') \<and> prm w' = (prm w)\<lparr>mempool := Some hdr'\<rparr> \<and> mp_inv hdr'
     \<and> map_option elem_val (mem_get hdr' (cache_key dst)) = Some (m, t)
     \<and> (\<forall>str. str \<noteq> cache_key dst \<longrightarrow> map_option elem_val (mem_get hdr' str) = map_option elem_val (mem_get hdr str))"
proof -
  define w1 where "w1 = snd (sys k Time w)"
  define w2 where "w2 = snd (sys k (Malloc 72) w1)"
  define w3 where "w3 = (if stat hdr then w2 else snd (sys k (Malloc (int (length (cache_key dst)))) w2))"
  have prm: "prm w3 = prm w"
    by (simp add: w1_def w2_def w3_def)
  obtain v h1 where add: "mem_add True True hdr (cache_key dst) = Some (Some v, h1)"
    using mem_add_map[OF hdr(2,3), of "cache_key dst"] by blast
  define e where "e = v\<lparr>e_m := m, e_time := t\<rparr>"
  have run: "mode_add_get k dst m w = Some (0, w3\<lparr>prm := (prm w3)\<lparr>mempool := Some (mem_set h1 (cache_key dst) e)\<rparr>\<rparr>)"
    using hdr(1) m malloc_sys[OF k] add unfolding mode_add_get_def
    by (cases "stat hdr") (simp_all add: split_beta Let_def w1_def w2_def w3_def t_def e_def)
  have ok: "mem_add_ok hdr (cache_key dst) = Some h1" "elem_val e = (m, t)"
    using add by (simp_all add: mem_add_ok_def e_def elem_val_def)
  obtain s' where "mem_add_ok hdr (cache_key dst) = Some s'" "mp_inv (mem_set s' (cache_key dst) e)"
    "map_option elem_val (mem_get (mem_set s' (cache_key dst) e) (cache_key dst)) = Some (elem_val e)"
    "\<forall>str. str \<noteq> cache_key dst \<longrightarrow>
       map_option elem_val (mem_get (mem_set s' (cache_key dst) e) str) = map_option elem_val (mem_get hdr str)"
    using mcache.set_get[OF hdr(2,3), of "cache_key dst" e] by blast
  then show ?thesis
    using run ok prm by (intro exI[of _ "w3\<lparr>prm := (prm w3)\<lparr>mempool := Some (mem_set h1 (cache_key dst) e)\<rparr>\<rparr>"]) auto
qed

lemma mode_get:
  assumes "mempool (prm w) = Some hdr" and "0 < length (dp (prm w))"
  shows "mode_add_get k dst (- 1) w =
    (case map_option elem_val (mem_get hdr (cache_key dst)) of
       None \<Rightarrow> Some (- 1, w)
     | Some (m, t) \<Rightarrow> Some (if t + cache_ttl (prm w) < ret (fst (sys k Time w)) then 0 else m, snd (sys k Time w)))"
  using assms by (auto simp: mode_add_get_def elem_val_def split_beta split: option.splits)

text \<open>
  C35. A strategy that is stored for an address is found again until its time is over, and then
  reported as expired (0); an address with another key keeps what is stored for it.
\<close>

theorem mode_set_then_get:
  assumes "mempool (prm w) = Some hdr" and "mp_inv hdr" and "mp_count hdr < 2 ^ 32 - 1"
    and "0 < m" and "m < int (length (dp (prm w)))" and "\<forall>h n. ret (k h (Malloc n)) \<noteq> 0"
  shows "\<exists>w' hdr'. mode_add_get k dst m w = Some (0, w') \<and> mempool (prm w') = Some hdr' \<and> mp_inv hdr'
     \<and> mode_add_get k' dst (- 1) w' =
         Some (if ret (fst (sys k Time w)) + cache_ttl (prm w) < ret (fst (sys k' Time w')) then 0 else m,
               snd (sys k' Time w'))
     \<and> (\<forall>str. str \<noteq> cache_key dst \<longrightarrow>
          map_option elem_val (mem_get hdr' str) = map_option elem_val (mem_get hdr str))"
proof -
  obtain w' hdr' where w': "mode_add_get k dst m w = Some (0, w')" "prm w' = (prm w)\<lparr>mempool := Some hdr'\<rparr>" "mp_inv hdr'"
    "map_option elem_val (mem_get hdr' (cache_key dst)) = Some (m, ret (fst (sys k Time w)))"
    "\<forall>str. str \<noteq> cache_key dst \<longrightarrow> map_option elem_val (mem_get hdr' str) = map_option elem_val (mem_get hdr str)"
    using mode_set[OF assms] by blast
  have "dp (prm w) \<noteq> []"
    using assms(4,5) by auto
  then have "mode_add_get k' dst (- 1) w' =
      Some (if ret (fst (sys k Time w)) + cache_ttl (prm w) < ret (fst (sys k' Time w')) then 0 else m, snd (sys k' Time w'))"
    using mode_get[of w' hdr' k' dst] w'(2,4) by simp
  then show ?thesis
    using w' by auto
qed

definition cache_world :: world where
  "cache_world = start_world (default_params\<lparr>dp := [zero_dp, zero_dp], mempool := Some \<lparr>stat = False, root = Null\<rparr>\<rparr>)"

theorem mode_set_then_get_witness:
  "\<exists>w' hdr'. mode_add_get plain_kernel demo_v4 1 cache_world = Some (0, w') \<and> mempool (prm w') = Some hdr' \<and> mp_inv hdr'
     \<and> mode_add_get plain_kernel demo_v4 (- 1) w' =
         Some (if ret (fst (sys plain_kernel Time cache_world)) + cache_ttl (prm cache_world)
                  < ret (fst (sys plain_kernel Time w')) then 0 else 1,
               snd (sys plain_kernel Time w'))
     \<and> (\<forall>str. str \<noteq> cache_key demo_v4 \<longrightarrow>
          map_option elem_val (mem_get hdr' str) = map_option elem_val (mem_get \<lparr>stat = False, root = Null\<rparr> str))"
  by (rule mode_set_then_get)
     (simp_all add: cache_world_def start_world_def mp_inv_def mp_count_def kavl_inv_def ok_reply_def)

end
