(* ===== verification/Proxy.thy ===== *)
theory Proxy
  imports Extend
begin

text \<open>
  The event handlers and the event loop of \<open>byedpi/proxy.c\<close>. A handler returns 0 to keep the
  connection and anything else to close it. The loops that run until the kernel has nothing
  more take a number of rounds; running out of it is \<open>None\<close>.
\<close>

section \<open>Handlers\<close>

fun on_accept :: "nat \<Rightarrow> kernel \<Rightarrow> nat \<Rightarrow> world \<Rightarrow> (int \<times> world) option" where
  "on_accept 0 k val w = None"
| "on_accept (Suc n) k val w = do {
     v \<leftarrow> get_ev val w;
     let (r, w) = sys k (Accept (fd v)) w;
     let c = ret r;
     if c < 0 then Some (if errno w = EAGAIN \<or> errno w = EINPROGRESS then 0 else - 1, w)
     else do {
       let (o', w) = sys k (Setsockopt c TCP_NODELAY [1]) w;
       if ret o' \<noteq> 0 then on_accept n k val (snd (sys k (Close c) w))
       else do {
         (q, w) \<leftarrow> add_event k EV_REQUEST c POLLIN w;
         case q of
           None \<Rightarrow> on_accept n k val (snd (sys k (Close c) w))
         | Some q \<Rightarrow> do {
             w \<leftarrow> set_ev q (\<lambda>x. x\<lparr>in6 := out r\<rparr>) w;
             on_accept n k val w
           }
       }
     }
   }"

text \<open>
  The part of \<open>on_tunnel\<close> that sends what an earlier round could not: \<open>Inl\<close> is an early
  return, \<open>Inr\<close> that the buffer is empty now.
\<close>

definition flush_pending :: "kernel \<Rightarrow> nat \<Rightarrow> nat \<Rightarrow> int \<Rightarrow> world \<Rightarrow> ((int + unit) \<times> world) option" where
  "flush_pending k val pair' ev w = do {
     v \<leftarrow> get_ev val w;
     case buff_data v of
       None \<Rightarrow> Some (Inr (), w)
     | Some d \<Rightarrow>
         if bit_test ev POLLHUP then Some (Inl (- 1), w)
         else do {
           let n = buff_size v - buff_offset v;
           bs \<leftarrow> rdn d (buff_offset v) n;
           q \<leftarrow> get_ev pair' w;
           let (s, w) = sys k (Send (fd q) bs 0) w;
           let sn = ret s;
           if sn \<noteq> n then
             (if sn < 0 \<and> errno w \<noteq> EAGAIN then Some (Inl (- 1), w)
              else do {
                w \<leftarrow> (if 0 < sn then set_ev val (\<lambda>x. x\<lparr>buff_offset := buff_offset x + sn\<rparr>) w else Some w);
                Some (Inl 0, w)
              })
           else do {
             w \<leftarrow> set_ev val (\<lambda>x. x\<lparr>buff_data := None, buff_size := 0, buff_offset := 0\<rparr>) w;
             (a, w) \<leftarrow> mod_etype k val POLLIN w;
             if a \<noteq> 0 then Some (Inl (- 1), w)
             else do {
               (b, w) \<leftarrow> mod_etype k pair' POLLIN w;
               Some (if b \<noteq> 0 then Inl (- 1) else Inr (), w)
             }
           }
         }
   }"

text \<open>A send that took \<open>s\<close> of \<open>n\<close> bytes of the buffer: the rest is kept with the connection.\<close>

definition keep_unsent :: "kernel \<Rightarrow> nat \<Rightarrow> nat \<Rightarrow> int \<Rightarrow> int \<Rightarrow> world \<Rightarrow> (int \<times> world) option" where
  "keep_unsent k val pair' n s w =
     (if s < 0 \<and> errno w \<noteq> EAGAIN then Some (- 1, w)
      else do {
        let sn = (if s < 0 then 0 else s);
        v \<leftarrow> get_ev val w;
        c_assert (buff_size v = 0 \<and> buff_offset v = 0);
        let (a, w) = sys k (Malloc (n - sn)) w;
        rest \<leftarrow> rdn (buf w) sn (n - sn);
        w \<leftarrow> set_ev val (\<lambda>x. x\<lparr>buff_size := n - sn, buff_data := (if ret a = 0 then None else Some rest)\<rparr>) w;
        if ret a = 0 then Some (- 1, w)
        else do {
          (e1, w) \<leftarrow> mod_etype k val 0 w;
          if e1 \<noteq> 0 then Some (- 1, w)
          else do {
            (e2, w) \<leftarrow> mod_etype k pair' POLLOUT w;
            Some (if e2 \<noteq> 0 then - 1 else 0, w)
          }
        }
      })"

text \<open>The copy loop: read a buffer, send it, keep what could not be sent.\<close>

fun tunnel_loop :: "nat \<Rightarrow> kernel \<Rightarrow> nat \<Rightarrow> nat \<Rightarrow> world \<Rightarrow> (int \<times> world) option" where
  "tunnel_loop 0 k val pair' w = None"
| "tunnel_loop (Suc fuel) k val pair' w = do {
     v \<leftarrow> get_ev val w;
     q \<leftarrow> get_ev pair' w;
     (r, w) \<leftarrow> recv_into k (Recv (fd v) (bfsize (prm w))) 0 w;
     let n = ret r;
     if n < 0 \<and> errno w = EAGAIN then Some (0, w)
     else if n < 1 then Some (- 1, w)
     else do {
       w \<leftarrow> set_ev val (\<lambda>x. x\<lparr>recv_count := recv_count x + n\<rparr>) w;
       bs \<leftarrow> rdn (buf w) 0 n;
       let (s, w) = sys k (Send (fd q) bs 0) w;
       if ret s \<noteq> n then keep_unsent k val pair' n (ret s) w
       else if n = bfsize (prm w) then tunnel_loop fuel k val pair' w
       else Some (0, w)
     }
   }"

definition on_tunnel :: "nat \<Rightarrow> kernel \<Rightarrow> nat \<Rightarrow> int \<Rightarrow> world \<Rightarrow> (int \<times> world) option" where
  "on_tunnel fuel k val0 ev w = do {
     v0 \<leftarrow> get_ev val0 w;
     p0 \<leftarrow> pair v0;
     pv \<leftarrow> get_ev p0 w;
     (val, pair') \<leftarrow> (if bit_test ev POLLOUT then map_option (Pair p0) (pair pv) else Some (val0, p0));
     (f, w) \<leftarrow> flush_pending k val pair' ev w;
     case f of
       Inl r \<Rightarrow> Some (r, w)
     | Inr _ \<Rightarrow> tunnel_loop fuel k val pair' w
   }"

text \<open>A datagram from the client: the association is fixed to its address, then relayed.\<close>

definition udp_from_client :: "kernel \<Rightarrow> nat \<Rightarrow> bytes \<Rightarrow> int \<Rightarrow> world \<Rightarrow> ((int + int) \<times> world) option" where
  "udp_from_client k val addr n w = do {
     v \<leftarrow> get_ev val w;
     if sa_port_raw (in6 v) = 0 \<and> \<not> addr_equ addr (in6 v) then Some (Inl 0, w)
     else do {
       let (c, w) = (if sa_port_raw (in6 v) = 0
                     then let (r, w) = sys k (Connect (fd v) (take (SA_SIZE addr) addr)) w in (ret r, w)
                     else (0, w));
       if c < 0 then Some (Inl (- 1), w)
       else do {
         w \<leftarrow> (if sa_port_raw (in6 v) = 0 then set_ev val (\<lambda>x. x\<lparr>in6 := addr\<rparr>) w else Some w);
         frag \<leftarrow> rd (buf w) 2;
         if frag \<noteq> 0 then Some (Inr 0, w)
         else do {
           (offs, addr, w) \<leftarrow> s5_get_addr k (buf w) 0 n addr SOCK_DGRAM w;
           if offs < 0 then Some (Inl (- 1), w)
           else do {
             q \<leftarrow> pair v;
             qv \<leftarrow> get_ev q w;
             let addr6 = (if sa_family (baddr (prm w)) = AF_INET6 then map_fix addr True else addr);
             (ok, w) \<leftarrow>
               (if sa_port_raw (in6 qv) \<noteq> 0 then Some (True, w)
                else if sa_family (baddr (prm w)) \<noteq> sa_family addr6 then Some (False, w)
                else do {
                  (m, w) \<leftarrow> socket_mod k (fd qv) addr6 w;
                  if m < 0 then Some (False, w)
                  else do {
                    let (c, w) = sys k (Connect (fd qv) (take (SA_SIZE addr6) addr6)) w;
                    if ret c < 0 then Some (False, w)
                    else do { w \<leftarrow> set_ev q (\<lambda>x. x\<lparr>in6 := addr6\<rparr>) w; Some (True, w) }
                  }
                });
             if \<not> ok then Some (Inl (- 1), w)
             else do {
               qv \<leftarrow> get_ev q w;
               (ns, w) \<leftarrow> udp_hook k q offs (n - offs) (in6 qv) w;
               Some (Inr ns, w)
             }
           }
         }
       }
     }
   }"

text \<open>A datagram from a server, which lies behind room for the largest header.\<close>

definition udp_from_server :: "kernel \<Rightarrow> nat \<Rightarrow> bytes \<Rightarrow> int \<Rightarrow> world \<Rightarrow> ((int + int) \<times> world) option" where
  "udp_from_server k val addr n w = do {
     let addr = map_fix addr False;
     b \<leftarrow> wrn (buf w) 0 (replicate 22 0);
     (offs, b) \<leftarrow> s5_set_addr b 22 22 addr True;
     let w = w\<lparr>buf := b\<rparr>;
     if offs < 0 \<or> 22 < offs then Some (Inl (- 1), w)
     else do {
       v \<leftarrow> get_ev val w;
       p1 \<leftarrow> pair v;
       v1 \<leftarrow> get_ev p1 w;
       p2 \<leftarrow> pair v1;
       v2 \<leftarrow> get_ev p2 w;
       bs \<leftarrow> rdn (buf w) (22 - offs) (offs + n);
       let (s, w) = sys k (Send (fd v2) bs 0) w;
       Some (Inr (ret s), w)
     }
   }"

fun on_udp_tunnel :: "nat \<Rightarrow> kernel \<Rightarrow> nat \<Rightarrow> world \<Rightarrow> (int \<times> world) option" where
  "on_udp_tunnel 0 k val w = None"
| "on_udp_tunnel (Suc fuel) k val w = do {
     v \<leftarrow> get_ev val w;
     let conn = (flag v = FLAG_CONN);
     let at = (if conn then 0 else 22);
     (r, w) \<leftarrow> recv_into k (Recvfrom (fd v) (bfsize (prm w) - at)) at w;
     let n = ret r;
     if n < 1 then Some (if n \<noteq> 0 \<and> errno w = EAGAIN then 0 else - 1, w)
     else do {
       w \<leftarrow> set_ev val (\<lambda>x. x\<lparr>recv_count := recv_count x + n\<rparr>) w;
       let addr = map word_of_int (vals r);
       (res, w) \<leftarrow> (if conn then udp_from_client k val addr n w else udp_from_server k val addr n w);
       case res of
         Inl e \<Rightarrow> Some (e, w)
       | Inr ns \<Rightarrow> if ns < 0 then Some (- 1, w) else on_udp_tunnel fuel k val w
     }
   }"

definition on_request :: "kernel \<Rightarrow> nat \<Rightarrow> world \<Rightarrow> (int \<times> world) option" where
  "on_request k val w = do {
     v \<leftarrow> get_ev val w;
     (r, w) \<leftarrow> recv_into k (Recv (fd v) (bfsize (prm w))) 0 w;
     let n = ret r;
     if n < 1 then Some (- 1, w)
     else do {
       ver \<leftarrow> rd (buf w) 0;
       let dst = replicate 28 0;
       (e, w) \<leftarrow>
         (if ver = 5 then
            (if flag v \<noteq> FLAG_S5 then do {
               (a, b, w) \<leftarrow> auth_socks5 k (fd v) (buf w) n w;
               let w = w\<lparr>buf := b\<rparr>;
               if a \<noteq> 0 then Some (Inl (- 1), w)
               else do { w \<leftarrow> set_ev val (\<lambda>x. x\<lparr>flag := FLAG_S5\<rparr>) w; Some (Inl 0, w) }
             }
             else if n < S_SIZE_MIN then Some (Inl (- 1), w)
             else do {
               cmd \<leftarrow> rd (buf w) 1;
               (s5e, error, w) \<leftarrow>
                 (if cmd = 1 then do {
                    (s, dst, w) \<leftarrow> s5_get_addr k (buf w) 0 n dst SOCK_STREAM w;
                    if s < 0 then Some (s, 0, w)
                    else do { (e, w) \<leftarrow> connect_hook k val dst EV_CONNECT w; Some (s, e, w) }
                  }
                  else if cmd = 3 \<and> udp_f (prm w) then do {
                    (s, dst, w) \<leftarrow> s5_get_addr k (buf w) 0 n dst SOCK_DGRAM w;
                    if s < 0 then Some (s, 0, w)
                    else do { (e, w) \<leftarrow> udp_associate k val dst w; Some (s, e, w) }
                  }
                  else Some (- S_ER_CMD, 0, w));
               if s5e < 0 then do {
                 let (_, w) = resp_s5_error k (fd v) (- s5e) w;
                 Some (Inl (- 1), w)
               }
               else Some (Inr error, w)
             })
          else if ver = 4 then do {
            w \<leftarrow> set_ev val (\<lambda>x. x\<lparr>flag := FLAG_S4\<rparr>) w;
            (e, dst, w) \<leftarrow> s4_get_addr k (buf w) n dst w;
            if e \<noteq> 0 then do {
              let (_, w) = resp_error k (fd v) e FLAG_S4 w;
              Some (Inl (- 1), w)
            }
            else do { (e, w) \<leftarrow> connect_hook k val dst EV_CONNECT w; Some (Inr e, w) }
          }
          else Some (Inl (- 1), w));
       case e of
         Inl x \<Rightarrow> Some (x, w)
       | Inr error \<Rightarrow>
           if error \<noteq> 0 then do {
             v \<leftarrow> get_ev val w;
             let (_, w) = resp_error k (fd v) (if errno w \<noteq> 0 then errno w else error) (flag v) w;
             Some (- 1, w)
           }
           else Some (0, w)
     }
   }"

definition on_connect :: "kernel \<Rightarrow> nat \<Rightarrow> bool \<Rightarrow> world \<Rightarrow> (int \<times> world) option" where
  "on_connect k val e w = do {
     v \<leftarrow> get_ev val w;
     (stop, error, w) \<leftarrow>
       (if e then do {
          let (g, w) = sys k (Getsockopt (fd v) SO_ERROR) w;
          Some (ret g \<noteq> 0, case vals g of x # _ \<Rightarrow> x | [] \<Rightarrow> 0, w)
        }
        else do {
          (m, w) \<leftarrow> mod_etype k val POLLIN w;
          if m \<noteq> 0 then Some (True, 0, w)
          else do {
            w \<leftarrow> set_ev val (\<lambda>x. x\<lparr>etype := EV_TUNNEL\<rparr>) w;
            q \<leftarrow> pair v;
            w \<leftarrow> set_ev q (\<lambda>x. x\<lparr>etype := EV_DESYNC\<rparr>) w;
            Some (False, 0, w)
          }
        });
     if stop then Some (- 1, w)
     else do {
       (q, qv) \<leftarrow> pair_of val w;
       let (s, w) = resp_error k (fd qv) error (flag qv) w;
       Some (if s < 0 then - 1 else if e then - 1 else 0, w)
     }
   }"

definition close_conn :: "kernel \<Rightarrow> nat \<Rightarrow> world \<Rightarrow> world option" where
  "close_conn k val w = del_event k val w"

section \<open>The event loop\<close>

text \<open>One event, dispatched by the type of its connection.\<close>

definition close_if :: "kernel \<Rightarrow> nat \<Rightarrow> int \<times> world \<Rightarrow> world option" where
  "close_if k val rw = (if fst rw \<noteq> 0 then close_conn k val (snd rw) else Some (snd rw))"

definition dispatch :: "nat \<Rightarrow> kernel \<Rightarrow> nat \<Rightarrow> int \<Rightarrow> world \<Rightarrow> world option" where
  "dispatch fuel k val ev w = do {
     v \<leftarrow> get_ev val w;
     case etype v of
       EV_ACCEPT \<Rightarrow>
         if bit_test ev POLLHUP then Some (w\<lparr>not_exit := False\<rparr>)
         else do {
           (r, w) \<leftarrow> on_accept fuel k val w;
           Some (if r \<noteq> 0 then w\<lparr>not_exit := False\<rparr> else w)
         }
     | EV_REQUEST \<Rightarrow>
         if bit_test ev POLLHUP then close_conn k val w
         else on_request k val w \<bind> close_if k val
     | EV_PRE_TUNNEL \<Rightarrow> on_tunnel_check k val (bit_test ev POLLOUT) w \<bind> close_if k val
     | EV_TUNNEL \<Rightarrow> on_tunnel fuel k val ev w \<bind> close_if k val
     | EV_UDP_TUNNEL \<Rightarrow> on_udp_tunnel fuel k val w \<bind> close_if k val
     | EV_CONNECT \<Rightarrow> on_connect k val (bit_test ev POLLERR) w \<bind> close_if k val
     | EV_DESYNC \<Rightarrow> on_desync k val (bit_test ev POLLOUT) w \<bind> close_if k val
     | EV_IGNORE \<Rightarrow>
         if bit_test ev (POLLHUP OR POLLERR OR POLLRDHUP) then close_conn k val w else Some w
   }"

fun loop :: "nat \<Rightarrow> kernel \<Rightarrow> int \<Rightarrow> world \<Rightarrow> world option" where
  "loop 0 k i w = None"
| "loop (Suc n) k i w =
     (if \<not> not_exit w then Some w
      else do {
        (e, i, w) \<leftarrow> next_event (nat (i + 3)) k i w;
        case e of
          None \<Rightarrow> if errno w = EINTR then loop n k i w else Some w
        | Some (val, ev) \<Rightarrow> do { w \<leftarrow> dispatch n k val ev w; loop n k i w }
      })"

text \<open>\<open>junk\<close> is the content of fresh allocations: the items and the buffer.\<close>

definition event_loop :: "nat \<Rightarrow> kernel \<Rightarrow> eval list \<Rightarrow> bytes \<Rightarrow> int \<Rightarrow> world \<Rightarrow> (int \<times> world) option" where
  "event_loop fuel k junk junk_buf srvfd w = do {
     (ok, w) \<leftarrow> init_pool k junk (max_open (prm w) * 2 + 1) w;
     if \<not> ok then Some (- 1, snd (sys k (Close srvfd) w))
     else do {
       (l, w) \<leftarrow> add_event k EV_ACCEPT srvfd POLLIN w;
       case l of
         None \<Rightarrow> do { w \<leftarrow> destroy_pool k w; Some (- 1, snd (sys k (Close srvfd) w)) }
       | Some _ \<Rightarrow> do {
           let (m, w) = sys k (Malloc (bfsize (prm w))) w;
           if ret m = 0 then do { w \<leftarrow> destroy_pool k w; Some (- 1, w) }
           else do {
             w \<leftarrow> loop fuel k (- 1) (w\<lparr>buf := take (nat (bfsize (prm w))) junk_buf\<rparr>);
             w \<leftarrow> destroy_pool k w;
             Some (0, w)
           }
         }
     }
   }"

definition listen_socket :: "kernel \<Rightarrow> bytes \<Rightarrow> world \<Rightarrow> int \<times> world" where
  "listen_socket k srv w =
     (let (srvfd, w) = nb_socket k (sa_family srv) SOCK_STREAM w in
      if srvfd < 0 then (- 1, w)
      else let (o', w) = sys k (Setsockopt srvfd SO_REUSEADDR [1]) w in
      if ret o' = - 1 then (- 1, snd (sys k (Close srvfd) w))
      else let (b, w) = sys k (Bind srvfd (take (SA_SIZE srv) srv)) w in
      if ret b < 0 then (- 1, snd (sys k (Close srvfd) w))
      else let (l, w) = sys k (Listen srvfd 10) w in
      if ret l \<noteq> 0 then (- 1, snd (sys k (Close srvfd) w)) else (srvfd, w))"

definition on_cancel :: "world \<Rightarrow> world" where
  "on_cancel w = w\<lparr>not_exit := False\<rparr>"

text \<open>The signals are \<open>SIGPIPE\<close> (13), ignored, and \<open>SIGINT\<close> (2), handled by \<open>on_cancel\<close>.\<close>

definition run :: "nat \<Rightarrow> kernel \<Rightarrow> eval list \<Rightarrow> bytes \<Rightarrow> bytes \<Rightarrow> world \<Rightarrow> (int \<times> world) option" where
  "run fuel k junk junk_buf srv w = do {
     let w = snd (sys k (Signal 13) w);
     let w = snd (sys k (Signal 2) w);
     let (f, w) = listen_socket k srv w;
     if f < 0 then Some (- 1, w) else event_loop fuel k junk junk_buf f w
   }"

end
