(* ===== verification/Options.thy ===== *)
theory Options
  imports Proxy
begin

text \<open>
  The options: \<open>byedpi/main.c\<close> and its Android twin \<open>utils.c\<close>. A C string is the list of its
  bytes without the terminating NUL; a function that scans one gets it with the NUL appended,
  so that a scan past it faults. What \<open>getopt_long\<close> returns is a parameter: the list of its
  results with \<open>optarg\<close> (\<open>None\<close> for a null pointer). So is the conversion of the argument of
  \<open>-T\<close> from a decimal fraction of seconds to milliseconds (\<open>strtof\<close>).
\<close>

section \<open>Escapes in strings\<close>

abbreviation (input) BACKSLASH :: byte where "BACKSLASH \<equiv> 92"

definition esca :: "byte \<rightharpoonup> byte" where
  "esca = map_of [(114, 13), (110, 10), (116, 9), (92, 92), (102, 12), (98, 8), (118, 11), (97, 7)]"

text \<open>
  \<open>sscanf\<close> of one number: white space is skipped, then at most \<open>width\<close> characters are a sign,
  the prefix 0x for base 16, and digits. A prefix without digits is the digit 0. The result is
  the value and the position after it.
\<close>

fun scan_digits :: "bytes \<Rightarrow> nat \<Rightarrow> nat \<Rightarrow> int \<Rightarrow> int \<Rightarrow> (int \<times> nat) option" where
  "scan_digits b i 0 base acc = Some (acc, i)"
| "scan_digits b i (Suc n) base acc = do {
     x \<leftarrow> rd b i;
     if digit_val x < base then scan_digits b (Suc i) n base (acc * base + digit_val x)
     else Some (acc, i)
   }"

definition scan_start :: "bytes \<Rightarrow> nat \<Rightarrow> nat \<Rightarrow> int \<Rightarrow> (bool \<times> nat \<times> nat) option" where
  "scan_start b i width base = do {
     j \<leftarrow> skip_spaces b i (Suc (length b));
     s \<leftarrow> rd b j;
     let sgn = (s = 43 \<or> s = 45);
     let j1 = (if sgn then Suc j else j);
     let n1 = (if sgn then width - 1 else width);
     z \<leftarrow> (if 0 < n1 then rd b j1 else Some 0);
     x \<leftarrow> (if 2 < n1 \<and> base = 16 \<and> z = 48 then rd b (Suc j1) else Some 0);
     h \<leftarrow> (if x = 120 \<or> x = 88 then rd b (j1 + 2) else Some 0);
     let hex = ((x = 120 \<or> x = 88) \<and> digit_val h < 16);
     Some (s = 45, if hex then j1 + 2 else j1, if hex then n1 - 2 else n1)
   }"

definition scan_num :: "bytes \<Rightarrow> nat \<Rightarrow> nat \<Rightarrow> int \<Rightarrow> (int \<times> nat) option option" where
  "scan_num b i width base = do {
     (neg, j, n) \<leftarrow> scan_start b i width base;
     (v, e) \<leftarrow> scan_digits b j n base 0;
     Some (if e = j then None else Some (if neg then - v else v, e))
   }"

text \<open>The two \<open>sscanf\<close> calls of \<open>parse_cform\<close>; the value is stored as a \<open>char\<close>.\<close>

definition scan_escape :: "bytes \<Rightarrow> nat \<Rightarrow> (byte \<times> nat) option option" where
  "scan_escape b p = do {
     c \<leftarrow> rd b p;
     h \<leftarrow> (if c = 120 then scan_num b (Suc p) 2 16 else Some None);
     case h of
       Some (v, e) \<Rightarrow> Some (Some (word_of_int v, e))
     | None \<Rightarrow> do {
         q \<leftarrow> scan_num b p 3 8;
         Some (map_option (\<lambda>(v, e). (word_of_int v, e)) q)
       }
   }"

lemma skip_spaces_ge: "skip_spaces b i f = Some j \<Longrightarrow> i \<le> j"
  by (induction b i f rule: skip_spaces.induct)
     (auto simp: bind_eq_Some_conv split: if_splits)

lemma scan_digits_ge: "scan_digits b i n base acc = Some (v, e) \<Longrightarrow> i \<le> e"
  by (induction b i n base acc rule: scan_digits.induct)
     (auto simp: bind_eq_Some_conv split: if_splits)

lemma scan_start_ge: "scan_start b i width base = Some (neg, j, n) \<Longrightarrow> i \<le> j"
proof -
  have ge: "i \<le> (if A then (if B then Suc j else j) + 2 else if B then Suc j else j)" if "i \<le> j" for A B j
    using that by simp
  assume "scan_start b i width base = Some (neg, j, n)"
  then show ?thesis
    unfolding scan_start_def Let_def bind_eq_Some_conv
    by (elim exE conjE) (drule skip_spaces_ge, simp only: option.inject prod.inject, elim conjE, hypsubst, erule ge)
qed

lemma scan_num_greater: "scan_num b i width base = Some (Some (v, e)) \<Longrightarrow> i < e"
  by (fastforce simp: scan_num_def bind_eq_Some_conv split: if_splits
      dest: scan_start_ge scan_digits_ge)

lemma scan_escape_greater: "scan_escape b p = Some (Some (v, e)) \<Longrightarrow> p < e"
  by (auto simp: scan_escape_def bind_eq_Some_conv split: if_splits option.splits
      dest!: scan_num_greater)

text \<open>
  \<open>p\<close> is the position in the string and \<open>acc\<close> what has been stored, so that the index of the
  code's buffer is the length of \<open>acc\<close>.
\<close>

function parse_cform_loop :: "bytes \<Rightarrow> nat \<Rightarrow> nat \<Rightarrow> nat \<Rightarrow> bytes \<Rightarrow> bytes option" where
  "parse_cform_loop s slen blen p acc =
     (if p < slen \<and> length acc < blen then do {
        c \<leftarrow> rd s p;
        if c \<noteq> BACKSLASH then parse_cform_loop s slen blen (Suc p) (acc @ [c])
        else do {
          d \<leftarrow> rd s (Suc p);
          case esca d of
            Some v \<Rightarrow> parse_cform_loop s slen blen (p + 2) (acc @ [v])
          | None \<Rightarrow> do {
              r \<leftarrow> scan_escape s (Suc p);
              case r of
                Some (v, e) \<Rightarrow> parse_cform_loop s slen blen e (acc @ [v])
              | None \<Rightarrow> parse_cform_loop s slen blen (Suc p) acc
            }
        }
      }
      else Some acc)"
  by pat_completeness auto
termination
  by (relation "measure (\<lambda>(s, slen, blen, p, acc). slen - p)")
     (auto dest!: scan_escape_greater)

declare parse_cform_loop.simps [simp del]

definition parse_cform :: "nat \<Rightarrow> bytes \<Rightarrow> bytes option" where
  "parse_cform blen str = parse_cform_loop (str @ [0]) (length str) blen 0 []"

definition data_from_str :: "kernel \<Rightarrow> bytes \<Rightarrow> world \<Rightarrow> (bytes option \<times> world) option" where
  "data_from_str k str w =
     (if str = [] then Some (None, w)
      else do {
        let (m, w) = sys k (Malloc (int (length str))) w;
        if ret m = 0 then Some (None, w)
        else do {
          d \<leftarrow> parse_cform (length str) str;
          let w = (if length d \<noteq> length str then snd (sys k (Realloc (int (length d))) w) else w);
          Some (if d = [] then None else Some d, w)
        }
      })"

text \<open>The content of a file is the \<open>out\<close> of the call that reads it.\<close>

definition ftob :: "kernel \<Rightarrow> bytes \<Rightarrow> world \<Rightarrow> (bytes option \<times> world) option" where
  "ftob k str w =
     (if str \<noteq> [] \<and> hd str = 58 then data_from_str k (tl str) w
      else
        let (fl, w) = sys k (Fopen str) w in
        if ret fl = 0 then Some (None, w)
        else
          let (e, w) = sys k (Fseek (ret fl) 2) w in
          if ret e \<noteq> 0 then Some (None, snd (sys k (Fclose (ret fl)) w))
          else let (size, w) = sys k (Ftell (ret fl)) w in
          if ret size \<le> 0 then Some (None, snd (sys k (Fclose (ret fl)) w))
          else let (s, w) = sys k (Fseek (ret fl) 0) w in
          if ret s \<noteq> 0 then Some (None, snd (sys k (Fclose (ret fl)) w))
          else let (m, w) = sys k (Malloc (ret size)) w in
          if ret m = 0 then Some (None, snd (sys k (Fclose (ret fl)) w))
          else let (r, w) = sys k (Fread (ret fl) (ret size)) w;
                   w = snd (sys k (Fclose (ret fl)) w)
          in Some (if ret r \<noteq> ret size then None else Some (take (nat (ret size)) (out r)), w))"

section \<open>Host lists\<close>

text \<open>
  The result is the C result and the byte written back. A \<open>char\<close> above 127 is negative on
  x86_64 and positive on arm64; both compilers reject it.
\<close>

definition lower_char :: "byte \<Rightarrow> int \<times> byte" where
  "lower_char c =
     (if c < 65 then (if 57 < c \<or> c < 45 then - 1 else 0, c)
      else if c < 97 then (if 90 < c then (- 1, c) else (0, c + 32))
      else if 122 < c then (- 1, c)
      else (0, c))"

definition host_sep :: "byte \<Rightarrow> bool" where
  "host_sep c \<longleftrightarrow> c = 32 \<or> c = 10 \<or> c = 13"

text \<open>
  The loop at position \<open>e\<close> with the token started at \<open>s\<close>. The pool is static: its strings
  are slices of the buffer, which is not written again once a token is stored.
\<close>

function parse_hosts_loop ::
  "kernel \<Rightarrow> bytes \<Rightarrow> nat \<Rightarrow> nat \<Rightarrow> mphdr \<Rightarrow> world \<Rightarrow> (mphdr option \<times> bytes \<times> world) option" where
  "parse_hosts_loop k buffer e s hdr w =
     (if e \<le> length buffer then
        (if e < length buffer \<and> \<not> host_sep (buffer ! e) then
           parse_hosts_loop k (buffer[e := snd (lower_char (buffer ! e))]) (Suc e) s hdr w
         else if s = e then parse_hosts_loop k buffer (Suc e) (Suc s) hdr w
         else do {
           str \<leftarrow> rdn buffer (int s) (int e - int s);
           let (c, w) = sys k (Malloc 72) w;
           (v, hdr) \<leftarrow> mem_add (ret c \<noteq> 0) True hdr str;
           case v of
             None \<Rightarrow> Some (None, buffer, w)
           | Some _ \<Rightarrow> parse_hosts_loop k buffer (Suc e) (Suc e) hdr w
         })
      else Some (Some hdr, buffer, w))"
  by pat_completeness auto
termination
  by (relation "measure (\<lambda>(k, buffer, e, s, hdr, w). Suc (length buffer) - e)") auto

declare parse_hosts_loop.simps [simp del]

definition parse_hosts :: "kernel \<Rightarrow> bytes \<Rightarrow> world \<Rightarrow> (mphdr option \<times> bytes \<times> world) option" where
  "parse_hosts k buffer w = do {
     let (c, w) = sys k (Malloc 24) w;
     case mem_pool (ret c \<noteq> 0) True of
       None \<Rightarrow> Some (None, buffer, w)
     | Some hdr \<Rightarrow> parse_hosts_loop k buffer 0 0 hdr w
   }"

section \<open>Helpers of the option parser\<close>

text \<open>The address of a numeric host is stored with its family; the port stays.\<close>

definition get_addr :: "kernel \<Rightarrow> bytes \<Rightarrow> bytes \<Rightarrow> world \<Rightarrow> int \<times> bytes \<times> world" where
  "get_addr k str addr w =
     (let (r, w) = sys k (Getaddrinfo str SOCK_STREAM AI_NUMERICHOST 0) w in
      if ret r \<noteq> 0 \<or> out r = [] then (- 1, addr, w)
      else let a = (if sa_family (out r) = AF_INET6 then set_sin6_addr (sin6_addr (out r)) addr
                    else set_sin_addr (sin_addr (out r)) addr)
      in (0, set_family (sa_family (out r)) a, w))"

text \<open>The option's value is the first of \<open>vals\<close>; a failing \<open>getsockopt\<close> leaves -1.\<close>

definition get_default_ttl :: "kernel \<Rightarrow> world \<Rightarrow> int \<times> world" where
  "get_default_ttl k w =
     (let (s, w) = sys k (Socket AF_INET SOCK_STREAM) w in
      if ret s < 0 then (- 1, w)
      else let (g, w) = sys k (Getsockopt (ret s) IP_TTL) w;
               w = snd (sys k (Close (ret s)) w)
      in (if ret g < 0 \<or> vals g = [] then - 1 else hd (vals g), w))"

definition parse_offset :: "part \<Rightarrow> bytes \<Rightarrow> (int \<times> part) option" where
  "parse_offset part str = do {
     let s = str @ [0];
     (val, e) \<leftarrow> strtol s 0 0;
     c \<leftarrow> rd s e;
     if c = 43 then do {
       d \<leftarrow> rd s (Suc e);
       if d = 115 then Some (0, part\<lparr>p_flag := OFFSET_SNI, p_pos := val\<rparr>)
       else if d = 104 then Some (0, part\<lparr>p_flag := OFFSET_HOST, p_pos := val\<rparr>)
       else if d = 101 then Some (0, part\<lparr>p_flag := OFFSET_END, p_pos := val\<rparr>)
       else Some (- 1, part)
     }
     else if c \<noteq> 0 then Some (- 1, part)
     else Some (0, part\<lparr>p_pos := val\<rparr>)
   }"

text \<open>
  \<open>add\<close> appends a zeroed entry to a table of \<open>n\<close> entries of \<open>ss\<close> bytes. A count that is
  not the number of entries would hand out uninitialised ones: the model stops there.
\<close>

definition add :: "kernel \<Rightarrow> int \<Rightarrow> 'a \<Rightarrow> 'a list \<Rightarrow> int \<Rightarrow> world \<Rightarrow> ('a list option \<times> world) option" where
  "add k ss zero tbl n w = do {
     let (r, w) = sys k (Realloc (ss * (n + 1))) w;
     if ret r = 0 then Some (None, w)
     else do {
       c_assert (n = int (length tbl));
       Some (Some (tbl @ [zero]), w)
     }
   }"

definition add_dp :: "kernel \<Rightarrow> world \<Rightarrow> (bool \<times> world) option" where
  "add_dp k w = do {
     (r, w) \<leftarrow> add k 128 zero_dp (dp (prm w)) (dp_count (prm w)) w;
     case r of
       None \<Rightarrow> Some (False, w)
     | Some ds \<Rightarrow> Some (True, w\<lparr>prm := (prm w)\<lparr>dp := ds, dp_count := dp_count (prm w) + 1\<rparr>\<rparr>)
   }"

text \<open>\<open>dp\<close> of the parser is always the entry added last.\<close>

definition cur_dp :: "world \<Rightarrow> desync_params option" where
  "cur_dp w = (if dp (prm w) = [] then None else Some (last (dp (prm w))))"

definition upd_dp :: "(desync_params \<Rightarrow> desync_params) \<Rightarrow> world \<Rightarrow> world" where
  "upd_dp f w = w\<lparr>prm := (prm w)\<lparr>dp := butlast (dp (prm w)) @ [f (last (dp (prm w)))]\<rparr>\<rparr>"

definition upd_prm :: "(params \<Rightarrow> params) \<Rightarrow> world \<Rightarrow> world" where
  "upd_prm f w = w\<lparr>prm := f (prm w)\<rparr>"

text \<open>
  The memory of every strategy is freed and the table dropped. \<open>dp_count\<close> keeps its value.
\<close>

fun clear_hosts :: "desync_params list \<Rightarrow> unit option" where
  "clear_hosts [] = Some ()"
| "clear_hosts (d # ds) = do {
     _ \<leftarrow> (case hosts d of None \<Rightarrow> Some [] | Some h \<Rightarrow> mem_destroy h);
     clear_hosts ds
   }"

definition clear_params :: "world \<Rightarrow> world option" where
  "clear_params w = do {
     _ \<leftarrow> (case mempool (prm w) of None \<Rightarrow> Some [] | Some m \<Rightarrow> mem_destroy m);
     _ \<leftarrow> clear_hosts (dp (prm w));
     Some (upd_prm (\<lambda>p. p\<lparr>mempool := None, dp := []\<rparr>) w)
   }"

text \<open>
  \<open>reset_params\<close> restores the struct \<open>params\<close>. The fake packets are variables of their own,
  which it does not touch.
\<close>

definition reset_params :: "world \<Rightarrow> world option" where
  "reset_params w = do {
     w \<leftarrow> clear_params w;
     Some (upd_prm (\<lambda>p. default_params\<lparr>fake_tls := fake_tls p, fake_http := fake_http p, fake_udp := fake_udp p\<rparr>) w)
   }"

section \<open>The option string\<close>

text \<open>The table: the short option and \<open>has_arg\<close>. The last entry is the terminator.\<close>

definition options :: "(byte \<times> nat) list" where
  "options = map (\<lambda>(c, a). (of_char c, a))
    [(CHR ''N'', 0), (CHR ''X'', 0), (CHR ''U'', 0), (CHR ''h'', 0), (CHR ''v'', 0), (CHR ''i'', 1),
     (CHR ''p'', 1), (CHR ''I'', 1), (CHR ''b'', 1), (CHR ''c'', 1), (CHR ''x'', 1), (CHR ''F'', 0),
     (CHR ''A'', 1), (CHR ''u'', 1), (CHR ''T'', 1), (CHR ''K'', 1), (CHR ''H'', 1), (CHR ''V'', 1),
     (CHR ''s'', 1), (CHR ''d'', 1), (CHR ''o'', 1), (CHR ''q'', 1), (CHR ''f'', 1), (CHR ''t'', 1),
     (CHR ''k'', 2), (CHR ''S'', 0), (CHR ''l'', 1), (CHR ''n'', 1), (CHR ''O'', 1), (CHR ''e'', 1),
     (CHR ''M'', 1), (CHR ''r'', 1), (CHR ''a'', 1), (CHR ''g'', 1), (CHR ''w'', 1), (CHR ''W'', 0),
     (CHR ''Y'', 0), (CHR ''P'', 1)] @ [(0, 0)]"

fun put_colons :: "bytes \<Rightarrow> nat \<Rightarrow> nat \<Rightarrow> (bytes \<times> nat) option" where
  "put_colons opt ov 0 = Some (opt, ov)"
| "put_colons opt ov (Suc c) = do { opt \<leftarrow> wr opt (Suc ov) 58; put_colons opt (Suc ov) c }"

text \<open>\<open>os\<close> are the entries from \<open>i\<close> on and \<open>ov\<close> the position in \<open>opt\<close>.\<close>

fun opt_loop :: "(byte \<times> nat) list \<Rightarrow> bytes \<Rightarrow> nat \<Rightarrow> nat \<Rightarrow> bytes option" where
  "opt_loop [] opt ov optc = (if ov < optc then None else Some opt)"
| "opt_loop ((v, a) # os) opt ov optc =
     (if ov < optc then do {
        opt \<leftarrow> wr opt ov v;
        (opt, ov) \<leftarrow> put_colons opt ov a;
        opt_loop os opt (Suc ov) optc
      }
      else Some opt)"

text \<open>\<open>junk\<close> is the content of the array on the stack.\<close>

definition opt_string :: "(byte \<times> nat) list \<Rightarrow> byte \<Rightarrow> bytes option" where
  "opt_string os junk = do {
     let optc = length os + sum_list (map snd os);
     opt_loop os (replicate optc junk @ [0]) 0 optc
   }"
section \<open>The options\<close>

text \<open>
  What one option does to the parser: go on, report an invalid value, or leave \<open>parse_args\<close>.
  The argument is read through \<open>optarg\<close>, so that a null pointer faults.
\<close>

datatype outcome = Next | Invalid | Exit int

definition INT_MAX :: int where "INT_MAX = 2147483647"

definition UINT_MAX :: int where "UINT_MAX = 4294967295"

definition USHRT_MAX :: int where "USHRT_MAX = 65535"

text \<open>A \<open>long\<close> stored in an \<open>int\<close>, and \<open>htons\<close> as the machine reads its result.\<close>

definition c_int :: "int \<Rightarrow> int" where
  "c_int v = (v + 2 ^ 31) mod 2 ^ 32 - 2 ^ 31"

definition htons :: "int \<Rightarrow> u16" where
  "htons v = word_of_int (v mod 256 * 256 + v div 256 mod 256)"

definition set_htons :: "int \<Rightarrow> bytes \<Rightarrow> bytes" where
  "set_htons v a = set_port (word_of_int (v div 256)) (word_of_int v) a"

text \<open>
  \<open>val = strtol (optarg, &end, 0)\<close>: the value and the byte at \<open>end\<close>.
\<close>

definition opt_long :: "bytes option \<Rightarrow> (int \<times> nat \<times> byte) option" where
  "opt_long optarg = do {
     str \<leftarrow> optarg;
     (val, e) \<leftarrow> strtol (str @ [0]) 0 0;
     c \<leftarrow> rd (str @ [0]) e;
     Some (val, e, c)
   }"

text \<open>
  The numeric options: \<open>lo\<close> and \<open>hi\<close> are the least and the greatest value accepted, and the
  number must be the whole argument.
\<close>

definition num_opt :: "int \<Rightarrow> int \<Rightarrow> (int \<Rightarrow> world \<Rightarrow> world) \<Rightarrow> bytes option \<Rightarrow> world \<Rightarrow> (outcome \<times> world) option" where
  "num_opt lo hi f optarg w = do {
     (val, e, c) \<leftarrow> opt_long optarg;
     Some (if val < lo \<or> hi < val \<or> c \<noteq> 0 then (Invalid, w) else (Next, f val w))
   }"

text \<open>
  The lists of letters of \<open>-A\<close>, \<open>-K\<close> and \<open>-M\<close>: the first letter of every item between commas
  sets a flag. The result is the flags set and whether a letter was unknown.
\<close>

function flags_loop :: "(byte \<rightharpoonup> int) \<Rightarrow> bytes \<Rightarrow> int \<Rightarrow> int \<times> bool" where
  "flags_loop tbl str acc =
     (case tbl (if str = [] then 0 else hd str) of
        None \<Rightarrow> (acc, True)
      | Some f \<Rightarrow>
          let rest = dropWhile (\<lambda>c. c \<noteq> 44) str in
          if rest = [] then (acc OR f, False) else flags_loop tbl (tl rest) (acc OR f))"
  by pat_completeness auto
termination
proof (relation "measure (\<lambda>(tbl, str, acc). length str)")
  fix str x
  assume "x = dropWhile (\<lambda>c. c \<noteq> (44 :: byte)) str" "x \<noteq> []"
  then have "length (tl x) < length x" "length x \<le> length str"
    by (auto simp: length_dropWhile_le)
  then show "((tbl, tl x, acc OR f), (tbl, str, acc)) \<in> measure (\<lambda>(tbl, str, acc). length str)" for tbl :: "byte \<rightharpoonup> int" and acc f :: int
    by simp
qed simp

declare flags_loop.simps [simp del]

definition auto_flags :: "byte \<rightharpoonup> int" where
  "auto_flags = [116 \<mapsto> DETECT_TORST, 114 \<mapsto> DETECT_HTTP_LOCAT, 97 \<mapsto> DETECT_TLS_ERR,
                 115 \<mapsto> DETECT_TLS_ERR, 110 \<mapsto> 0]"

definition proto_flags :: "byte \<rightharpoonup> int" where
  "proto_flags = [116 \<mapsto> IS_HTTPS, 104 \<mapsto> IS_HTTP, 117 \<mapsto> IS_UDP]"

definition http_flags :: "byte \<rightharpoonup> int" where
  "http_flags = [114 \<mapsto> MH_SPACE, 104 \<mapsto> MH_HMIX, 100 \<mapsto> MH_DMIX]"

definition flags_opt ::
  "(byte \<rightharpoonup> int) \<Rightarrow> (desync_params \<Rightarrow> int) \<Rightarrow> (int \<Rightarrow> desync_params \<Rightarrow> desync_params) \<Rightarrow> bytes option \<Rightarrow> world
     \<Rightarrow> (outcome \<times> world) option" where
  "flags_opt tbl get put optarg w = do {
     d \<leftarrow> cur_dp w;
     let (f, bad) = (case optarg of None \<Rightarrow> (get d, False) | Some str \<Rightarrow> flags_loop tbl str (get d));
     Some (if bad then Invalid else Next, upd_dp (put f) w)
   }"

text \<open>The general options.\<close>

definition general_opt :: "kernel \<Rightarrow> char \<Rightarrow> bytes option \<Rightarrow> world \<Rightarrow> (outcome \<times> world) option" where
  "general_opt k rez optarg w =
     (if rez = CHR ''N'' then Some (Next, upd_prm (\<lambda>p. p\<lparr>resolve_f := False\<rparr>) w)
      else if rez = CHR ''X'' then Some (Next, upd_prm (\<lambda>p. p\<lparr>ipv6 := False\<rparr>) w)
      else if rez = CHR ''U'' then Some (Next, upd_prm (\<lambda>p. p\<lparr>udp_f := False\<rparr>) w)
      else if rez = CHR ''i'' then do {
        str \<leftarrow> optarg;
        let (r, a, w) = get_addr k str (laddr (prm w)) w;
        Some (if r < 0 then (Invalid, w) else (Next, upd_prm (\<lambda>p. p\<lparr>laddr := a\<rparr>) w))
      }
      else if rez = CHR ''p'' then
        num_opt 1 0xffff (\<lambda>v. upd_prm (\<lambda>p. p\<lparr>laddr := set_htons v (laddr p)\<rparr>)) optarg w
      else if rez = CHR ''I'' then do {
        str \<leftarrow> optarg;
        let (r, a, w) = get_addr k str (baddr (prm w)) w;
        Some (if r < 0 then (Invalid, w) else (Next, upd_prm (\<lambda>p. p\<lparr>baddr := a\<rparr>) w))
      }
      else if rez = CHR ''b'' then
        num_opt 1 (INT_MAX div 4) (\<lambda>v. upd_prm (\<lambda>p. p\<lparr>bfsize := v\<rparr>)) optarg w
      else if rez = CHR ''c'' then
        num_opt 1 (0xffff div 2 - 1) (\<lambda>v. upd_prm (\<lambda>p. p\<lparr>max_open := v\<rparr>)) optarg w
      else if rez = CHR ''x'' then do {
        (val, _, _) \<leftarrow> opt_long optarg;
        Some (if c_int val < 0 then Invalid else Next, upd_prm (\<lambda>p. p\<lparr>debug := c_int val\<rparr>) w)
      }
      else None)"

text \<open>
  Strategies and their filters. \<open>strtof\<close> gives the milliseconds of the argument of \<open>-T\<close>, if
  the number is the whole argument.
\<close>

definition filter_opt ::
  "(bytes \<Rightarrow> int option) \<Rightarrow> kernel \<Rightarrow> char \<Rightarrow> bytes option \<Rightarrow> world \<Rightarrow> (outcome \<times> world) option" where
  "filter_opt strtof k rez optarg w =
     (if rez = CHR ''F'' then Some (Next, upd_prm (\<lambda>p. p\<lparr>tfo := True\<rparr>) w)
      else if rez = CHR ''A'' then do {
        (ok, w) \<leftarrow> add_dp k w;
        if \<not> ok then Some (Exit (- 1), w)
        else flags_opt auto_flags detect (\<lambda>f d. d\<lparr>detect := f\<rparr>) optarg w
      }
      else if rez = CHR ''u'' then
        num_opt 1 LONG_MAX (\<lambda>v. upd_prm (\<lambda>p. p\<lparr>cache_ttl := v\<rparr>)) optarg w
      else if rez = CHR ''T'' then do {
        str \<leftarrow> optarg;
        Some (case strtof str of
                None \<Rightarrow> (Invalid, w)
              | Some val \<Rightarrow> if val \<le> 0 \<or> UINT_MAX < val then (Invalid, w)
                            else (Next, upd_prm (\<lambda>p. p\<lparr>timeout := val\<rparr>) w))
      }
      else if rez = CHR ''K'' then flags_opt proto_flags proto (\<lambda>f d. d\<lparr>proto := f\<rparr>) optarg w
      else if rez = CHR ''H'' then do {
        d \<leftarrow> cur_dp w;
        if file_ptr d \<noteq> None then Some (Next, w)
        else do {
          str \<leftarrow> optarg;
          (f, w) \<leftarrow> ftob k str w;
          case f of
            None \<Rightarrow> Some (Invalid, w)
          | Some b \<Rightarrow> do {
              (h, b, w) \<leftarrow> parse_hosts k b w;
              let w = upd_dp (\<lambda>d. d\<lparr>file_ptr := Some b, hosts := h\<rparr>) w;
              Some (if h = None then Exit (- 1) else Next, w)
            }
        }
      }
      else None)"
text \<open>The strategies themselves: the parts of a packet and the fake packets.\<close>

definition part_mode :: "char \<Rightarrow> demode" where
  "part_mode rez =
     (if rez = CHR ''s'' then DESYNC_SPLIT else if rez = CHR ''d'' then DESYNC_DISORDER
      else if rez = CHR ''o'' then DESYNC_OOB else if rez = CHR ''q'' then DESYNC_DISOOB
      else DESYNC_FAKE)"

definition part_opt :: "kernel \<Rightarrow> char \<Rightarrow> bytes option \<Rightarrow> world \<Rightarrow> (outcome \<times> world) option" where
  "part_opt k rez optarg w = do {
     d \<leftarrow> cur_dp w;
     (ps, w) \<leftarrow> add k 16 zero_part (parts d) (int (length (parts d))) w;
     case ps of
       None \<Rightarrow> Some (Exit (- 1), w)
     | Some ps \<Rightarrow> do {
         str \<leftarrow> optarg;
         (r, p) \<leftarrow> parse_offset (last ps) str;
         let p = (if r \<noteq> 0 then p else p\<lparr>p_m := part_mode rez\<rparr>);
         Some (if r \<noteq> 0 then Invalid else Next, upd_dp (\<lambda>d. d\<lparr>parts := butlast ps @ [p]\<rparr>) w)
       }
   }"

definition fake_opt :: "kernel \<Rightarrow> char \<Rightarrow> bytes option \<Rightarrow> world \<Rightarrow> (outcome \<times> world) option" where
  "fake_opt k rez optarg w =
     (if rez = CHR ''t'' then num_opt 1 255 (\<lambda>v. upd_dp (\<lambda>d. d\<lparr>ttl := v\<rparr>)) optarg w
      else if rez = CHR ''k'' then do {
        d \<leftarrow> cur_dp w;
        if ip_options d \<noteq> None then Some (Next, w)
        else case optarg of
          None \<Rightarrow> Some (Next, upd_dp (\<lambda>d. d\<lparr>ip_options := Some [0]\<rparr>) w)
        | Some str \<Rightarrow> do {
            (f, w) \<leftarrow> ftob k str w;
            Some (if f = None then Invalid else Next, upd_dp (\<lambda>d. d\<lparr>ip_options := f\<rparr>) w)
          }
      }
      else if rez = CHR ''S'' then Some (Next, upd_dp (\<lambda>d. d\<lparr>md5sig := True\<rparr>) w)
      else if rez = CHR ''O'' then num_opt 1 LONG_MAX (\<lambda>v. upd_dp (\<lambda>d. d\<lparr>fake_offset := c_int v\<rparr>)) optarg w
      else if rez = CHR ''n'' then do {
        str \<leftarrow> optarg;
        (r, b) \<leftarrow> change_tls_sni str (fake_tls (prm w)) (length (fake_tls (prm w)));
        let w = upd_prm (\<lambda>p. p\<lparr>fake_tls := b\<rparr>) w;
        Some (if r \<noteq> 0 then Exit (- 1) else Next, w)
      }
      else if rez = CHR ''l'' then do {
        d \<leftarrow> cur_dp w;
        if fake_data d \<noteq> None then Some (Next, w)
        else do {
          str \<leftarrow> optarg;
          (f, w) \<leftarrow> ftob k str w;
          Some (if f = None then Invalid else Next, upd_dp (\<lambda>d. d\<lparr>fake_data := f\<rparr>) w)
        }
      }
      else if rez = CHR ''e'' then do {
        str \<leftarrow> optarg;
        c \<leftarrow> parse_cform 1 str;
        Some (case c of
                [x] \<Rightarrow> (Next, upd_dp (\<lambda>d. d\<lparr>oob_char := (x, 1)\<rparr>) w)
              | _ \<Rightarrow> (Invalid, w))
      }
      else None)"

definition packet_opt :: "kernel \<Rightarrow> char \<Rightarrow> bytes option \<Rightarrow> world \<Rightarrow> (outcome \<times> world) option" where
  "packet_opt k rez optarg w =
     (if rez = CHR ''M'' then flags_opt http_flags mod_http_f (\<lambda>f d. d\<lparr>mod_http_f := f\<rparr>) optarg w
      else if rez = CHR ''r'' then do {
        d \<leftarrow> cur_dp w;
        (ps, w) \<leftarrow> add k 16 zero_part (tlsrec d) (int (length (tlsrec d))) w;
        case ps of
          None \<Rightarrow> Some (Exit (- 1), w)
        | Some ps \<Rightarrow> do {
            str \<leftarrow> optarg;
            (r, p) \<leftarrow> parse_offset (last ps) str;
            Some (if r \<noteq> 0 \<or> 0xffff < p_pos p then Invalid else Next,
                  upd_dp (\<lambda>d. d\<lparr>tlsrec := butlast ps @ [p]\<rparr>) w)
          }
      }
      else if rez = CHR ''a'' then num_opt 0 INT_MAX (\<lambda>v. upd_dp (\<lambda>d. d\<lparr>udp_fake_count := v\<rparr>)) optarg w
      else if rez = CHR ''V'' then do {
        (val, e, c) \<leftarrow> opt_long optarg;
        if val \<le> 0 \<or> USHRT_MAX < val then Some (Invalid, w)
        else do {
          let w = upd_dp (\<lambda>d. d\<lparr>pf := (htons val, snd (pf d))\<rparr>) w;
          str \<leftarrow> optarg;
          (val', c') \<leftarrow> (if c = 45 then do {
                (v, e') \<leftarrow> strtol (str @ [0]) (Suc e) 0;
                c' \<leftarrow> rd (str @ [0]) e';
                Some (v, c')
              }
              else Some (val, c));
          let bad = (val' \<le> 0 \<or> USHRT_MAX < val');
          let w = (if c' \<noteq> 0 then w else upd_dp (\<lambda>d. d\<lparr>pf := (fst (pf d), htons val')\<rparr>) w);
          Some (if bad \<or> c' \<noteq> 0 then Invalid else Next, w)
        }
      }
      else if rez = CHR ''g'' then
        num_opt 1 255 (\<lambda>v. upd_prm (\<lambda>p. p\<lparr>def_ttl := v, custom_ttl := True\<rparr>)) optarg w
      else if rez = CHR ''Y'' then Some (Next, upd_dp (\<lambda>d. d\<lparr>drop_sack := True\<rparr>) w)
      else if rez = CHR ''w'' then do {
        (val, e, c) \<leftarrow> opt_long optarg;
        Some (if val < 0 \<or> e = 0 \<or> 1000 \<le> val \<or> c \<noteq> 0 then Invalid else Next,
              upd_prm (\<lambda>p. p\<lparr>sfdelay := val\<rparr>) w)
      }
      else if rez = CHR ''W'' then Some (Next, upd_prm (\<lambda>p. p\<lparr>wait_send_f := False\<rparr>) w)
      else if rez = CHR ''P'' then Some (Next, upd_prm (\<lambda>p. p\<lparr>protect_path := optarg\<rparr>) w)
      else if rez = CHR 0x00 then Some (Next, w)
      else Some (Exit (- 1), w))"

text \<open>One round of the loop of \<open>parse_args\<close>.\<close>

definition parse_opt ::
  "(bytes \<Rightarrow> int option) \<Rightarrow> kernel \<Rightarrow> char \<Rightarrow> bytes option \<Rightarrow> world \<Rightarrow> (outcome \<times> world) option" where
  "parse_opt strtof k rez optarg w =
     (if rez \<in> set ''NXUipIbcx'' then general_opt k rez optarg w
      else if rez \<in> set ''FAuTKH'' then filter_opt strtof k rez optarg w
      else if rez \<in> set ''sdoqf'' then part_opt k rez optarg w
      else if rez \<in> set ''tkSOnle'' then fake_opt k rez optarg w
      else packet_opt k rez optarg w)"

text \<open>
  The results of \<open>getopt_long\<close> in turn, until one is invalid or ends the parser. The result is
  \<open>Exit r\<close> for a return from inside the loop.
\<close>

fun opts_loop ::
  "(char \<Rightarrow> bytes option \<Rightarrow> world \<Rightarrow> (outcome \<times> world) option) \<Rightarrow> (char \<times> bytes option) list \<Rightarrow> world
     \<Rightarrow> (outcome \<times> world) option" where
  "opts_loop step [] w = Some (Next, w)"
| "opts_loop step ((rez, optarg) # os) w = do {
     (r, w) \<leftarrow> step rez optarg w;
     case r of Next \<Rightarrow> opts_loop step os w | _ \<Rightarrow> Some (r, w)
   }"

text \<open>What follows the loop: a last strategy that takes everything, the TTL and the cache.\<close>

definition finish_opts :: "kernel \<Rightarrow> world \<Rightarrow> (int \<times> world) option" where
  "finish_opts k w = do {
     d \<leftarrow> cur_dp w;
     (ok, w) \<leftarrow> (if hosts d \<noteq> None \<or> proto d \<noteq> 0 \<or> fst (pf d) \<noteq> 0 then add_dp k w else Some (True, w));
     if \<not> ok then Some (- 1, w)
     else do {
       let w = (if sa_family (baddr (prm w)) \<noteq> AF_INET6 then upd_prm (\<lambda>p. p\<lparr>ipv6 := False\<rparr>) w else w);
       let (bad, w) =
         (if def_ttl (prm w) = 0
          then let (t, w) = get_default_ttl k w in (t < 1, upd_prm (\<lambda>p. p\<lparr>def_ttl := t\<rparr>) w)
          else (False, w));
       if bad then Some (- 1, w)
       else do {
         let (c, w) = sys k (Malloc 24) w;
         let m = mem_pool (ret c \<noteq> 0) False;
         Some (if m = None then - 1 else 0, upd_prm (\<lambda>p. p\<lparr>mempool := m\<rparr>) w)
       }
     }
   }"

definition reset_return :: "int \<Rightarrow> world \<Rightarrow> (int \<times> world) option" where
  "reset_return r w = do { w \<leftarrow> reset_params w; Some (r, w) }"

definition parse_args ::
  "(bytes \<Rightarrow> int option) \<Rightarrow> kernel \<Rightarrow> (char \<times> bytes option) list \<Rightarrow> world \<Rightarrow> (int \<times> world) option" where
  "parse_args strtof k opts w = do {
     _ \<leftarrow> opt_string (butlast options) 0;
     let w = upd_prm (\<lambda>p. p\<lparr>laddr := set_htons 1080 (laddr p)\<rparr>) w;
     (ok, w) \<leftarrow> add_dp k w;
     if \<not> ok then reset_return (- 1) w
     else do {
       (r, w) \<leftarrow> opts_loop (parse_opt strtof k) opts w;
       case r of
         Exit r \<Rightarrow> reset_return r w
       | Invalid \<Rightarrow> reset_return (- 1) w
       | Next \<Rightarrow> do {
           (r, w) \<leftarrow> finish_opts k w;
           if r < 0 then reset_return r w else Some (r, w)
         }
     }
   }"
section \<open>The command-line program\<close>

definition main_opt ::
  "(bytes \<Rightarrow> int option) \<Rightarrow> kernel \<Rightarrow> char \<Rightarrow> bytes option \<Rightarrow> world \<Rightarrow> (outcome \<times> world) option" where
  "main_opt strtof k rez optarg w =
     (if rez = CHR ''h'' \<or> rez = CHR ''v'' then Some (Exit 0, w) else parse_opt strtof k rez optarg w)"

definition clear_return :: "int \<Rightarrow> world \<Rightarrow> (int \<times> world) option" where
  "clear_return r w = do { w \<leftarrow> clear_params w; Some (r, w) }"

definition main ::
  "(bytes \<Rightarrow> int option) \<Rightarrow> nat \<Rightarrow> kernel \<Rightarrow> eval list \<Rightarrow> bytes \<Rightarrow> (char \<times> bytes option) list \<Rightarrow> world
     \<Rightarrow> (int \<times> world) option" where
  "main strtof fuel k junk junk_buf opts w = do {
     _ \<leftarrow> opt_string options 0;
     let w = upd_prm (\<lambda>p. p\<lparr>laddr := set_htons 1080 (laddr p)\<rparr>) w;
     (ok, w) \<leftarrow> add_dp k w;
     if \<not> ok then clear_return (- 1) w
     else do {
       (r, w) \<leftarrow> opts_loop (main_opt strtof k) opts w;
       case r of
         Exit r \<Rightarrow> clear_return r w
       | Invalid \<Rightarrow> clear_return (- 1) w
       | Next \<Rightarrow> do {
           (r, w) \<leftarrow> finish_opts k w;
           if r < 0 then clear_return r w
           else do {
             (status, w) \<leftarrow> run fuel k junk junk_buf (laddr (prm w)) w;
             clear_return status w
           }
         }
     }
   }"
section \<open>Escapes: a round trip\<close>

definition hex_digit :: "nat \<Rightarrow> byte" where
  "hex_digit n = (if n < 10 then of_nat (48 + n) else of_nat (87 + n))"

text \<open>A byte as an escape: a backslash, the letter x and two digits.\<close>

definition hex_escape :: "byte \<Rightarrow> bytes" where
  "hex_escape b = [BACKSLASH, 120, hex_digit (unat b div 16), hex_digit (unat b mod 16)]"

lemma hex_digits:
  "\<forall>n \<in> set [0..<16]. digit_val (hex_digit n) = int n \<and> \<not> isspace (hex_digit n) \<and> hex_digit n \<noteq> 43 \<and> hex_digit n \<noteq> 45"
  by code_simp

lemma hex_digit_val: "n < 16 \<Longrightarrow> digit_val (hex_digit n) = int n"
  and hex_digit_plain: "n < 16 \<Longrightarrow> \<not> isspace (hex_digit n) \<and> hex_digit n \<noteq> 43 \<and> hex_digit n \<noteq> 45"
  using hex_digits by auto

lemma rd_middle: "rd (xs @ ys) (length xs + i) = rd ys i"
  by (simp add: rd_def nth_append)

lemma scan_hex_escape:
  "scan_escape (xs @ hex_escape b @ ys) (Suc (length xs)) = Some (Some (b, length xs + 4))"
proof -
  define s where "s = xs @ hex_escape b @ ys"
  define hi where "hi = unat b div 16"
  define lo where "lo = unat b mod 16"
  have "hi * 16 + lo = unat b"
    by (simp add: hi_def lo_def)
  then have "int hi * 16 + int lo = uint b"
    by (metis of_nat_add of_nat_mult of_nat_numeral uint_nat)
  moreover have "hi < 16" "lo < 16"
    using unat_byte[of b] by (auto simp: hi_def lo_def)
  ultimately have d: "hi < 16" "lo < 16" "int hi * 16 + int lo = uint b"
    by blast+
  have s: "s = xs @ BACKSLASH # 120 # hex_digit hi # hex_digit lo # ys"
    by (simp add: s_def hex_escape_def hi_def lo_def)
  have rd: "rd s (Suc (length xs)) = Some 120" "rd s (Suc (Suc (length xs))) = Some (hex_digit hi)"
    "rd s (Suc (Suc (Suc (length xs)))) = Some (hex_digit lo)"
    using rd_middle[of xs "BACKSLASH # 120 # hex_digit hi # hex_digit lo # ys" 1]
      rd_middle[of xs "BACKSLASH # 120 # hex_digit hi # hex_digit lo # ys" 2]
      rd_middle[of xs "BACKSLASH # 120 # hex_digit hi # hex_digit lo # ys" 3]
    by (simp_all add: s rd_def numeral_eq_Suc)
  have "scan_start s (Suc (Suc (length xs))) 2 16 = Some (False, Suc (Suc (length xs)), 2)"
    using rd hex_digit_plain[OF d(1)] by (simp add: scan_start_def)
  moreover have "scan_digits s (Suc (Suc (length xs))) 2 16 0 = Some (uint b, length xs + 4)"
    using rd d by (simp add: numeral_2_eq_2 hex_digit_val)
  ultimately have "scan_num s (Suc (Suc (length xs))) 2 16 = Some (Some (uint b, length xs + 4))"
    by (simp add: scan_num_def)
  then show ?thesis
    using rd by (simp add: scan_escape_def s_def)
qed

lemma length_hex_escape: "length (hex_escape b) = 4"
  by (simp add: hex_escape_def)

lemma parse_cform_escaped:
  assumes "length acc + length bs \<le> blen"
  shows "parse_cform_loop (xs @ concat (map hex_escape bs) @ [0]) (length xs + 4 * length bs) blen (length xs) acc
    = Some (acc @ bs)"
  using assms
proof (induction bs arbitrary: xs acc)
  case Nil
  then show ?case by (subst parse_cform_loop.simps) simp
next
  case (Cons b bs)
  define s where "s = xs @ concat (map hex_escape (b # bs)) @ [0]"
  have s: "s = xs @ hex_escape b @ (concat (map hex_escape bs) @ [0])"
    by (simp add: s_def)
  have rd: "rd s (length xs) = Some BACKSLASH" "rd s (Suc (length xs)) = Some 120"
    using rd_middle[of xs "hex_escape b @ (concat (map hex_escape bs) @ [0])" 0]
      rd_middle[of xs "hex_escape b @ (concat (map hex_escape bs) @ [0])" 1]
    by (simp_all add: s rd_def hex_escape_def)
  have "scan_escape s (Suc (length xs)) = Some (Some (b, length xs + 4))"
    unfolding s by (rule scan_hex_escape)
  moreover have "esca 120 = None"
    by (simp add: esca_def)
  moreover have "length acc < blen" "length xs < length xs + 4 * length (b # bs)"
    using Cons.prems by auto
  moreover have "parse_cform_loop s (length xs + 4 * length (b # bs)) blen (length xs + 4) (acc @ [b]) = Some (acc @ b # bs)"
    using Cons.IH[of "acc @ [b]" "xs @ hex_escape b"] Cons.prems by (simp add: s_def length_hex_escape add.assoc)
  ultimately show ?case
    unfolding s_def[symmetric] using rd by (subst parse_cform_loop.simps) simp
qed

text \<open>
  C37. Every byte string can be given on the command line: written as hexadecimal escapes it is
  what \<open>parse_cform\<close> stores, if the buffer has room for it.
\<close>

theorem parse_cform_round_trip:
  assumes "length bs \<le> blen"
  shows "parse_cform blen (concat (map hex_escape bs)) = Some bs"
proof -
  have "length (concat (map hex_escape bs)) = 4 * length bs"
    by (induction bs) (simp_all add: hex_escape_def)
  then show ?thesis
    using parse_cform_escaped[of "[]" bs blen "[]"] assms by (simp add: parse_cform_def)
qed

theorem parse_cform_round_trip_witness:
  "parse_cform 3 (concat (map hex_escape [0, 92, 255])) = Some [0, 92, 255]"
  by (rule parse_cform_round_trip) simp

section \<open>The option string\<close>

lemma put_colons_spec:
  "put_colons (pre @ v # replicate a j @ suf) (length pre) a = Some (pre @ v # replicate a 58 @ suf, length pre + a)"
proof (induction a arbitrary: pre v)
  case (Suc a)
  have "wr (pre @ v # replicate (Suc a) j @ suf) (Suc (length pre)) 58 = Some ((pre @ [v]) @ 58 # replicate a j @ suf)"
    by (simp add: wr_def list_update_append)
  then show ?case
    using Suc.IH[of "pre @ [v]" 58] by simp
qed simp

definition opt_code :: "(byte \<times> nat) list \<Rightarrow> bytes" where
  "opt_code os = concat (map (\<lambda>(v, a). v # replicate a 58) os)"

lemma opt_loop_spec:
  "opt_loop os (pre @ replicate (length (opt_code os)) j @ [0]) (length pre) (length pre + length (opt_code os))
   = Some (pre @ opt_code os @ [0])"
proof (induction os arbitrary: pre)
  case Nil
  then show ?case by (simp add: opt_code_def)
next
  case (Cons va os)
  obtain v a where va: "va = (v, a)" by force
  define rest where "rest = replicate (length (opt_code os)) j @ [0]"
  have code: "opt_code (va # os) = (v # replicate a 58) @ opt_code os"
    by (simp add: opt_code_def va)
  have "wr (pre @ replicate (length (opt_code (va # os))) j @ [0]) (length pre) v = Some (pre @ v # replicate a j @ rest)"
    by (simp add: wr_def code rest_def list_update_append replicate_add)
  moreover have "put_colons (pre @ v # replicate a j @ rest) (length pre) a =
      Some (pre @ v # replicate a 58 @ rest, length pre + a)"
    by (rule put_colons_spec)
  ultimately show ?case
    using Cons.IH[of "pre @ v # replicate a 58"] by (simp add: va[symmetric] code) (simp add: va rest_def add.assoc)
qed

lemma length_opt_code: "length (opt_code os) = length os + sum_list (map snd os)"
  by (induction os) (auto simp: opt_code_def)

text \<open>
  C38. The loops that build the short option string stay inside its array and fill it exactly: every
  letter of the table followed by as many colons as it has arguments, then the terminating NUL.
\<close>

theorem opt_string_exact: "opt_string os j = Some (opt_code os @ [0])"
  using opt_loop_spec[of os "[]" j] by (simp add: opt_string_def length_opt_code)

section \<open>Host lists\<close>

text \<open>The words of a text between separators, in lower case; \<open>cur\<close> is the word begun.\<close>

fun host_words :: "bytes \<Rightarrow> bytes \<Rightarrow> bytes list" where
  "host_words cur [] = (if cur = [] then [] else [cur])"
| "host_words cur (c # cs) =
     (if host_sep c then (if cur = [] then host_words [] cs else cur # host_words [] cs)
      else host_words (cur @ [snd (lower_char c)]) cs)"

lemma rdn_slice: "s \<le> e \<Longrightarrow> e \<le> length b \<Longrightarrow> rdn b (int s) (int e - int s) = Some (take (e - s) (drop s b))"
  by (simp add: rdn_def nat_diff_distrib)

lemma parse_hosts_loop_words:
  assumes "\<forall>h n. ret (k h (Malloc n)) \<noteq> 0" and "s \<le> e" and "e \<le> length b"
    and "add_all mem_add_ok (host_words (take (e - s) (drop s b)) (drop e b)) hdr = Some hdr'"
  shows "\<exists>b' w'. parse_hosts_loop k b e s hdr w = Some (Some hdr', b', w')"
  using assms(2-4)
proof (induction "length b - e" arbitrary: b e s hdr w)
  case 0
  then have e: "e = length b" by simp
  show ?case
  proof (cases "s = e")
    case True
    then show ?thesis
      using 0 e by (subst parse_hosts_loop.simps, subst parse_hosts_loop.simps) simp
  next
    case False
    then obtain v where "mem_add True True hdr (take (e - s) (drop s b)) = Some (v, hdr')"
      using 0 e by (auto simp: mem_add_ok_def bind_eq_Some_conv)
    moreover from this have "v \<noteq> None"
      by (auto simp: mem_add_def bind_eq_Some_conv)
    ultimately show ?thesis
      using False e 0(2) rdn_slice[OF 0(2,3)] malloc_sys[OF assms(1)]
      by (subst parse_hosts_loop.simps, subst parse_hosts_loop.simps) (auto simp: split_beta)
  qed
next
  case (Suc n)
  then have e: "e < length b" by simp
  have drop: "drop e b = b ! e # drop (Suc e) b"
    using e by (simp add: Cons_nth_drop_Suc)
  consider "\<not> host_sep (b ! e)" | "host_sep (b ! e)" "s = e" | "host_sep (b ! e)" "s \<noteq> e" by blast
  then show ?case
  proof cases
    case 1
    define b1 where "b1 = b[e := snd (lower_char (b ! e))]"
    have "take (Suc e - s) (drop s b1) = take (e - s) (drop s b) @ [snd (lower_char (b ! e))]"
      using Suc.prems(1) e
      by (simp add: b1_def Suc_diff_le take_Suc_conv_app_nth drop_update_swap)
    moreover have "drop (Suc e) b1 = drop (Suc e) b"
      by (simp add: b1_def)
    ultimately have "\<exists>b' w'. parse_hosts_loop k b1 (Suc e) s hdr w = Some (Some hdr', b', w')"
      using Suc.hyps(2) Suc.prems 1 e drop by (intro Suc.hyps(1)) (auto simp: b1_def)
    then show ?thesis
      using 1 e by (subst parse_hosts_loop.simps) (simp add: b1_def)
  next
    case 2
    then have "\<exists>b' w'. parse_hosts_loop k b (Suc e) (Suc s) hdr w = Some (Some hdr', b', w')"
      using Suc.hyps(2) Suc.prems e drop by (intro Suc.hyps(1)) auto
    then show ?thesis
      using 2 e by (subst parse_hosts_loop.simps) simp
  next
    case 3
    then obtain v h1 where add: "mem_add True True hdr (take (e - s) (drop s b)) = Some (v, h1)"
      and rest: "add_all mem_add_ok (host_words [] (drop (Suc e) b)) h1 = Some hdr'"
      using Suc.prems e drop by (auto simp: mem_add_ok_def bind_eq_Some_conv)
    from add have "v \<noteq> None"
      by (auto simp: mem_add_def bind_eq_Some_conv)
    define w1 where "w1 = snd (sys k (Malloc 72) w)"
    have "\<exists>b' w'. parse_hosts_loop k b (Suc e) (Suc e) h1 w1 = Some (Some hdr', b', w')"
      using Suc.hyps(2) e rest by (intro Suc.hyps(1)) auto
    then show ?thesis
      using 3 e add \<open>v \<noteq> None\<close> rdn_slice[OF Suc.prems(1,2)] malloc_sys[OF assms(1), of 72 w]
      by (subst parse_hosts_loop.simps) (auto simp: split_beta w1_def)
  qed
qed

text \<open>
  C36. A host list becomes a pool that holds exactly the words of the text, in lower case, whatever
  separators surround them; the last word counts without a separator behind it. \<open>parse_hosts\<close>
  always returns when memory can be allocated.
\<close>

theorem parse_hosts_words:
  assumes "\<forall>h n. ret (k h (Malloc n)) \<noteq> 0" and "length b < 2 ^ 32 - 1"
  shows "\<exists>hs b' w'. parse_hosts k b w = Some (Some hs, b', w') \<and> mp_inv hs
     \<and> {name. mem_get hs name \<noteq> None} = set (host_words [] b)"
proof -
  define hdr where "hdr = \<lparr>stat = True, root = Null :: elem kavl\<rparr>"
  have hdr: "mp_inv hdr" "mp_count hdr = 0" "mem_get hdr = Map.empty"
    by (auto simp: hdr_def mp_inv_def mp_count_def kavl_inv_def mem_get_def)
  have "length (host_words cur cs) \<le> Suc (length cs)" for cur cs
    by (induction cur cs rule: host_words.induct) auto
  from this[of "[]" b] have "mp_count hdr + length (host_words [] b) \<le> 2 ^ 32 - 1"
    using assms(2) hdr(2) by linarith
  then obtain hs where hs: "add_all mem_add_ok (host_words [] b) hdr = Some hs" "mp_inv hs"
    "dom (mem_get hs) = set (host_words [] b)"
    using mstore.add_all_ok[OF hdr(1), of "host_words [] b"] hdr(3) by auto
  then obtain b' w' where "parse_hosts_loop k b 0 0 hdr (snd (sys k (Malloc 24) w)) = Some (Some hs, b', w')"
    using parse_hosts_loop_words[OF assms(1), of 0 0 b hdr hs "snd (sys k (Malloc 24) w)"] by auto
  then show ?thesis
    using hs malloc_sys[OF assms(1), of 24 w]
    by (auto simp: parse_hosts_def mem_pool_def split_beta hdr_def dom_def)
qed

theorem parse_hosts_words_witness:
  "\<exists>hs b' w'. parse_hosts plain_kernel (cstr ''A.b  c'') (start_world default_params) = Some (Some hs, b', w') \<and> mp_inv hs
     \<and> {name. mem_get hs name \<noteq> None} = set (host_words [] (cstr ''A.b  c''))"
  by (rule parse_hosts_words) (simp_all add: ok_reply_def cstr_def)

section \<open>What the parser accepts\<close>

text \<open>The values the rest of the program relies on.\<close>

definition dp_ok :: "desync_params \<Rightarrow> bool" where
  "dp_ok d \<longleftrightarrow> 0 \<le> ttl d \<and> ttl d \<le> 255 \<and> 0 \<le> udp_fake_count d \<and> udp_fake_count d \<le> INT_MAX
     \<and> (\<forall>p \<in> set (tlsrec d). p_pos p \<le> 0xffff) \<and> (\<forall>p \<in> set (parts d). p_m p \<noteq> DESYNC_NONE)"

definition prm_ok :: "params \<Rightarrow> bool" where
  "prm_ok p \<longleftrightarrow> 1 \<le> bfsize p \<and> bfsize p \<le> INT_MAX div 4 \<and> 1 \<le> max_open p \<and> max_open p < 0xffff div 2
     \<and> 0 \<le> timeout p \<and> timeout p \<le> UINT_MAX \<and> 1 \<le> cache_ttl p \<and> 0 \<le> sfdelay p \<and> sfdelay p < 1000
     \<and> 0 \<le> def_ttl p \<and> dp p \<noteq> [] \<and> dp_count p = int (length (dp p)) \<and> (\<forall>d \<in> set (dp p). dp_ok d)"

lemma upd_prm_simp: "prm (upd_prm f w) = f (prm w)"
  by (simp add: upd_prm_def)

lemma prm_ok_upd_dp:
  assumes "prm_ok (prm w)" and "\<And>d. dp_ok d \<Longrightarrow> dp_ok (f d)"
  shows "prm_ok (prm (upd_dp f w))"
proof -
  have "\<forall>d \<in> set (butlast (dp (prm w)) @ [f (last (dp (prm w)))]). dp_ok d"
    using assms by (auto simp: prm_ok_def dest: in_set_butlastD)
  then show ?thesis
    using assms(1) by (simp add: prm_ok_def upd_dp_def)
qed

lemma num_opt_ok:
  assumes "num_opt lo hi f optarg w = Some (Next, w')" and "\<And>v. lo \<le> v \<Longrightarrow> v \<le> hi \<Longrightarrow> P (f v w)"
  shows "P w'"
  using assms by (auto simp: num_opt_def bind_eq_Some_conv split: if_splits)

lemma flags_opt_ok:
  assumes "flags_opt tbl get put optarg w = Some (r, w')" and "prm_ok (prm w)" and "\<And>f d. dp_ok d \<Longrightarrow> dp_ok (put f d)"
  shows "prm_ok (prm w')"
  using assms by (auto simp: flags_opt_def bind_eq_Some_conv Let_def split_beta intro!: prm_ok_upd_dp)

lemma add_prm: "add k ss z xs n w = Some (r, w') \<Longrightarrow> prm w' = prm w \<and> (\<forall>ys. r = Some ys \<longrightarrow> ys = xs @ [z] \<and> n = int (length xs))"
  by (auto simp: add_def bind_eq_Some_conv Let_def split_beta split: if_splits)

lemma dp_ok_zero: "dp_ok zero_dp"
  by (simp add: dp_ok_def zero_dp_def INT_MAX_def)

lemma add_dp_ok:
  assumes "add_dp k w = Some (r, w')" and "prm_ok (prm w)"
  shows "prm_ok (prm w')"
  using assms dp_ok_zero by (auto simp: add_dp_def bind_eq_Some_conv prm_ok_def split: option.splits dest!: add_prm)

lemma data_from_str_prm: "data_from_str k str w = Some (r, w') \<Longrightarrow> prm w' = prm w"
  by (auto simp: data_from_str_def bind_eq_Some_conv Let_def split_beta split: if_splits)

lemma ftob_prm: "ftob k str w = Some (r, w') \<Longrightarrow> prm w' = prm w"
  by (auto simp: ftob_def Let_def split_beta split: if_splits dest: data_from_str_prm)

lemma parse_hosts_loop_prm: "parse_hosts_loop k b e s hdr w = Some (r, b', w') \<Longrightarrow> prm w' = prm w"
proof (induction k b e s hdr w rule: parse_hosts_loop.induct)
  case (1 k b e s hdr w)
  note eq = "1.prems"[unfolded parse_hosts_loop.simps[of k b e s hdr w]]
  show ?case
  proof (cases "e \<le> length b")
    case True
    consider "e < length b \<and> \<not> host_sep (b ! e)" | "\<not> (e < length b \<and> \<not> host_sep (b ! e))" "s = e"
      | "\<not> (e < length b \<and> \<not> host_sep (b ! e))" "s \<noteq> e"
      by blast
    then show ?thesis
    proof cases
      case 1
      then show ?thesis using eq "1.IH"(1)[OF True 1] True by simp
    next
      case 2
      then show ?thesis using eq "1.IH"(2)[OF True 2] True by (simp only: if_True if_False refl)
    next
      case 3
      define c where "c = fst (sys k (Malloc 72) w)"
      define w1 where "w1 = snd (sys k (Malloc 72) w)"
      have body: "(do {
           str \<leftarrow> rdn b (int s) (int e - int s);
           (v, hdr) \<leftarrow> mem_add (ret c \<noteq> 0) True hdr str;
           case v of None \<Rightarrow> Some (None, b, w1) | Some _ \<Rightarrow> parse_hosts_loop k b (Suc e) (Suc e) hdr w1
         }) = Some (r, b', w')"
        using eq True 3 by (simp only: if_True if_False split_beta c_def w1_def Let_def)
      obtain str v h1 where str: "rdn b (int s) (int e - int s) = Some str"
        and v: "mem_add (ret c \<noteq> 0) True hdr str = Some (v, h1)"
        using body by (auto simp: bind_eq_Some_conv)
      note ih = "1.IH"(3)[OF True 3, of str "sys k (Malloc 72) w" c w1 "(v, h1)" v h1]
      show ?thesis
        using body str v ih by (cases v) (auto simp: c_def w1_def)
    qed
  next
    case False
    then show ?thesis using eq by simp
  qed
qed

lemma parse_hosts_prm: "parse_hosts k b w = Some (r, b', w') \<Longrightarrow> prm w' = prm w"
  by (auto simp: parse_hosts_def Let_def split_beta split: option.splits dest: parse_hosts_loop_prm)

lemmas num_opt_prm = num_opt_ok[where P = "\<lambda>w. prm_ok (prm w)"]

lemma get_addr_prm: "prm (snd (snd (get_addr k str a w))) = prm w"
  by (simp add: get_addr_def Let_def split_beta)

lemma general_opt_ok:
  assumes "general_opt k rez optarg w = Some (Next, w')" and "prm_ok (prm w)"
  shows "prm_ok (prm w')"
proof -
  have "prm_ok (p\<lparr>laddr := a\<rparr>) = prm_ok p" "prm_ok (p\<lparr>baddr := a\<rparr>) = prm_ok p" for p a
    by (simp_all add: prm_ok_def)
  then show ?thesis
    using assms unfolding general_opt_def
    by (auto simp: upd_prm_simp bind_eq_Some_conv Let_def split_beta get_addr_prm split: if_split_asm
        elim!: num_opt_prm) (auto simp: prm_ok_def)
qed

lemma filter_opt_ok:
  assumes "filter_opt strtof k rez optarg w = Some (Next, w')" and ok: "prm_ok (prm w)"
  shows "prm_ok (prm w')"
proof -
  have upd: "prm_ok (prm (upd_dp (\<lambda>d. d\<lparr>file_ptr := b, hosts := h\<rparr>) w1))" if "prm w1 = prm w" for b h w1
    using that ok by (intro prm_ok_upd_dp) (auto simp: dp_ok_def)
  consider (A) "rez = CHR ''A''" | (K) "rez = CHR ''K''" | (H) "rez = CHR ''H''"
    | (T) "rez = CHR ''T''"
    | (o) "rez \<noteq> CHR ''A''" "rez \<noteq> CHR ''K''" "rez \<noteq> CHR ''H''" "rez \<noteq> CHR ''T''"
    by blast
  then show ?thesis
  proof cases
    case A
    then obtain w1 where "add_dp k w = Some (True, w1)"
      and fl: "flags_opt auto_flags detect (\<lambda>f d. d\<lparr>detect := f\<rparr>) optarg w1 = Some (Next, w')"
      using assms(1) by (auto simp: filter_opt_def bind_eq_Some_conv split: if_split_asm)
    then have "prm_ok (prm w1)"
      using add_dp_ok ok by blast
    with fl show ?thesis
      by (rule flags_opt_ok) (simp add: dp_ok_def)
  next
    case K
    then have "flags_opt proto_flags proto (\<lambda>f d. d\<lparr>proto := f\<rparr>) optarg w = Some (Next, w')"
      using assms(1) by (simp add: filter_opt_def)
    then show ?thesis
      using ok by (rule flags_opt_ok) (simp add: dp_ok_def)
  next
    case H
    then show ?thesis
      using assms upd
      by (auto simp: filter_opt_def bind_eq_Some_conv Let_def split: if_split_asm option.split_asm
          dest!: ftob_prm parse_hosts_prm)
  next
    case T
    then obtain str where "optarg = Some str"
      using assms(1) by (auto simp: filter_opt_def bind_eq_Some_conv)
    then obtain val where "w' = upd_prm (\<lambda>p. p\<lparr>timeout := val\<rparr>) w" "0 < val" "val \<le> UINT_MAX"
      using assms(1) T by (cases "strtof str") (auto simp: filter_opt_def split: if_split_asm)
    then show ?thesis
      using ok by (simp add: prm_ok_def upd_prm_simp)
  next
    case o
    then show ?thesis
      using assms unfolding filter_opt_def
      by (auto simp: upd_prm_simp bind_eq_Some_conv split: if_split_asm option.split_asm elim!: num_opt_prm)
         (auto simp: prm_ok_def)
  qed
qed

lemma parse_offset_mode: "parse_offset p str = Some (r, p') \<Longrightarrow> p_m p' = p_m p"
  by (auto simp: parse_offset_def bind_eq_Some_conv Let_def split: if_split_asm)

lemma part_opt_ok:
  assumes "part_opt k rez optarg w = Some (Next, w')" and "prm_ok (prm w)"
  shows "prm_ok (prm w')"
proof -
  obtain d ps w1 p where d: "cur_dp w = Some d" and w1: "prm w1 = prm w" and ps: "ps = parts d @ [zero_part]"
    and w': "w' = upd_dp (\<lambda>d. d\<lparr>parts := butlast ps @ [p\<lparr>p_m := part_mode rez\<rparr>]\<rparr>) w1"
    using assms(1) by (auto simp: part_opt_def bind_eq_Some_conv split: option.split_asm if_split_asm dest!: add_prm)
  have last: "d = last (dp (prm w))" "dp (prm w) \<noteq> []"
    using d by (auto simp: cur_dp_def split: if_split_asm)
  have d_ok: "dp_ok d"
    using assms(2) last by (simp add: prm_ok_def)
  define d' where "d' = d\<lparr>parts := parts d @ [p\<lparr>p_m := part_mode rez\<rparr>]\<rparr>"
  have "dp_ok d'"
    using d_ok by (auto simp: dp_ok_def d'_def part_mode_def)
  moreover have "w' = upd_dp (\<lambda>_. d') w1"
    by (simp add: w' ps d'_def upd_dp_def w1 last(1)[symmetric])
  ultimately show ?thesis
    using prm_ok_upd_dp[of w1 "\<lambda>_. d'"] assms(2) w1 by simp
qed

lemma fake_opt_ok:
  assumes "fake_opt k rez optarg w = Some (Next, w')" and ok: "prm_ok (prm w)"
  shows "prm_ok (prm w')"
proof -
  have dp: "prm_ok (prm (upd_dp f w1))" if "prm w1 = prm w" "\<And>d. dp_ok d \<Longrightarrow> dp_ok (f d)" for f w1
    using that ok by (intro prm_ok_upd_dp) auto
  have "prm_ok (p\<lparr>fake_tls := b\<rparr>) = prm_ok p" for p b
    by (simp add: prm_ok_def)
  moreover have "\<exists>x. w' = upd_dp (\<lambda>d. d\<lparr>oob_char := x\<rparr>) w" if e: "rez = CHR ''e''"
  proof -
    obtain c where "(case c of [x] \<Rightarrow> (Next, upd_dp (\<lambda>d. d\<lparr>oob_char := (x, 1)\<rparr>) w) | _ \<Rightarrow> (Invalid, w)) = (Next, w')"
      using assms(1) e by (auto simp: fake_opt_def bind_eq_Some_conv)
    then show ?thesis
      by (auto split: list.split_asm)
  qed
  moreover have "dp_ok (d\<lparr>oob_char := x\<rparr>) = dp_ok d" for d x
    by (simp add: dp_ok_def)
  ultimately show ?thesis
    using assms dp[of w] unfolding fake_opt_def
    by (cases "rez = CHR ''e''") (auto simp: upd_prm_simp bind_eq_Some_conv Let_def split: if_split_asm option.split_asm
        dest!: ftob_prm elim!: num_opt_prm intro!: dp, auto simp: dp_ok_def)
qed

lemma packet_opt_ok:
  assumes "packet_opt k rez optarg w = Some (Next, w')" and ok: "prm_ok (prm w)"
  shows "prm_ok (prm w')"
proof -
  have dp: "prm_ok (prm (upd_dp f w1))" if "prm_ok (prm w1)" "\<And>d. dp_ok d \<Longrightarrow> dp_ok (f d)" for f w1
    using that by (rule prm_ok_upd_dp)
  have pf: "dp_ok (d\<lparr>pf := x\<rparr>) = dp_ok d" for d x
    by (simp add: dp_ok_def)
  consider (M) "rez = CHR ''M''" | (r) "rez = CHR ''r''" | (V) "rez = CHR ''V''"
    | (o) "rez \<noteq> CHR ''M''" "rez \<noteq> CHR ''r''" "rez \<noteq> CHR ''V''"
    by blast
  then show ?thesis
  proof cases
    case M
    then have "flags_opt http_flags mod_http_f (\<lambda>f d. d\<lparr>mod_http_f := f\<rparr>) optarg w = Some (Next, w')"
      using assms(1) by (simp add: packet_opt_def)
    then show ?thesis
      using ok by (rule flags_opt_ok) (simp add: dp_ok_def)
  next
    case r
    then obtain d ps w1 p where d: "cur_dp w = Some d" and w1: "prm w1 = prm w" and ps: "ps = tlsrec d @ [zero_part]"
      and p: "\<not> 0xffff < p_pos p" and w': "w' = upd_dp (\<lambda>d. d\<lparr>tlsrec := butlast ps @ [p]\<rparr>) w1"
      using assms(1) by (fastforce simp: packet_opt_def bind_eq_Some_conv split: option.split_asm if_split_asm dest!: add_prm)
    have last: "d = last (dp (prm w))" "dp (prm w) \<noteq> []"
      using d by (auto simp: cur_dp_def split: if_split_asm)
    define d' where "d' = d\<lparr>tlsrec := tlsrec d @ [p]\<rparr>"
    have "dp_ok d"
      using ok last by (simp add: prm_ok_def)
    then have "dp_ok d'"
      using p by (auto simp: dp_ok_def d'_def)
    moreover have "w' = upd_dp (\<lambda>_. d') w1"
      by (simp add: w' ps d'_def upd_dp_def w1 last(1)[symmetric])
    ultimately show ?thesis
      using prm_ok_upd_dp[of w1 "\<lambda>_. d'"] ok w1 by simp
  next
    case V
    then show ?thesis
      using assms
      by (auto simp: packet_opt_def bind_eq_Some_conv Let_def pf split: if_split_asm intro!: dp)
  next
    case o
    then show ?thesis
      using assms unfolding packet_opt_def
      by (auto simp: upd_prm_simp bind_eq_Some_conv Let_def split: if_split_asm elim!: num_opt_prm intro!: dp)
         (auto simp: dp_ok_def prm_ok_def)
  qed
qed

lemma parse_opt_ok:
  assumes "parse_opt strtof k rez optarg w = Some (Next, w')" and "prm_ok (prm w)"
  shows "prm_ok (prm w')"
  using assms(1) unfolding parse_opt_def
  by (simp only: split: if_split_asm)
     (blast intro: assms(2) general_opt_ok filter_opt_ok part_opt_ok fake_opt_ok packet_opt_ok)+

lemma opts_loop_ok:
  assumes "opts_loop (parse_opt strtof k) opts w = Some (Next, w')" and "prm_ok (prm w)"
  shows "prm_ok (prm w')"
  using assms
proof (induction opts arbitrary: w)
  case (Cons o' opts)
  obtain rez optarg where o': "o' = (rez, optarg)" by force
  then obtain w1 where w1: "parse_opt strtof k rez optarg w = Some (Next, w1)"
    and rest: "opts_loop (parse_opt strtof k) opts w1 = Some (Next, w')"
  proof -
    obtain r w1 where r: "parse_opt strtof k rez optarg w = Some (r, w1)"
      using Cons.prems(1) unfolding o' opts_loop.simps by (auto simp: bind_eq_Some_conv)
    then show thesis
      using Cons.prems(1) that unfolding o' opts_loop.simps by (cases r) auto
  qed
  have "prm_ok (prm w1)"
    using parse_opt_ok[OF w1 Cons.prems(2)] .
  then show ?case
    using Cons.IH rest by blast
qed simp

lemma finish_opts_ok:
  assumes "finish_opts k w = Some (0, w')" and "prm_ok (prm w)"
  shows "prm_ok (prm w') \<and> 1 \<le> def_ttl (prm w') \<and> mempool (prm w') = Some \<lparr>stat = False, root = Null\<rparr>
     \<and> hosts (last (dp (prm w'))) = None \<and> proto (last (dp (prm w'))) = 0 \<and> fst (pf (last (dp (prm w')))) = 0"
proof -
  define d where "d = last (dp (prm w))"
  have cur: "cur_dp w = Some d"
    using assms(2) by (auto simp: cur_dp_def prm_ok_def d_def)
  obtain ok w1 where w1: "(if hosts d \<noteq> None \<or> proto d \<noteq> 0 \<or> fst (pf d) \<noteq> 0 then add_dp k w else Some (True, w)) = Some (ok, w1)"
    using assms(1) cur by (auto simp: finish_opts_def bind_eq_Some_conv)
  have ok: ok
    using assms(1) unfolding finish_opts_def cur bind.bind_lunit w1 prod.case by (cases ok) simp_all
  have prm1: "prm_ok (prm w1)"
    using w1 assms(2) by (auto split: if_split_asm dest: add_dp_ok)
  have last: "hosts (last (dp (prm w1))) = None" "proto (last (dp (prm w1))) = 0" "fst (pf (last (dp (prm w1)))) = 0"
    using w1 ok by (auto simp: d_def add_dp_def bind_eq_Some_conv zero_dp_def split: if_split_asm option.split_asm dest!: add_prm)
  define w2 where "w2 = (if sa_family (baddr (prm w1)) \<noteq> AF_INET6 then upd_prm (\<lambda>p. p\<lparr>ipv6 := False\<rparr>) w1 else w1)"
  have w2: "prm_ok (prm w2)" "dp (prm w2) = dp (prm w1)"
    using prm1 by (auto simp: w2_def upd_prm_simp prm_ok_def)
  obtain bad w3 where w3: "(if def_ttl (prm w2) = 0
      then let (t, w) = get_default_ttl k w2 in (t < 1, upd_prm (\<lambda>p. p\<lparr>def_ttl := t\<rparr>) w) else (False, w2)) = (bad, w3)"
    by force
  have nb: "\<not> bad"
    using assms(1) ok unfolding finish_opts_def cur bind.bind_lunit w1 prod.case Let_def w2_def[symmetric] w3[unfolded Let_def]
    by (cases bad) simp_all
  have ttl: "prm (snd (get_default_ttl k w2)) = prm w2"
    by (simp add: get_default_ttl_def Let_def split_beta)
  have p3: "prm_ok (prm w3)" "dp (prm w3) = dp (prm w1)" "1 \<le> def_ttl (prm w3)"
    using w3 nb w2 ttl by (auto simp: Let_def split_beta upd_prm_simp prm_ok_def split: if_split_asm)
  define c where "c = sys k (Malloc 24) w3"
  have run: "finish_opts k w = Some (if mem_pool (ret (fst c) \<noteq> 0) False = None then - 1 else 0,
      upd_prm (\<lambda>p. p\<lparr>mempool := mem_pool (ret (fst c) \<noteq> 0) False\<rparr>) (snd c))"
    unfolding finish_opts_def cur bind.bind_lunit w1 prod.case Let_def w2_def[symmetric] w3[unfolded Let_def]
    using ok nb by (simp add: c_def split_beta)
  have "prm (snd c) = prm w3"
    by (simp add: c_def)
  then have "prm w' = (prm w3)\<lparr>mempool := Some \<lparr>stat = False, root = Null\<rparr>\<rparr>"
    using run assms(1) by (auto simp: mem_pool_def upd_prm_simp split: if_split_asm)
  moreover have "prm_ok (p\<lparr>mempool := x\<rparr>) = prm_ok p" for p x
    by (simp add: prm_ok_def)
  ultimately show ?thesis
    using p3 last by simp
qed

lemma default_dp_ok:
  assumes "prm w = default_params\<lparr>laddr := a, fake_tls := t, fake_http := h, fake_udp := u\<rparr>" and "add_dp k w = Some (True, w')"
  shows "prm_ok (prm w')"
  using assms dp_ok_zero
  by (auto simp: add_dp_def bind_eq_Some_conv prm_ok_def default_params_def INT_MAX_def UINT_MAX_def
      split: option.split_asm dest!: add_prm)

lemma parse_args_next:
  assumes "parse_args strtof k opts w = Some (r, w')" and "r \<noteq> - 1"
    and "\<And>e w1 w2. opts_loop (parse_opt strtof k) opts w1 = Some (Exit e, w2) \<Longrightarrow> e = - 1"
  shows "\<exists>w1 w2. add_dp k (upd_prm (\<lambda>p. p\<lparr>laddr := set_htons 1080 (laddr p)\<rparr>) w) = Some (True, w1)
     \<and> opts_loop (parse_opt strtof k) opts w1 = Some (Next, w2) \<and> finish_opts k w2 = Some (r, w')"
proof -
  have rr: "\<not> reset_return (- 1) w1 = Some (r, w')" for w1
    using assms(2) by (auto simp: reset_return_def bind_eq_Some_conv)
  obtain x where x: "opt_string (butlast options) 0 = Some x"
    using assms(1) by (auto simp: parse_args_def bind_eq_Some_conv)
  obtain ok w1 where w1: "add_dp k (upd_prm (\<lambda>p. p\<lparr>laddr := set_htons 1080 (laddr p)\<rparr>) w) = Some (ok, w1)"
    using assms(1) by (auto simp: parse_args_def bind_eq_Some_conv Let_def)
  note run = assms(1)[unfolded parse_args_def x bind.bind_lunit Let_def w1 prod.case]
  have ok: ok
    using run rr by (cases ok) auto
  obtain o' w2 where w2: "opts_loop (parse_opt strtof k) opts w1 = Some (o', w2)"
    using run ok by (auto simp: bind_eq_Some_conv)
  have "o' = Next"
    using run ok w2 rr assms(3) by (cases o') auto
  moreover obtain r2 w3 where "finish_opts k w2 = Some (r2, w3)"
    using run ok w2 \<open>o' = Next\<close> by (auto simp: bind_eq_Some_conv)
  moreover have "r2 = r \<and> w3 = w'"
  proof (cases "r2 < 0")
    case True
    then have "r2 = - 1"
      using \<open>finish_opts k w2 = Some (r2, w3)\<close>
      by (auto simp: finish_opts_def bind_eq_Some_conv Let_def split_beta split: if_split_asm)
    then show ?thesis
      using run ok w2 \<open>o' = Next\<close> \<open>finish_opts k w2 = Some (r2, w3)\<close> rr by auto
  next
    case False
    then show ?thesis
      using run ok w2 \<open>o' = Next\<close> \<open>finish_opts k w2 = Some (r2, w3)\<close> by auto
  qed
  ultimately show ?thesis
    using w1 ok w2 by auto
qed

lemma flags_opt_exit: "flags_opt tbl get put optarg w \<noteq> Some (Exit e, w')"
  by (auto simp: flags_opt_def bind_eq_Some_conv Let_def split_beta split: if_split_asm)

lemma num_opt_exit: "num_opt lo hi f optarg w \<noteq> Some (Exit e, w')"
  by (auto simp: num_opt_def bind_eq_Some_conv split: if_split_asm)

lemma general_opt_exit: "general_opt k rez optarg w \<noteq> Some (Exit e, w')"
  by (auto simp: general_opt_def num_opt_exit bind_eq_Some_conv Let_def split_beta split: if_split_asm)

lemma filter_opt_exit: "filter_opt strtof k rez optarg w = Some (Exit e, w') \<Longrightarrow> e = - 1"
  by (auto simp: filter_opt_def num_opt_exit flags_opt_exit bind_eq_Some_conv Let_def split_beta
      split: if_split_asm option.split_asm)

lemma part_opt_exit: "part_opt k rez optarg w = Some (Exit e, w') \<Longrightarrow> e = - 1"
  by (auto simp: part_opt_def bind_eq_Some_conv Let_def split: if_split_asm option.split_asm)

lemma fake_opt_exit: "fake_opt k rez optarg w = Some (Exit e, w') \<Longrightarrow> e = - 1"
  by (auto simp: fake_opt_def num_opt_exit bind_eq_Some_conv Let_def split: if_split_asm option.split_asm list.split_asm)
     (metis neq_Nil_conv)

lemma packet_opt_exit: "packet_opt k rez optarg w = Some (Exit e, w') \<Longrightarrow> e = - 1"
  by (auto simp: packet_opt_def num_opt_exit flags_opt_exit bind_eq_Some_conv Let_def split: if_split_asm option.split_asm)

lemma parse_opt_exit: "parse_opt strtof k rez optarg w = Some (Exit e, w') \<Longrightarrow> e = - 1"
  unfolding parse_opt_def
  by (simp only: general_opt_exit split: if_split_asm)
     (blast dest: filter_opt_exit part_opt_exit fake_opt_exit packet_opt_exit)+

lemma opts_loop_exit: "opts_loop (parse_opt strtof k) opts w = Some (Exit e, w') \<Longrightarrow> e = - 1"
proof (induction opts arbitrary: w)
  case (Cons o' opts)
  obtain rez optarg where o': "o' = (rez, optarg)" by force
  obtain r w1 where r: "parse_opt strtof k rez optarg w = Some (r, w1)"
    using Cons.prems unfolding o' opts_loop.simps by (auto simp: bind_eq_Some_conv)
  then show ?case
    using Cons.prems Cons.IH[of w1] parse_opt_exit[of strtof k rez optarg w e w1]
    unfolding o' opts_loop.simps by (cases r) auto
qed simp

text \<open>
  C32. When \<open>parse_args\<close> accepts the options, what the rest of the program relies on holds: the
  buffer size, the connection limit, the delays and the TTLs are in range, the table of
  strategies is not empty and its counter right, the strategy cache is empty, and the last
  strategy has no filter on hosts, protocols or ports.
\<close>

theorem parse_args_accepts:
  assumes "parse_args strtof k opts w = Some (0, w')" and "prm w = default_params"
  shows "prm_ok (prm w') \<and> 1 \<le> def_ttl (prm w') \<and> mempool (prm w') = Some \<lparr>stat = False, root = Null\<rparr>
     \<and> hosts (last (dp (prm w'))) = None \<and> proto (last (dp (prm w'))) = 0 \<and> fst (pf (last (dp (prm w')))) = 0"
proof -
  obtain w1 w2 where w1: "add_dp k (upd_prm (\<lambda>p. p\<lparr>laddr := set_htons 1080 (laddr p)\<rparr>) w) = Some (True, w1)"
    and w2: "opts_loop (parse_opt strtof k) opts w1 = Some (Next, w2)" and fin: "finish_opts k w2 = Some (0, w')"
    using parse_args_next[OF assms(1)] opts_loop_exit by auto
  have "prm_ok (prm w1)"
    using w1 assms(2) by (intro default_dp_ok[where t = tls_data and h = http_data and u = udp_data]) (simp_all add: upd_prm_simp default_params_def)
  then show ?thesis
    using finish_opts_ok[OF fin] opts_loop_ok[OF w2] by blast
qed

text \<open>
  C33. When \<open>parse_args\<close> refuses the options it returns -1 and leaves the options as they were at
  the start of the program, with an empty table of strategies and no cache, so that the next
  attempt starts afresh. Only the fake packets may have changed.
\<close>

theorem parse_args_refuses:
  assumes "parse_args strtof k opts w = Some (r, w')" and "r \<noteq> 0"
  shows "r = - 1 \<and> (\<exists>t h u. prm w' = default_params\<lparr>fake_tls := t, fake_http := h, fake_udp := u\<rparr>)"
proof -
  have reset: "r = e \<and> (\<exists>t h u. prm w' = default_params\<lparr>fake_tls := t, fake_http := h, fake_udp := u\<rparr>)"
    if "reset_return e w1 = Some (r, w')" for e w1
    using that by (auto simp: reset_return_def reset_params_def bind_eq_Some_conv upd_prm_simp simp del: params.update_convs)
       blast
  obtain x where x: "opt_string (butlast options) 0 = Some x"
    using assms(1) by (auto simp: parse_args_def bind_eq_Some_conv)
  obtain ok w1 where w1: "add_dp k (upd_prm (\<lambda>p. p\<lparr>laddr := set_htons 1080 (laddr p)\<rparr>) w) = Some (ok, w1)"
    using assms(1) by (auto simp: parse_args_def bind_eq_Some_conv Let_def)
  note run = assms(1)[unfolded parse_args_def x bind.bind_lunit Let_def w1 prod.case]
  show ?thesis
  proof (cases ok)
    case False
    then show ?thesis using run reset by auto
  next
    case True
    then obtain o' w2 where w2: "opts_loop (parse_opt strtof k) opts w1 = Some (o', w2)"
      using run by (auto simp: bind_eq_Some_conv)
    show ?thesis
    proof (cases o')
      case Next
      then obtain r2 w3 where fin: "finish_opts k w2 = Some (r2, w3)"
        using run True w2 by (auto simp: bind_eq_Some_conv)
      then have "r2 = 0 \<or> r2 = - 1"
        by (auto simp: finish_opts_def bind_eq_Some_conv Let_def split_beta split: if_split_asm)
      then show ?thesis
        using run True w2 Next fin assms(2) reset by auto
    next
      case (Exit e)
      then show ?thesis
        using run True w2 reset[of e w2] opts_loop_exit[of strtof k opts w1 e w2] by auto
    next
      case Invalid
      then show ?thesis
        using run True w2 reset[of "- 1" w2] by auto
    qed
  qed
qed

text \<open>\<open>-p 1080 -s 2+s -K t\<close> is accepted; \<open>-p 99999\<close> is refused.\<close>

definition demo_opts :: "(char \<times> bytes option) list" where
  "demo_opts = [(CHR ''p'', Some (cstr ''1080'')), (CHR ''s'', Some (cstr ''2+s'')), (CHR ''K'', Some (cstr ''t''))]"

definition ttl_kernel :: kernel where
  "ttl_kernel h c = (case c of Getsockopt f o' \<Rightarrow> (ok_reply 0)\<lparr>vals := [64]\<rparr> | _ \<Rightarrow> plain_kernel h c)"

theorem parse_args_accepts_witness:
  "\<exists>w'. parse_args (\<lambda>_. None) ttl_kernel demo_opts (start_world default_params) = Some (0, w')
   \<and> prm_ok (prm w') \<and> 1 \<le> def_ttl (prm w') \<and> mempool (prm w') = Some \<lparr>stat = False, root = Null\<rparr>
   \<and> hosts (last (dp (prm w'))) = None \<and> proto (last (dp (prm w'))) = 0 \<and> fst (pf (last (dp (prm w')))) = 0"
proof -
  define w' where "w' = snd (the (parse_args (\<lambda>_. None) ttl_kernel demo_opts (start_world default_params)))"
  have "map_option fst (parse_args (\<lambda>_. None) ttl_kernel demo_opts (start_world default_params)) = Some 0"
    by code_simp
  then have run: "parse_args (\<lambda>_. None) ttl_kernel demo_opts (start_world default_params) = Some (0, w')"
    by (auto simp: w'_def)
  then show ?thesis
    using parse_args_accepts[OF run] by (simp add: start_world_def)
qed

theorem parse_args_refuses_witness:
  "\<exists>w'. parse_args (\<lambda>_. None) ttl_kernel [(CHR ''p'', Some (cstr ''99999''))] (start_world default_params) = Some (- 1, w')
   \<and> - 1 = (- 1 :: int) \<and> (\<exists>t h u. prm w' = default_params\<lparr>fake_tls := t, fake_http := h, fake_udp := u\<rparr>)"
proof -
  define w' where "w' = snd (the (parse_args (\<lambda>_. None) ttl_kernel [(CHR ''p'', Some (cstr ''99999''))] (start_world default_params)))"
  have "map_option fst (parse_args (\<lambda>_. None) ttl_kernel [(CHR ''p'', Some (cstr ''99999''))] (start_world default_params)) = Some (- 1)"
    by code_simp
  then have run: "parse_args (\<lambda>_. None) ttl_kernel [(CHR ''p'', Some (cstr ''99999''))] (start_world default_params) = Some (- 1, w')"
    by (auto simp: w'_def)
  then show ?thesis
    using parse_args_refuses[OF run] by simp
qed

section \<open>The port filter\<close>

text \<open>A port with its two bytes exchanged, which is what the machine reads in network order.\<close>

definition swapped :: "int \<Rightarrow> int" where
  "swapped n = n mod 256 * 256 + n div 256"

lemma check_port_swapped:
  assumes "0 \<le> lo" "lo < 65536" "0 \<le> hi" "hi < 65536" "0 \<le> n" "n < 65536" "sockaddr_ok a"
  shows "check_port (htons lo, htons hi) (set_htons n a) \<longleftrightarrow> swapped lo \<le> swapped n \<and> swapped n \<le> swapped hi"
proof -
  have h: "uint (htons m) = swapped m" if "0 \<le> m" "m < 65536" for m
  proof -
    have "m div 256 mod 256 = m div 256" "0 \<le> swapped m" "swapped m < 65536"
      using that by (simp_all add: swapped_def) (linarith+)?
    then show ?thesis
      unfolding htons_def uint_word_of_int by (simp add: swapped_def)
  qed
  have "n div 256 mod 256 = n div 256"
    using assms(5,6) by simp
  then have "sa_port_raw (set_htons n a) = swapped n"
    using assms(7) by (simp add: sa_port_raw_def set_htons_def set_port_def sockaddr_ok_def swapped_def uint_word_of_int)
  then show ?thesis
    using assms h by (simp add: check_port_def)
qed

text \<open>Two ports around a swapped comparison: only a range of one port is what it looks like.\<close>

lemma swapped_split:
  assumes "0 \<le> l" "l < 256" "0 \<le> h" "h < (256 :: int)"
  shows "swapped (256 * h + l) = 256 * l + h"
  using assms by (simp add: swapped_def)

lemma swapped_inj:
  assumes "0 \<le> m" "m < 65536" "0 \<le> n" "n < 65536" and "swapped m = swapped n"
  shows "m = n"
proof -
  have i: "swapped (swapped x) = x" if "0 \<le> x" "x < 65536" for x
  proof -
    have e: "swapped x = 256 * (x mod 256) + x div 256" by (simp add: swapped_def)
    have "swapped (swapped x) = 256 * (x div 256) + x mod 256"
      unfolding e by (rule swapped_split) (use that in simp_all)
    then show ?thesis by (simp only: mult_div_mod_eq)
  qed
  show ?thesis
    using i[OF assms(1,2)] i[OF assms(3,4)] unfolding assms(5) by (rule trans[OF sym])
qed

lemma swapped_range_wrong:
  assumes "0 < lo" "lo < hi" "hi < 65536"
  shows "\<exists>n. 0 \<le> n \<and> n < 65536 \<and> ((swapped lo \<le> swapped n \<and> swapped n \<le> swapped hi) \<noteq> (lo \<le> n \<and> n \<le> hi))"
proof -
  define ll lh hl hh where "ll = lo mod 256" and "lh = lo div 256" and "hl = hi mod 256" and "hh = hi div 256"
  have b: "0 \<le> ll" "ll < 256" "0 \<le> lh" "lh < 256" "0 \<le> hl" "hl < 256" "0 \<le> hh" "hh < 256"
    using assms by (simp_all add: ll_def lh_def hl_def hh_def) (linarith+)?
  have e: "lo = 256 * lh + ll" "hi = 256 * hh + hl"
    by (simp_all add: ll_def lh_def hl_def hh_def)
  have sl: "swapped lo = 256 * ll + lh" "swapped hi = 256 * hl + hh"
    unfolding e by (rule swapped_split; use b in simp)+
  have w: "\<exists>n. 0 \<le> n \<and> n < 65536 \<and> ((swapped lo \<le> swapped n \<and> swapped n \<le> swapped hi) \<noteq> (lo \<le> n \<and> n \<le> hi))"
    if "0 \<le> l" "l < 256" "0 \<le> h" "h < 256"
      "(256 * ll + lh \<le> 256 * l + h \<and> 256 * l + h \<le> 256 * hl + hh) \<noteq> (lo \<le> 256 * h + l \<and> 256 * h + l \<le> hi)" for l h
    using that swapped_split[of l h] unfolding sl by (intro exI[of _ "256 * h + l"]) auto
  consider "hl < ll" | "hl = ll" "ll < 255" | "hl = ll" "ll = 255" | "ll < hl" "0 < lh" | "ll < hl" "lh = 0" "0 < hh" | "ll < hl" "lh = 0" "hh = 0"
    using b by linarith
  then show ?thesis
  proof cases
    case 1
    then show ?thesis
      using w[of ll lh] b assms e by auto
  next
    case 2
    then show ?thesis
      using w[of "ll + 1" lh] b assms e by auto
  next
    case 3
    then show ?thesis
      using w[of 0 "lh + 1"] b assms e by auto
  next
    case 4
    then show ?thesis
      using w[of hl 0] b assms e by auto
  next
    case 5
    then show ?thesis
      using w[of 0 1] b assms e by auto
  next
    case 6
    then show ?thesis
      using w[of ll 255] b assms e by auto
  qed
qed

text \<open>
  C39. The port filter compares the bounds as \<open>htons\<close> stored them with the port of the address
  as it lies there, all read with the bytes exchanged: a port matches when its exchanged value lies
  between the exchanged bounds. So a range of the option is the range that was asked for only when
  it is a single port; every other one rejects a port inside it or accepts one outside.
\<close>

theorem check_port_byte_order:
  assumes "0 < lo" and "lo \<le> hi" and "hi < 65536" and "sockaddr_ok a"
  shows "(\<forall>n. 0 \<le> n \<and> n < 65536 \<longrightarrow>
        (check_port (htons lo, htons hi) (set_htons n a) \<longleftrightarrow> swapped lo \<le> swapped n \<and> swapped n \<le> swapped hi))
     \<and> ((\<forall>n. 0 \<le> n \<and> n < 65536 \<longrightarrow> (check_port (htons lo, htons hi) (set_htons n a) \<longleftrightarrow> lo \<le> n \<and> n \<le> hi)) \<longleftrightarrow> lo = hi)"
proof -
  define within where "within n \<longleftrightarrow> swapped lo \<le> swapped n \<and> swapped n \<le> swapped hi" for n
  have c: "check_port (htons lo, htons hi) (set_htons n a) \<longleftrightarrow> within n" if "0 \<le> n \<and> n < 65536" for n
    using check_port_swapped[of lo hi n a] assms that by (simp add: within_def)
  have w: "(\<forall>n. 0 \<le> n \<and> n < 65536 \<longrightarrow> (within n \<longleftrightarrow> lo \<le> n \<and> n \<le> hi)) \<longleftrightarrow> lo = hi"
  proof
    assume "\<forall>n. 0 \<le> n \<and> n < 65536 \<longrightarrow> (within n \<longleftrightarrow> lo \<le> n \<and> n \<le> hi)"
    then have "\<not> lo < hi"
      using swapped_range_wrong[OF assms(1) _ assms(3)] unfolding within_def by blast
    then show "lo = hi" using assms(2) by simp
  next
    assume eq: "lo = hi"
    have "within n \<longleftrightarrow> lo \<le> n \<and> n \<le> hi" if n: "0 \<le> n" "n < 65536" for n
    proof -
      have "within n \<longleftrightarrow> swapped n = swapped lo"
        unfolding within_def eq by auto
      then show ?thesis
        using swapped_inj[of n lo] n assms eq by auto
    qed
    then show "\<forall>n. 0 \<le> n \<and> n < 65536 \<longrightarrow> (within n \<longleftrightarrow> lo \<le> n \<and> n \<le> hi)" by blast
  qed
  have "(check_port (htons lo, htons hi) (set_htons n a) \<longleftrightarrow> lo \<le> n \<and> n \<le> hi) \<longleftrightarrow> (within n \<longleftrightarrow> lo \<le> n \<and> n \<le> hi)"
    if "0 \<le> n \<and> n < 65536" for n
    using c[OF that] by blast
  then show ?thesis
    using c w unfolding within_def by blast
qed

theorem check_port_byte_order_witness:
  "\<not> (\<forall>n. 0 \<le> n \<and> n < 65536 \<longrightarrow> (check_port (htons 80, htons 443) (set_htons n (replicate 28 0)) \<longleftrightarrow> 80 \<le> n \<and> n \<le> 443))
   \<and> \<not> check_port (htons 80, htons 443) (set_htons 256 (replicate 28 0))"
proof -
  have "sockaddr_ok (replicate 28 0)"
    by (simp add: sockaddr_ok_def)
  then have c: "(\<forall>n. 0 \<le> n \<and> n < 65536 \<longrightarrow> (check_port (htons 80, htons 443) (set_htons n (replicate 28 0))
        \<longleftrightarrow> swapped 80 \<le> swapped n \<and> swapped n \<le> swapped 443))
     \<and> ((\<forall>n. 0 \<le> n \<and> n < 65536 \<longrightarrow> (check_port (htons 80, htons 443) (set_htons n (replicate 28 0)) \<longleftrightarrow> 80 \<le> n \<and> n \<le> 443))
        \<longleftrightarrow> (80 :: int) = 443)"
    by (intro check_port_byte_order) simp_all
  from c[THEN conjunct1, THEN spec[of _ 256]] have "\<not> check_port (htons 80, htons 443) (set_htons 256 (replicate 28 0))"
    by (simp only: swapped_def) simp
  with c[THEN conjunct2] show ?thesis
    by (intro conjI notI) (simp_all only: numeral_eq_iff num.simps simp_thms)
qed

end
