(* ===== verification/Native.thy ===== *)
theory Native
  imports Options
begin

text \<open>
  The entry points the Android application calls through JNI (\<open>native-lib.c\<close>). Java strings and
  arrays arrive as the bytes \<open>GetStringUTFChars\<close> returns; the conversion itself and the log
  output are left out. A record holds the arguments of \<open>jniCreateSocket\<close>.
\<close>

unbundle bit_operations_syntax

definition DESYNC_METHODS :: "demode list" where
  "DESYNC_METHODS = [DESYNC_NONE, DESYNC_SPLIT, DESYNC_DISORDER, DESYNC_FAKE, DESYNC_OOB, DESYNC_DISOOB]"

abbreviation (input) HOSTS_BLACKLIST :: int where "HOSTS_BLACKLIST \<equiv> 1"
abbreviation (input) HOSTS_WHITELIST :: int where "HOSTS_WHITELIST \<equiv> 2"

definition jniCreateSocketWithCommandLine ::
  "(bytes \<Rightarrow> int option) \<Rightarrow> kernel \<Rightarrow> (char \<times> bytes option) list \<Rightarrow> world \<Rightarrow> (int \<times> world) option" where
  "jniCreateSocketWithCommandLine strtof k opts w = do {
     (res, w) \<leftarrow> parse_args strtof k opts w;
     if res < 0 then Some (- 1, w)
     else do {
       let (f, w) = listen_socket k (laddr (prm w)) w;
       Some (if f < 0 then - 1 else f, w)
     }
   }"

record ui_options =
  ui_ip :: bytes
  ui_port :: int
  ui_max_connections :: int
  ui_buffer_size :: int
  ui_default_ttl :: int
  ui_custom_ttl :: bool
  ui_no_domain :: bool
  ui_desync_http :: bool
  ui_desync_https :: bool
  ui_desync_udp :: bool
  ui_desync_method :: int
  ui_split_position :: int
  ui_split_at_host :: bool
  ui_fake_ttl :: int
  ui_fake_sni :: bytes
  ui_custom_oob_char :: byte
  ui_host_mixed_case :: bool
  ui_domain_mixed_case :: bool
  ui_host_remove_spaces :: bool
  ui_tls_record_split :: bool
  ui_tls_record_split_position :: int
  ui_tls_record_split_at_sni :: bool
  ui_hosts_mode :: int
  ui_hosts :: bytes
  ui_tfo :: bool
  ui_udp_fake_count :: int
  ui_drop_sack :: bool
  ui_fake_offset :: int

text \<open>
  A host list given as text. The file pointer is null when the text is empty, and
  \<open>parse_hosts\<close> then gets a null pointer and the size 0: it still makes an empty list.
\<close>

definition ui_host_list :: "kernel \<Rightarrow> bytes \<Rightarrow> world \<Rightarrow> (bool \<times> world) option" where
  "ui_host_list k str w = do {
     (f, w) \<leftarrow> data_from_str k str w;
     (h, b, w) \<leftarrow> parse_hosts k (case f of None \<Rightarrow> [] | Some b \<Rightarrow> b) w;
     let w = upd_dp (\<lambda>d. d\<lparr>file_ptr := map_option (\<lambda>_. b) f, hosts := h\<rparr>) w;
     Some (h \<noteq> None, w)
   }"

text \<open>The general settings, up to the default TTL; the result is whether it went well.\<close>

definition ui_general :: "kernel \<Rightarrow> ui_options \<Rightarrow> world \<Rightarrow> bool \<times> world" where
  "ui_general k u w =
     (let w = upd_prm (\<lambda>p. p\<lparr>max_open := ui_max_connections u, bfsize := ui_buffer_size u,
                resolve_f := \<not> ui_no_domain u, tfo := ui_tfo u\<rparr>) w;
          w = (if ui_custom_ttl u then upd_prm (\<lambda>p. p\<lparr>def_ttl := ui_default_ttl u, custom_ttl := True\<rparr>) w else w)
      in if def_ttl (prm w) = 0
         then let (t, w) = get_default_ttl k w in (1 \<le> t, upd_prm (\<lambda>p. p\<lparr>def_ttl := t\<rparr>) w)
         else (True, w))"

definition ui_proto :: "ui_options \<Rightarrow> int" where
  "ui_proto u = IS_HTTP * of_bool (ui_desync_http u) OR IS_HTTPS * of_bool (ui_desync_https u)
     OR IS_UDP * of_bool (ui_desync_udp u)"

definition ui_mod_http :: "ui_options \<Rightarrow> int" where
  "ui_mod_http u = MH_HMIX * of_bool (ui_host_mixed_case u) OR MH_DMIX * of_bool (ui_domain_mixed_case u)
     OR MH_SPACE * of_bool (ui_host_remove_spaces u)"

definition ui_offset_flag :: "ui_options \<Rightarrow> int" where
  "ui_offset_flag u = (if ui_proto u \<noteq> 0 \<or> ui_desync_https u then OFFSET_SNI else OFFSET_HOST)"

text \<open>
  The strategy itself. The result is 0, or 1 for a return after \<open>reset_params\<close> and 2 for a plain
  return of -1.
\<close>

definition ui_strategy :: "kernel \<Rightarrow> ui_options \<Rightarrow> world \<Rightarrow> (int \<times> world) option" where
  "ui_strategy k u w = do {
     let w = upd_dp (\<lambda>d. d\<lparr>ttl := ui_fake_ttl u, udp_fake_count := ui_udp_fake_count u,
               drop_sack := ui_drop_sack u, proto := ui_proto u, mod_http_f := ui_mod_http u\<rparr>) w;
     d \<leftarrow> cur_dp w;
     (ps, w) \<leftarrow> add k 16 zero_part (parts d) (int (length (parts d))) w;
     case ps of
       None \<Rightarrow> Some (1, w)
     | Some ps \<Rightarrow> do {
         c_assert (0 \<le> ui_desync_method u \<and> nat (ui_desync_method u) < length DESYNC_METHODS);
         let mode = DESYNC_METHODS ! nat (ui_desync_method u);
         let part = \<lparr>p_m = mode, p_flag = (if ui_split_at_host u then ui_offset_flag u else 0),
                     p_pos = ui_split_position u\<rparr>;
         let w = upd_dp (\<lambda>d. d\<lparr>parts := butlast ps @ [part]\<rparr>) w;
         (rs, w) \<leftarrow> (if ui_tls_record_split u then add k 16 zero_part (tlsrec d) (int (length (tlsrec d))) w
                     else Some (Some (tlsrec d), w));
         case rs of
           None \<Rightarrow> Some (1, w)
         | Some rs \<Rightarrow> do {
             let w = (if ui_tls_record_split u
                      then upd_dp (\<lambda>d. d\<lparr>tlsrec := butlast rs @ [zero_part\<lparr>
                             p_flag := (if ui_tls_record_split_at_sni u then ui_offset_flag u else 0),
                             p_pos := ui_tls_record_split_position u\<rparr>]\<rparr>) w
                      else w);
             let w = (if mode = DESYNC_FAKE then upd_dp (\<lambda>d. d\<lparr>fake_offset := ui_fake_offset u\<rparr>) w else w);
             (r, b) \<leftarrow> (if mode = DESYNC_FAKE
                         then change_tls_sni (ui_fake_sni u) (fake_tls (prm w)) (length (fake_tls (prm w)))
                         else Some (0, fake_tls (prm w)));
             let w = upd_prm (\<lambda>p. p\<lparr>fake_tls := b\<rparr>) w;
             if r \<noteq> 0 then Some (2, w)
             else Some (0, if mode = DESYNC_OOB
                           then upd_dp (\<lambda>d. d\<lparr>oob_char := (ui_custom_oob_char u, 1)\<rparr>) w else w)
           }
       }
   }"

text \<open>\<open>junk\<close> is the content of the address on the stack.\<close>

definition jniCreateSocket :: "kernel \<Rightarrow> bytes \<Rightarrow> ui_options \<Rightarrow> world \<Rightarrow> (int \<times> world) option" where
  "jniCreateSocket k junk u w = do {
     let (res, s, w) = get_addr k (ui_ip u) junk w;
     if res < 0 then Some (- 1, w)
     else do {
       let s = set_htons (ui_port u) s;
       let (ok, w) = ui_general k u w;
       if \<not> ok then reset_return (- 1) w
       else do {
         (ok, w) \<leftarrow> (if ui_hosts_mode u = HOSTS_WHITELIST then add_dp k w else Some (True, w));
         if \<not> ok then reset_return (- 1) w
         else do {
           (ok, w) \<leftarrow> (if ui_hosts_mode u = HOSTS_WHITELIST then ui_host_list k (ui_hosts u) w else Some (True, w));
           if \<not> ok then clear_return (- 1) w
           else do {
             (ok, w) \<leftarrow> add_dp k w;
             if \<not> ok then reset_return (- 1) w
             else do {
               (ok, w) \<leftarrow> (if ui_hosts_mode u = HOSTS_BLACKLIST then ui_host_list k (ui_hosts u) w else Some (True, w));
               if \<not> ok then clear_return (- 1) w
               else do {
                 (r, w) \<leftarrow> ui_strategy k u w;
                 if r = 1 then reset_return (- 1) w
                 else if r \<noteq> 0 then Some (- 1, w)
                 else do {
                   (ok, w) \<leftarrow> (if ui_proto u \<noteq> 0 then add_dp k w else Some (True, w));
                   if \<not> ok then clear_return (- 1) w
                   else do {
                     let (c, w) = sys k (Malloc 24) w;
                     let m = mem_pool (ret c \<noteq> 0) False;
                     let w = upd_prm (\<lambda>p. p\<lparr>mempool := m\<rparr>) w;
                     if m = None then clear_return (- 1) w
                     else do {
                       let (f, w) = listen_socket k s w;
                       Some (if f < 0 then - 1 else f, w)
                     }
                   }
                 }
               }
             }
           }
         }
       }
     }
   }"

text \<open>A failing event loop is reported by \<open>errno\<close>.\<close>

definition jniStartProxy :: "nat \<Rightarrow> kernel \<Rightarrow> eval list \<Rightarrow> bytes \<Rightarrow> int \<Rightarrow> world \<Rightarrow> (int \<times> world) option" where
  "jniStartProxy fuel k junk junk_buf f w = do {
     (r, w) \<leftarrow> event_loop fuel k junk junk_buf f (w\<lparr>not_exit := True\<rparr>);
     Some (if r < 0 then errno w else 0, w)
   }"

definition jniStopProxy :: "kernel \<Rightarrow> int \<Rightarrow> world \<Rightarrow> (int \<times> world) option" where
  "jniStopProxy k f w = do {
     let (res, w) = sys k (Shutdown f) w;
     w \<leftarrow> reset_params w;
     Some (if ret res < 0 then errno w else 0, w)
   }"

end
