(* ===== verification/Relay.thy ===== *)
theory Relay
  imports Proxy
begin

text \<open>
  What the tunnel handler does to the data: every byte read from one side is sent to the other,
  in order, or kept in the connection's buffer. The trace says what was read and sent.
\<close>

section \<open>Bytes read and sent\<close>

definition recv_event :: "int \<Rightarrow> call \<times> reply \<Rightarrow> bytes" where
  "recv_event f e = (case fst e of
     Recv g n \<Rightarrow> if g = f \<and> 0 < ret (snd e) then take (nat (ret (snd e))) (out (snd e)) else []
   | _ \<Rightarrow> [])"

definition send_event :: "int \<Rightarrow> call \<times> reply \<Rightarrow> bytes" where
  "send_event f e = (case fst e of
     Send g bs fl \<Rightarrow> if g = f \<and> 0 < ret (snd e) then take (nat (ret (snd e))) bs else []
   | _ \<Rightarrow> [])"

definition recv_bytes :: "int \<Rightarrow> trace \<Rightarrow> bytes" where
  "recv_bytes f h = concat (map (recv_event f) h)"

definition sent_bytes :: "int \<Rightarrow> trace \<Rightarrow> bytes" where
  "sent_bytes f h = concat (map (send_event f) h)"

text \<open>What a connection still has to send to its pair.\<close>

definition pending :: "eval \<Rightarrow> bytes" where
  "pending v = (case buff_data v of
     None \<Rightarrow> []
   | Some d \<Rightarrow> take (nat (buff_size v - buff_offset v)) (drop (nat (buff_offset v)) d))"

text \<open>
  What the kernel promises: a read returns as many bytes as it says and no more than asked for,
  a send takes no more than it is given.
\<close>

definition io_contract :: "kernel \<Rightarrow> bool" where
  "io_contract k \<longleftrightarrow>
     (\<forall>h f n. ret (k h (Recv f n)) \<le> n \<and> ret (k h (Recv f n)) \<le> int (length (out (k h (Recv f n)))))
     \<and> (\<forall>h f bs fl. ret (k h (Send f bs fl)) \<le> int (length bs))"

lemma bytes_append [simp]:
  "recv_bytes f (h @ es) = recv_bytes f h @ recv_bytes f es"
  "sent_bytes f (h @ es) = sent_bytes f h @ sent_bytes f es"
  "recv_bytes f [] = []" "sent_bytes f [] = []"
  "recv_bytes f [e] = recv_event f e" "sent_bytes f [e] = send_event f e"
  by (simp_all add: recv_bytes_def sent_bytes_def)

lemma quiet_events [simp]:
  "recv_event f (Epoll_mod g v t, r) = []" "send_event f (Epoll_mod g v t, r) = []"
  "recv_event f (Malloc n, r) = []" "send_event f (Malloc n, r) = []"
  "send_event f (Recv g n, r) = []" "recv_event f (Send g bs fl, r) = []"
  by (simp_all add: recv_event_def send_event_def)

text \<open>
  The balance of a connection with descriptor \<open>f\<close> whose pair has descriptor \<open>g\<close>: \<open>es\<close> is the
  part of the trace in between.
\<close>

definition balanced :: "int \<Rightarrow> int \<Rightarrow> nat \<Rightarrow> world \<Rightarrow> world \<Rightarrow> bool" where
  "balanced f g val w w' \<longleftrightarrow> (\<exists>es. hist w' = hist w @ es
     \<and> pending (items (pool w) ! val) @ recv_bytes f es = sent_bytes g es @ pending (items (pool w') ! val))"

lemma balanced_trans:
  assumes "balanced f g val w w'" and "balanced f g val w' w''"
  shows "balanced f g val w w''"
proof -
  obtain es fs where "hist w' = hist w @ es" "hist w'' = hist w' @ fs"
    "pending (items (pool w) ! val) @ recv_bytes f es = sent_bytes g es @ pending (items (pool w') ! val)"
    "pending (items (pool w') ! val) @ recv_bytes f fs = sent_bytes g fs @ pending (items (pool w'') ! val)"
    using assms by (auto simp: balanced_def)
  then show ?thesis
    unfolding balanced_def by (intro exI[of _ "es @ fs"]) (simp, metis append.assoc)
qed

lemma mod_etype_quiet:
  assumes "mod_etype k v t w = Some (r, w')"
  shows "\<exists>rp. hist w' = hist w @ [(Epoll_mod (fd (items (pool w) ! v)) v (POLLRDHUP OR t), rp)]
     \<and> pool w' = pool w \<and> prm w' = prm w \<and> buf w' = buf w"
  using assms by (auto simp: mod_etype_def get_ev_def sys_def Let_def bind_eq_Some_conv split: if_split_asm)

lemma mod_etype_pool: "mod_etype k v t w = Some (r, w') \<Longrightarrow> pool w' = pool w \<and> prm w' = prm w \<and> buf w' = buf w"
  using mod_etype_quiet by blast

section \<open>One read and one send\<close>

lemma recv_into_spec:
  assumes "recv_into k (Recv f n) 0 w = Some (r, w')" and "io_contract k"
  shows "hist w' = hist w @ [(Recv f n, r)] \<and> pool w' = pool w \<and> prm w' = prm w
     \<and> (0 < ret r \<longrightarrow> rdn (buf w') 0 (ret r) = Some (recv_event f (Recv f n, r)))
     \<and> (0 < ret r \<longrightarrow> length (recv_event f (Recv f n, r)) = nat (ret r))"
proof -
  have r: "r = k (hist w) (Recv f n)"
    using assms(1) by (auto simp: recv_into_def sys_def Let_def bind_eq_Some_conv split: if_split_asm)
  have len: "ret r \<le> int (length (out r))"
    using assms(2) unfolding io_contract_def r by blast
  then show ?thesis
    using assms(1)
    by (auto simp: recv_into_def sys_def Let_def bind_eq_Some_conv recv_event_def wrn_def rdn_def split: if_split_asm)
qed

lemma send_spec:
  assumes "sys k (Send g bs 0) w = (s, w')" and "io_contract k"
  shows "hist w' = hist w @ [(Send g bs 0, s)] \<and> pool w' = pool w \<and> prm w' = prm w \<and> buf w' = buf w
     \<and> ret s \<le> int (length bs) \<and> send_event g (Send g bs 0, s) = take (nat (max 0 (ret s))) bs"
proof -
  have s: "s = k (hist w) (Send g bs 0)"
    using sys_eqD(5)[OF assms(1)] .
  then have "ret s \<le> int (length bs)"
    using assms(2) unfolding io_contract_def by blast
  moreover have "buf w' = buf w"
    using assms(1) by (auto simp: sys_def Let_def)
  ultimately show ?thesis
    using sys_eqD[OF assms(1)] by (auto simp: send_event_def max_def)
qed

lemma set_ev_eq:
  "set_ev v f w = Some w' \<longleftrightarrow> v < length (items (pool w))
     \<and> w' = w\<lparr>pool := (pool w)\<lparr>items := (items (pool w))[v := f (items (pool w) ! v)]\<rparr>\<rparr>"
  by (auto simp: set_ev_def)

lemma get_ev_eq: "get_ev v w = Some e \<longleftrightarrow> v < length (items (pool w)) \<and> e = items (pool w) ! v"
  by (auto simp: get_ev_def)

lemma keep_unsent_spec:
  assumes run: "keep_unsent k val q n s w = Some (0, w')" and xs: "rdn (buf w) 0 n = Some xs" and s: "s \<le> n" "s \<noteq> n"
    and none: "buff_data (items (pool w) ! val) = None"
  shows "\<exists>es. hist w' = hist w @ es \<and> (\<forall>f. recv_bytes f es = [] \<and> sent_bytes f es = [])
     \<and> pending (items (pool w') ! val) = drop (nat (max 0 s)) xs"
proof -
  define sn where "sn = (if s < 0 then 0 else s)"
  define m where "m = sys k (Malloc (n - sn)) w"
  have le: "0 \<le> sn" "sn \<le> n"
    using s length_rdn[OF xs] by (auto simp: sn_def)
  have v: "val < length (items (pool w))" "buff_offset (items (pool w) ! val) = 0"
    using run by (auto simp: keep_unsent_def bind_eq_Some_conv get_ev_eq Let_def split: if_split_asm)
  have rest: "rdn (buf w) sn (n - sn) = Some (drop (nat sn) xs)" "buf (snd m) = buf w"
    using rdn_split(2)[of "buf w" 0 n xs sn] xs le by (simp_all add: m_def)
  define w2 where "w2 = (snd m)\<lparr>pool := (pool w)\<lparr>items := (items (pool w))[val := (items (pool w) ! val)
      \<lparr>buff_size := n - sn, buff_data := (if ret (fst m) = 0 then None else Some (drop (nat sn) xs))\<rparr>]\<rparr>\<rparr>"
  have set: "set_ev val (\<lambda>x. x\<lparr>buff_size := n - sn, buff_data := (if ret (fst m) = 0 then None else Some (drop (nat sn) xs))\<rparr>) (snd m)
      = Some w2"
    using v by (simp add: set_ev_eq w2_def m_def)
  have a: "ret (fst m) \<noteq> 0"
    using run v set rest by (auto simp: keep_unsent_def get_ev_eq bind_eq_Some_conv split_beta m_def sn_def Let_def split: if_split_asm)
  obtain e1 w3 w4 where w3: "mod_etype k val 0 w2 = Some (e1, w3)" "mod_etype k q POLLOUT w3 = Some (0, w4)" "w' = w4"
    using run v set rest a
    by (auto simp: keep_unsent_def get_ev_eq bind_eq_Some_conv split_beta m_def[symmetric] sn_def[symmetric] Let_def split: if_split_asm)
  obtain r1 r2 where h: "hist w' = hist w2 @ [(Epoll_mod (fd (items (pool w2) ! val)) val (POLLRDHUP OR 0), r1),
      (Epoll_mod (fd (items (pool w3) ! q)) q (POLLRDHUP OR POLLOUT), r2)]" and p: "pool w' = pool w2"
    using mod_etype_quiet[OF w3(1)] mod_etype_quiet[OF w3(2)] w3(3) by auto
  have "hist w2 = hist w @ [(Malloc (n - sn), fst m)]"
    by (simp add: w2_def m_def)
  then have "hist w' = hist w @ [(Malloc (n - sn), fst m), (Epoll_mod (fd (items (pool w2) ! val)) val (POLLRDHUP OR 0), r1),
      (Epoll_mod (fd (items (pool w3) ! q)) q (POLLRDHUP OR POLLOUT), r2)]"
    using h by simp
  moreover have "pending (items (pool w') ! val) = drop (nat sn) xs"
    using p v a length_rdn[OF xs] le by (simp add: w2_def pending_def)
  moreover have "sn = max 0 s"
    by (simp add: sn_def max_def)
  ultimately show ?thesis
    by (intro exI) (auto simp: recv_bytes_def sent_bytes_def)
qed


text \<open>One round of the copy loop: it balances, and when it goes on the buffer is empty again.\<close>

lemma tunnel_round:
  assumes run: "tunnel_loop (Suc fuel) k val q w = Some (0, w')" and k: "io_contract k"
    and v: "val < length (items (pool w))" "q < length (items (pool w))" "val \<noteq> q"
    and none: "buff_data (items (pool w) ! val) = None"
  defines "f \<equiv> fd (items (pool w) ! val)" and "g \<equiv> fd (items (pool w) ! q)"
  shows "balanced f g val w w'
    \<or> (\<exists>w1. tunnel_loop fuel k val q w1 = Some (0, w') \<and> balanced f g val w w1
        \<and> length (items (pool w1)) = length (items (pool w)) \<and> buff_data (items (pool w1) ! val) = None
        \<and> fd (items (pool w1) ! val) = f \<and> fd (items (pool w1) ! q) = g)"
proof -
  define V where "V = items (pool w) ! val"
  define Q where "Q = items (pool w) ! q"
  have ev: "get_ev val w = Some V" "get_ev q w = Some Q" and fd: "fd V = f" "fd Q = g"
    using v by (auto simp: get_ev_eq V_def Q_def f_def g_def)
  obtain r w1 where r: "recv_into k (Recv f (bfsize (prm w))) 0 w = Some (r, w1)"
    using run ev fd by (auto simp: bind_eq_Some_conv)
  note R = recv_into_spec[OF r k]
  note run1 = run[unfolded tunnel_loop.simps ev bind.bind_lunit fd r prod.case Let_def]
  have pv: "pending V = []"
    using none by (simp add: pending_def V_def)
  show ?thesis
  proof (cases "ret r < 1")
    case True
    then have "w' = w1" "recv_event f (Recv f (bfsize (prm w)), r) = []"
      using run1 by (auto simp: recv_event_def split: if_split_asm)
    then show ?thesis
      using R pv by (auto simp: balanced_def V_def)
  next
    case False
    define n where "n = ret r"
    define xs where "xs = recv_event f (Recv f (bfsize (prm w)), r)"
    have xs: "rdn (buf w1) 0 n = Some xs" "length xs = nat n" "\<not> n < 0" "\<not> n < 1"
      using R False by (auto simp: xs_def n_def)
    define w2 where "w2 = w1\<lparr>pool := (pool w1)\<lparr>items := (items (pool w1))[val := V\<lparr>recv_count := recv_count V + n\<rparr>]\<rparr>\<rparr>"
    have set1: "set_ev val (\<lambda>x. x\<lparr>recv_count := recv_count x + n\<rparr>) w1 = Some w2" and buf2: "buf w2 = buf w1"
      using v R by (simp_all add: set_ev_eq w2_def V_def)
    obtain s w3 where s: "sys k (Send g xs 0) w2 = (s, w3)" by force
    note S = send_spec[OF s k]
    have it3: "items (pool w3) = (items (pool w))[val := V\<lparr>recv_count := recv_count V + n\<rparr>]" "buf w3 = buf w1"
      using S R by (simp_all add: w2_def)
    have h3: "hist w3 = hist w @ [(Recv f (bfsize (prm w)), r), (Send g xs 0, s)]"
      using S R by (simp add: w2_def)
    have bytes: "recv_bytes f [(Recv f (bfsize (prm w)), r), (Send g xs 0, s)] = xs"
      "sent_bytes g [(Recv f (bfsize (prm w)), r), (Send g xs 0, s)] = take (nat (max 0 (ret s))) xs"
      using S by (simp_all add: recv_bytes_def sent_bytes_def xs_def)
    have run2: "(if ret s \<noteq> n then keep_unsent k val q n (ret s) w3
        else if n = bfsize (prm w3) then tunnel_loop fuel k val q w3 else Some (0, w3)) = Some (0, w')"
      using run1[folded n_def] by (simp only: xs(1,3,4) if_False simp_thms set1 buf2 bind.bind_lunit s prod.case)
    have none3: "buff_data (items (pool w3) ! val) = None" and p3: "pending (items (pool w3) ! val) = []"
      using it3 v none by (simp_all add: V_def pending_def)
    show ?thesis
    proof (cases "ret s = n")
      case False
      have "ret s \<le> n"
        using S xs(2,3) by simp
      then obtain es where es: "hist w' = hist w3 @ es" "\<forall>f. recv_bytes f es = [] \<and> sent_bytes f es = []"
        "pending (items (pool w') ! val) = drop (nat (max 0 (ret s))) xs"
        using keep_unsent_spec[of k val q n "ret s" w3 w' xs] run2 False xs(1) it3 none3 by auto
      define e2 where "e2 = [(Recv f (bfsize (prm w)), r), (Send g xs 0, s)]"
      have "hist w' = hist w @ (e2 @ es)" "recv_bytes f (e2 @ es) = xs"
        "sent_bytes g (e2 @ es) = take (nat (max 0 (ret s))) xs"
        using h3 es bytes by (simp_all add: e2_def[symmetric])
      then have "balanced f g val w w'"
        unfolding balanced_def using pv es(3) by (intro exI[of _ "e2 @ es"]) (simp add: V_def[symmetric])
      then show ?thesis ..
    next
      case True
      have bal: "balanced f g val w w3"
        unfolding balanced_def
        by (intro exI[of _ "[(Recv f (bfsize (prm w)), r), (Send g xs 0, s)]"])
           (use h3 bytes p3 pv True xs in \<open>simp add: V_def\<close>)
      show ?thesis
      proof (cases "n = bfsize (prm w3)")
        case True
        then have "tunnel_loop fuel k val q w3 = Some (0, w')"
          using run2 \<open>ret s = n\<close> by simp
        moreover have "fd (items (pool w3) ! val) = f" "fd (items (pool w3) ! q) = g"
          using it3 v fd by (simp_all add: Q_def)
        ultimately show ?thesis
          using bal none3 it3 by auto
      next
        case False
        then have "w' = w3"
          using run2 \<open>ret s = n\<close> by simp
        then show ?thesis
          using bal by blast
      qed
    qed
  qed
qed

lemma tunnel_loop_balanced:
  assumes "tunnel_loop fuel k val q w = Some (0, w')" and "io_contract k"
    and "val < length (items (pool w))" and "q < length (items (pool w))" and "val \<noteq> q"
    and "buff_data (items (pool w) ! val) = None"
  shows "balanced (fd (items (pool w) ! val)) (fd (items (pool w) ! q)) val w w'"
  using assms
proof (induction fuel arbitrary: w)
  case (Suc fuel)
  from tunnel_round[OF Suc.prems] show ?case
  proof
    assume "\<exists>w1. tunnel_loop fuel k val q w1 = Some (0, w')
        \<and> balanced (fd (items (pool w) ! val)) (fd (items (pool w) ! q)) val w w1
        \<and> length (items (pool w1)) = length (items (pool w)) \<and> buff_data (items (pool w1) ! val) = None
        \<and> fd (items (pool w1) ! val) = fd (items (pool w) ! val) \<and> fd (items (pool w1) ! q) = fd (items (pool w) ! q)"
    then obtain w1 where w1: "tunnel_loop fuel k val q w1 = Some (0, w')"
      "balanced (fd (items (pool w) ! val)) (fd (items (pool w) ! q)) val w w1"
      "length (items (pool w1)) = length (items (pool w))" "buff_data (items (pool w1) ! val) = None"
      "fd (items (pool w1) ! val) = fd (items (pool w) ! val)" "fd (items (pool w1) ! q) = fd (items (pool w) ! q)"
      by blast
    then show ?thesis
      using Suc.IH[of w1] Suc.prems balanced_trans by auto
  qed
qed simp

lemma flush_pending_balanced:
  assumes run: "flush_pending k val q ev w = Some (res, w')" and k: "io_contract k" and ok: "res \<noteq> Inl (- 1)"
    and v: "val < length (items (pool w))" "q < length (items (pool w))" "val \<noteq> q"
  defines "f \<equiv> fd (items (pool w) ! val)" and "g \<equiv> fd (items (pool w) ! q)"
  shows "balanced f g val w w'
    \<and> (res = Inr () \<longrightarrow> length (items (pool w')) = length (items (pool w)) \<and> buff_data (items (pool w') ! val) = None
        \<and> fd (items (pool w') ! val) = f \<and> fd (items (pool w') ! q) = g)"
proof (cases "buff_data (items (pool w) ! val)")
  case None
  then show ?thesis
    using run v by (auto simp: flush_pending_def get_ev_eq balanced_def f_def g_def get_ev_def)
next
  case (Some d)
  define V where "V = items (pool w) ! val"
  define n where "n = buff_size V - buff_offset V"
  have ev: "get_ev val w = Some V" "get_ev q w = Some (items (pool w) ! q)" "buff_data V = Some d"
    using v Some by (auto simp: get_ev_eq V_def)
  have hup: "\<not> bit_test ev POLLHUP"
    using run ok ev by (auto simp: flush_pending_def split: if_split_asm)
  obtain bs where bs: "rdn d (buff_offset V) n = Some bs"
    using run ev hup by (auto simp: flush_pending_def bind_eq_Some_conv n_def Let_def)
  have pend: "pending V = bs" "0 \<le> buff_offset V" "0 \<le> n" "length bs = nat n"
    "buff_offset V + n \<le> int (length d)"
    using bs ev(3) by (auto simp: pending_def rdn_def n_def split: if_split_asm)
  obtain s w1 where s: "sys k (Send g bs 0) w = (s, w1)" by force
  note S = send_spec[OF s k]
  note run1 = run[unfolded flush_pending_def ev bind.bind_lunit option.case hup if_False Let_def n_def[symmetric]
      bs g_def[symmetric] s prod.case]
  show ?thesis
  proof (cases "ret s = n")
    case False
    define c where "c = (if 0 < ret s then ret s else 0)"
    have res: "res = Inl 0"
      and w': "w' = (if 0 < ret s then w1\<lparr>pool := (pool w1)\<lparr>items := (items (pool w1))[val := V\<lparr>buff_offset := buff_offset V + ret s\<rparr>]\<rparr>\<rparr> else w1)"
      using run1 False ok v S by (auto simp: set_ev_eq V_def bind_eq_Some_conv split: if_split_asm)
    have "pending (V\<lparr>buff_offset := buff_offset V + c\<rparr>) = drop (nat c) bs" if "0 \<le> c" "c \<le> n"
    proof -
      have "nat (buff_size V - (buff_offset V + c)) = nat n - nat c"
        using that by (simp add: n_def)
      moreover have "nat (buff_offset V + c) = nat (buff_offset V) + nat c"
        using that pend by simp
      moreover have "bs = take (nat n) (drop (nat (buff_offset V)) d)"
        using bs by (auto simp: rdn_def split: if_split_asm)
      ultimately show ?thesis
        using ev(3) by (simp add: pending_def drop_take add.commute)
    qed
    moreover have "c \<le> n" "0 \<le> c" "take (nat (max 0 (ret s))) bs = take (nat c) bs"
      using S pend by (auto simp: c_def max_def)
    moreover have "pending (items (pool w') ! val) = pending (V\<lparr>buff_offset := buff_offset V + c\<rparr>)"
      using w' S v by (auto simp: c_def V_def)
    moreover have "hist w' = hist w @ [(Send g bs 0, s)]"
      using w' S by simp
    ultimately have "balanced f g val w w'"
      unfolding balanced_def using S pend(1) by (intro exI[of _ "[(Send g bs 0, s)]"]) (simp add: V_def[symmetric])
    then show ?thesis using res by simp
  next
    case True
    define w2 where "w2 = w1\<lparr>pool := (pool w1)\<lparr>items := (items (pool w1))[val := V\<lparr>buff_data := None, buff_size := 0, buff_offset := 0\<rparr>]\<rparr>\<rparr>"
    have set2: "set_ev val (\<lambda>x. x\<lparr>buff_data := None, buff_size := 0, buff_offset := 0\<rparr>) w1 = Some w2"
      using v S by (simp add: set_ev_eq w2_def V_def)
    obtain w3 e2 where w3: "mod_etype k val POLLIN w2 = Some (0, w3)" "mod_etype k q POLLIN w3 = Some (e2, w')"
      using run1 True ok set2 by (auto simp: bind_eq_Some_conv split: if_split_asm)
    obtain r1 r2 where h: "hist w' = hist w2 @ [(Epoll_mod (fd (items (pool w2) ! val)) val (POLLRDHUP OR POLLIN), r1),
      (Epoll_mod (fd (items (pool w3) ! q)) q (POLLRDHUP OR POLLIN), r2)]" and p: "pool w' = pool w2"
      using mod_etype_quiet[OF w3(1)] mod_etype_quiet[OF w3(2)] by auto
    define es where "es = [(Send g bs 0, s), (Epoll_mod (fd (items (pool w2) ! val)) val (POLLRDHUP OR POLLIN), r1),
      (Epoll_mod (fd (items (pool w3) ! q)) q (POLLRDHUP OR POLLIN), r2)]"
    have "hist w' = hist w @ es" "recv_bytes f es = []" "sent_bytes g es = bs"
      using h S pend True by (simp_all add: w2_def es_def recv_bytes_def sent_bytes_def)
    moreover have "pending (items (pool w') ! val) = []"
      using p S v by (simp add: w2_def pending_def)
    ultimately have "balanced f g val w w'"
      unfolding balanced_def using pend(1) by (intro exI[of _ es]) (simp add: V_def[symmetric])
    then show ?thesis
      using p S v by (simp add: w2_def f_def g_def V_def)
  qed
qed

text \<open>
  C3. The tunnel relays without loss: when \<open>on_tunnel\<close> returns 0, what the sending side had
  pending followed by what was read from it is exactly what was sent to the other side followed
  by what is pending now, in order, for any pattern of short and refused sends. The event may
  come from either side of the pair.
\<close>

theorem on_tunnel_relays:
  assumes "on_tunnel fuel k val0 ev w = Some (0, w')" and "io_contract k"
    and "val0 < length (items (pool w))" and "p0 < length (items (pool w))" and "val0 \<noteq> p0"
    and "pair (items (pool w) ! val0) = Some p0" and "pair (items (pool w) ! p0) = Some val0"
    and "(val, q) = (if bit_test ev POLLOUT then (p0, val0) else (val0, p0))"
  shows "balanced (fd (items (pool w) ! val)) (fd (items (pool w) ! q)) val w w'"
proof -
  have q: "val < length (items (pool w))" "q < length (items (pool w))" "val \<noteq> q"
    using assms(3-5,8) by (auto split: if_split_asm)
  have ev: "get_ev val0 w = Some (items (pool w) ! val0)" "get_ev p0 w = Some (items (pool w) ! p0)"
    using assms(3,4) by (auto simp: get_ev_eq)
  have run: "do {
      (f, w) \<leftarrow> flush_pending k val q ev w;
      case f of Inl r \<Rightarrow> Some (r, w) | Inr _ \<Rightarrow> tunnel_loop fuel k val q w
    } = Some (0, w')"
    using assms(1,6-8) ev by (auto simp: on_tunnel_def split: if_split_asm)
  obtain res w1 where res: "flush_pending k val q ev w = Some (res, w1)"
    using run by (auto simp: bind_eq_Some_conv)
  have ok: "res \<noteq> Inl (- 1)"
    using run res by auto
  note flush = flush_pending_balanced[OF res assms(2) ok q]
  show ?thesis
  proof (cases res)
    case (Inl r)
    then show ?thesis
      using run res flush by simp
  next
    case (Inr u)
    then have t: "tunnel_loop fuel k val q w1 = Some (0, w')"
      using run res by simp
    show ?thesis
      using tunnel_loop_balanced[OF t assms(2)] flush Inr q balanced_trans by auto
  qed
qed

text \<open>A peer that sends three bytes, and a pair that takes two of them.\<close>

fun slow_kernel :: kernel where
  "slow_kernel h (Recv f n) = (if 0 < n then (if h = [] then (ok_reply (min 3 n))\<lparr>out := [1, 2, 3]\<rparr> else fail_reply EAGAIN) else ok_reply n)"
| "slow_kernel h (Send f bs fl) = ok_reply (min 2 (int (length bs)))"
| "slow_kernel h (Malloc n) = ok_reply 1"
| "slow_kernel h c = ok_reply 0"

definition slow_world :: world where
  "slow_world = demo_world\<lparr>prm := default_params\<lparr>bfsize := 4\<rparr>, buf := replicate 4 0\<rparr>"

theorem on_tunnel_relays_witness:
  "\<exists>w'. on_tunnel 5 slow_kernel 1 POLLIN slow_world = Some (0, w')
   \<and> balanced (fd (items (pool slow_world) ! 1)) (fd (items (pool slow_world) ! 2)) 1 slow_world w'"
proof -
  define w' where "w' = snd (the (on_tunnel 5 slow_kernel 1 POLLIN slow_world))"
  have "map_option fst (on_tunnel 5 slow_kernel 1 POLLIN slow_world) = Some 0"
    by code_simp
  then have run: "on_tunnel 5 slow_kernel 1 POLLIN slow_world = Some (0, w')"
    by (auto simp: w'_def)
  have k: "io_contract slow_kernel"
    by (simp add: io_contract_def ok_reply_def fail_reply_def)
  have "balanced (fd (items (pool slow_world) ! 1)) (fd (items (pool slow_world) ! 2)) 1 slow_world w'"
    by (rule on_tunnel_relays[of 5 slow_kernel 1 POLLIN slow_world w' 2 1 2, OF run k])
       (simp_all add: slow_world_def demo_world_def demo_pool_def bit_test_def)
  then show ?thesis
    using run by auto
qed

end
