(* ===== verification/Calm.thy ===== *)
theory Calm
  imports Proxy
begin

text \<open>
  Which functions leave the connection table alone. \<open>ensures m P\<close> says that every result of
  \<open>m\<close> satisfies \<open>P\<close>; its rules take a function apart along its binds, tests and case
  distinctions. The locale \<open>calm_inv\<close> states what a property of the world needs to survive
  the functions that only make calls: it depends on the table and on what is registered with
  epoll. Its lemmas go through the functions of the packet engine, the protocol and the
  strategy cache once, for every such property.
\<close>

section \<open>Results of partial functions\<close>

definition ensures :: "'a option \<Rightarrow> ('a \<Rightarrow> bool) \<Rightarrow> bool" where
  "ensures m P \<longleftrightarrow> (\<forall>x. m = Some x \<longrightarrow> P x)"

named_theorems vc

lemma ensuresD: "ensures m P \<Longrightarrow> m = Some x \<Longrightarrow> P x"
  by (simp add: ensures_def)

lemma ensures_Some [vc]: "P x \<Longrightarrow> ensures (Some x) P"
  by (simp add: ensures_def)

lemma ensures_None [vc]: "ensures None P"
  by (simp add: ensures_def)

lemma ensures_assert [vc]: "(b \<Longrightarrow> P ()) \<Longrightarrow> ensures (c_assert b) P"
  by (simp add: ensures_def c_assert_def split: if_split_asm)

lemma ensures_bind [vc]: "ensures m (\<lambda>x. ensures (f x) P) \<Longrightarrow> ensures (m \<bind> f) P"
  by (auto simp: ensures_def bind_eq_Some_conv)

lemma ensures_if [vc]: "(c \<Longrightarrow> ensures a P) \<Longrightarrow> (\<not> c \<Longrightarrow> ensures b P) \<Longrightarrow> ensures (if c then a else b) P"
  by simp

lemma ensures_Let [vc]: "ensures (f x) P \<Longrightarrow> ensures (Let x f) P"
  by simp

lemma ensures_Pair [vc]: "ensures (f a b) P \<Longrightarrow> ensures (case (a, b) of (a, b) \<Rightarrow> f a b) P"
  by simp

lemma ensures_option [vc]:
  "(x = None \<Longrightarrow> ensures a P) \<Longrightarrow> (\<And>y. x = Some y \<Longrightarrow> ensures (f y) P)
   \<Longrightarrow> ensures (case x of None \<Rightarrow> a | Some y \<Rightarrow> f y) P"
  by (cases x) auto

lemma ensures_sum [vc]:
  "(\<And>y. x = Inl y \<Longrightarrow> ensures (f y) P) \<Longrightarrow> (\<And>y. x = Inr y \<Longrightarrow> ensures (g y) P)
   \<Longrightarrow> ensures (case x of Inl y \<Rightarrow> f y | Inr y \<Rightarrow> g y) P"
  by (cases x) auto

text \<open>For results nothing needs to be known about; tried after the other rules.\<close>

lemma ensures_any: "(\<And>x. m = Some x \<Longrightarrow> P x) \<Longrightarrow> ensures m P"
  by (simp add: ensures_def)

lemmas ensures_pure [vc] =
  ensures_any[of "rdn b i n" for b i n] ensures_any[of "rd b i" for b i] ensures_any[of "wrn b i xs" for b i xs]
  ensures_any[of "wr b i x" for b i x] ensures_any[of "get_ev v w" for v w] ensures_any[of "pair e" for e]
  ensures_any[of "pair_of v w" for v w] ensures_any[of "classify b n" for b n]
  ensures_any[of "modify_packet d ty host b bfsz n" for d ty host b bfsz n]
  ensures_any[of "fake_udp_packet pr d" for pr d] ensures_any[of "mempool pr" for pr]
  ensures_any[of "mem_add a b h x" for a b h x] ensures_any[of "mem_delete h x" for h x]
  ensures_any[of "buff_data e" for e] ensures_any[of "find_nul b i" for b i]
  ensures_any[of "s5_set_addr b i n a e" for b i n a e]

lemma ensures_prod: "(\<And>a b. x = (a, b) \<Longrightarrow> ensures (f a b) P) \<Longrightarrow> ensures (case x of (a, b) \<Rightarrow> f a b) P"
  by (cases x) auto

lemma ensures_mono: "ensures m Q \<Longrightarrow> (\<And>x. Q x \<Longrightarrow> P x) \<Longrightarrow> ensures m P"
  by (simp add: ensures_def)

section \<open>Functions that only make calls\<close>

locale calm_inv =
  fixes I :: "world \<Rightarrow> bool"
  assumes same: "I w \<Longrightarrow> pool w' = pool w \<Longrightarrow> hist w' = hist w \<Longrightarrow> I w'"
    and step: "I w \<Longrightarrow> calm c \<Longrightarrow> pool w' = pool w \<Longrightarrow> hist w' = hist w @ [(c, r)] \<Longrightarrow> I w'"
begin

lemma I_sys [intro]: "I w \<Longrightarrow> calm c \<Longrightarrow> I (snd (sys k c w))"
  by (rule step[where c = c]) simp_all

lemma I_prm [intro]: "I w \<Longrightarrow> I (w\<lparr>prm := p\<rparr>)"
  by (rule same) simp_all

lemma I_buf [intro]: "I w \<Longrightarrow> I (w\<lparr>buf := b\<rparr>)"
  by (rule same) simp_all

lemma I_not_exit [intro]: "I w \<Longrightarrow> I (w\<lparr>not_exit := b\<rparr>)"
  by (rule same) simp_all

lemma I_map_write [intro]: "I w \<Longrightarrow> I (map_write f bs w)"
  by (rule step[where c = "Map_write f bs"]) (simp_all add: map_write_def calm_def)

lemma I_if [intro]: "(c \<Longrightarrow> I w) \<Longrightarrow> (\<not> c \<Longrightarrow> I w') \<Longrightarrow> I (if c then w else w')"
  by simp

lemma I_snd_if [intro]: "(c \<Longrightarrow> I (snd x)) \<Longrightarrow> (\<not> c \<Longrightarrow> I (snd y)) \<Longrightarrow> I (snd (if c then x else y))"
  by simp

lemma I_snd_case: "I (snd x) \<Longrightarrow> (\<And>r w. I w \<Longrightarrow> I (snd (f r w))) \<Longrightarrow> I (snd (case x of (r, w) \<Rightarrow> f r w))"
  by (cases x) simp

lemma sys_vc [vc]:
  "I w \<Longrightarrow> calm c \<Longrightarrow> (\<And>r w'. I w' \<Longrightarrow> ensures (f r w') P) \<Longrightarrow> ensures (case sys k c w of (r, w') \<Rightarrow> f r w') P"
  using I_sys[of w c k] by (cases "sys k c w") simp

text \<open>A pair of a result and a world that keeps \<open>I\<close>.\<close>

lemma pair_vc:
  "I (snd x) \<Longrightarrow> (\<And>r w'. I w' \<Longrightarrow> ensures (f r w') P) \<Longrightarrow> ensures (case x of (r, w') \<Rightarrow> f r w') P"
  by (cases x) simp

lemma recv_into_vc [vc]:
  assumes "I w" and "calm c" and P: "\<And>r w'. I w' \<Longrightarrow> P (r, w')"
  shows "ensures (recv_into k c at w) P"
  unfolding recv_into_def using assms(1,2)
  by (intro vc P ensures_any I_buf) simp_all

lemma I_setttl [intro]: "I w \<Longrightarrow> I (snd (setttl k f t fa w))"
  by (auto simp: setttl_def Let_def split_beta calm_def)

lemma I_drop_sack_fd [intro]: "I w \<Longrightarrow> I (snd (drop_sack_fd k f w))"
  by (auto simp: drop_sack_fd_def Let_def split_beta calm_def)

lemma I_delay [intro]: "I w \<Longrightarrow> I (delay k ms w)"
  by (auto simp: delay_def calm_def)

lemma I_wait_send_loop [intro]: "I w \<Longrightarrow> I (snd (wait_send_loop n k sfd w))"
proof (induction n arbitrary: w)
  case (Suc n)
  then show ?case
    by (simp add: Let_def split_beta calm_def I_sys I_prm I_delay split: list.split)
qed simp

lemma I_wait_send [intro]: "I w \<Longrightarrow> I (wait_send k sfd w)"
  using I_wait_send_loop[of w 500 k sfd] by (auto simp: wait_send_def Let_def split_beta)

lemma I_wait_send_if_support [intro]: "I w \<Longrightarrow> I (wait_send_if_support k sfd w)"
  by (auto simp: wait_send_if_support_def)

lemma I_opt_sockopt [intro]: "I w \<Longrightarrow> I (snd (opt_sockopt k c f o' v w))"
  by (auto simp: opt_sockopt_def Let_def split_beta calm_def)

lemma I_nb_socket [intro]: "I w \<Longrightarrow> I (snd (nb_socket k d ty w))"
  by (auto simp: nb_socket_def Let_def split_beta calm_def intro!: I_sys)

lemma I_resp_s5_error [intro]: "I w \<Longrightarrow> I (snd (resp_s5_error k f e w))"
  by (auto simp: resp_s5_error_def Let_def split_beta calm_def)

lemma I_resp_error [intro]: "I w \<Longrightarrow> I (snd (resp_error k f e fl w))"
  by (auto simp: resp_error_def Let_def split_beta calm_def)

lemma I_set_timeout [intro]: "I w \<Longrightarrow> I (snd (set_timeout k f s w))"
  by (auto simp: set_timeout_def Let_def split_beta calm_def)

lemma I_send_fake_body: "I w \<Longrightarrow> I (snd (snd (send_fake_body k sfd ffd pkt real pos fa opt w)))"
  by (simp add: send_fake_body_def Let_def split_beta calm_def I_sys I_map_write I_setttl I_opt_sockopt I_wait_send)

lemma send_fake_vc [vc]:
  assumes "I w" and P: "\<And>r w'. I w' \<Longrightarrow> P (r, w')"
  shows "ensures (send_fake k sfd buffer lp cnt pos fa opt w) P"
  unfolding send_fake_def using assms(1)
  by (auto simp: ensures_def bind_eq_Some_conv split_beta Let_def calm_def
      intro!: P I_sys I_send_fake_body split: if_split_asm)

lemma send_oob_vc [vc]:
  assumes "I w" and P: "\<And>r w'. I w' \<Longrightarrow> P (r, w')"
  shows "ensures (send_oob k sfd buffer lp pos c w) P"
  unfolding send_oob_def using assms(1)
  by (auto simp: ensures_def bind_eq_Some_conv split_beta Let_def calm_def
      intro!: P I_sys I_wait_send_if_support split: if_split_asm)

lemma send_disorder_vc [vc]:
  assumes "I w" and P: "\<And>r w'. I w' \<Longrightarrow> P (r, w')"
  shows "ensures (send_disorder k sfd buffer lp pos fa w) P"
  unfolding send_disorder_def using assms(1)
  by (auto simp: ensures_def bind_eq_Some_conv split_beta Let_def calm_def
      intro!: P I_sys I_wait_send_if_support I_setttl I_if split: if_split_asm)

lemma send_late_oob_vc [vc]:
  assumes "I w" and P: "\<And>r w'. I w' \<Longrightarrow> P (r, w')"
  shows "ensures (send_late_oob k sfd buffer lp pos fa c w) P"
  unfolding send_late_oob_def using assms(1)
  by (intro vc P I_setttl pair_vc) simp_all

lemma send_part_vc [vc]:
  assumes "I w" and P: "\<And>r w'. I w' \<Longrightarrow> P (r, w')"
  shows "ensures (send_part k sfd buffer lp ty len fa m d w) P"
proof -
  have "ensures (do { bs \<leftarrow> rdn buffer lp len; let (r, w) = sys k (Send sfd bs 0) w;
                      Some (ret r, wait_send_if_support k sfd w) }) P"
    using assms(1) by (auto simp: ensures_def bind_eq_Some_conv split_beta Let_def calm_def
        intro!: P I_sys I_wait_send_if_support)
  then show ?thesis
    unfolding send_part_def using assms by (cases m) (auto intro!: vc)
qed

lemma parts_loop_vc [vc]:
  assumes "I w" and P: "\<And>r w'. I w' \<Longrightarrow> P (r, w')"
  shows "ensures (parts_loop ps k sfd buffer n offset lp ty host fa d w) P"
  using assms(1)
proof (induction ps arbitrary: lp w)
  case Nil
  then show ?case by (auto intro: ensures_Some P)
next
  case (Cons p ps)
  show ?case
    unfolding parts_loop.simps using Cons.prems by (intro vc P Cons.IH) assumption+
qed

lemma send_rest_vc [vc]:
  assumes "I w" and P: "\<And>r w'. I w' \<Longrightarrow> P (r, w')"
  shows "ensures (send_rest k sfd buffer n lp w) P"
  unfolding send_rest_def using assms(1)
  by (auto simp: ensures_def bind_eq_Some_conv split_beta Let_def calm_def
      intro!: P I_sys  split: if_split_asm option.split_asm)

lemma post_desync_vc [vc]:
  assumes "I w" and P: "\<And>r w'. I w' \<Longrightarrow> P (r, w')"
  shows "ensures (post_desync k sfd m w) P"
  unfolding post_desync_def using assms(1)
  by (auto simp: ensures_def bind_eq_Some_conv split_beta Let_def calm_def
      intro!: P I_sys  split: if_split_asm option.split_asm)

lemma desync_vc [vc]:
  assumes "I w" and P: "\<And>r b w'. I w' \<Longrightarrow> P (r, b, w')"
  shows "ensures (desync k sfd buffer bfsz n offset dst dp_c w) P"
  unfolding desync_def using assms(1)
  by (intro vc P pair_vc I_snd_if I_drop_sack_fd ensures_prod) simp_all

lemma I_udp_fakes [intro]: "I w \<Longrightarrow> I (snd (udp_fakes n k sfd pkt dst w))"
  by (induction n arbitrary: w) (simp_all add: split_beta Let_def calm_def I_sys)

lemma desync_udp_vc [vc]:
  assumes "I w" and P: "\<And>r w'. I w' \<Longrightarrow> P (r, w')"
  shows "ensures (desync_udp k sfd buffer start n dst m w) P"
  unfolding desync_udp_def using assms(1)
  by (intro vc P pair_vc I_snd_if I_udp_fakes I_setttl) (simp_all add: calm_def)

lemma resolve_vc [vc]:
  assumes "I w" and P: "\<And>r b w'. I w' \<Longrightarrow> P (r, b, w')"
  shows "ensures (resolve k buffer host len addr ty w) P"
  unfolding resolve_def using assms(1)
  by (auto simp: ensures_def bind_eq_Some_conv split_beta Let_def calm_def
      intro!: P I_sys  split: if_split_asm option.split_asm)

lemma auth_socks5_vc [vc]:
  assumes "I w" and P: "\<And>r b w'. I w' \<Longrightarrow> P (r, b, w')"
  shows "ensures (auth_socks5 k f buffer n w) P"
  unfolding auth_socks5_def using assms(1)
  by (auto simp: ensures_def bind_eq_Some_conv split_beta Let_def calm_def
      intro!: P I_sys  split: if_split_asm option.split_asm)

lemma s4_get_addr_vc [vc]:
  assumes "I w" and P: "\<And>r b w'. I w' \<Longrightarrow> P (r, b, w')"
  shows "ensures (s4_get_addr k buff n dst w) P"
  unfolding s4_get_addr_def using assms(1)
  by (intro vc P pair_vc I_snd_if ensures_prod) (simp_all add: calm_def)

lemma s5_get_addr_vc [vc]:
  assumes "I w" and P: "\<And>r b w'. I w' \<Longrightarrow> P (r, b, w')"
  shows "ensures (s5_get_addr k buff base n addr ty w) P"
  unfolding s5_get_addr_def using assms(1)
  by (intro vc P pair_vc I_snd_if ensures_prod) (simp_all add: calm_def)

lemma protect_vc [vc]:
  assumes "I w" and P: "\<And>r w'. I w' \<Longrightarrow> P (r, w')"
  shows "ensures (protect k f path w) P"
  unfolding protect_def using assms(1)
  by (auto simp: ensures_def bind_eq_Some_conv split_beta Let_def calm_def
      intro!: P I_sys  split: if_split_asm option.split_asm)

lemma socket_mod_vc [vc]:
  assumes "I w" and P: "\<And>r w'. I w' \<Longrightarrow> P (r, w')"
  shows "ensures (socket_mod k f dst w) P"
  unfolding socket_mod_def using assms(1)
  by (intro vc P pair_vc I_snd_if I_setttl) simp_all

lemma close_fail_vc [vc]:
  assumes "I w" and P: "\<And>w'. I w' \<Longrightarrow> P (- 1, w')"
  shows "ensures (close_fail k f w) P"
  unfolding close_fail_def using assms(1)
  by (auto simp: ensures_def bind_eq_Some_conv split_beta Let_def calm_def
      intro!: P I_sys  split: if_split_asm option.split_asm)

lemma prepare_socket_vc [vc]:
  assumes "I w" and P: "\<And>r w'. I w' \<Longrightarrow> P (r, w')"
  shows "ensures (prepare_socket k f addr w) P"
  unfolding prepare_socket_def using assms(1)
  by (intro vc P pair_vc I_opt_sockopt) (simp_all add: calm_def)

lemma mode_add_get_vc [vc]:
  assumes "I w" and P: "\<And>r w'. I w' \<Longrightarrow> P (r, w')"
  shows "ensures (mode_add_get k dst m w) P"
  unfolding mode_add_get_def using assms(1)
  by (intro vc P pair_vc I_snd_if I_prm ensures_prod I_sys) (simp_all add: calm_def)

lemma udp_hook_vc [vc]:
  assumes "I w" and P: "\<And>r w'. I w' \<Longrightarrow> P (r, w')"
  shows "ensures (udp_hook k val start n dst w) P"
  unfolding udp_hook_def using assms(1)
  by (intro vc P) (simp_all add: calm_def)

text \<open>The rules of this section together.\<close>

lemmas calm_vc =
  sys_vc recv_into_vc send_fake_vc send_oob_vc send_disorder_vc send_late_oob_vc
  send_part_vc parts_loop_vc send_rest_vc post_desync_vc desync_vc desync_udp_vc resolve_vc
  auth_socks5_vc s4_get_addr_vc s5_get_addr_vc protect_vc socket_mod_vc close_fail_vc
  prepare_socket_vc mode_add_get_vc udp_hook_vc

end

end
