(* ===== verification/Table.thy ===== *)
theory Table
  imports Calm
begin

text \<open>
  The invariant of the event loop of \<open>byedpi/proxy.c\<close> and its preservation by every handler.
  The connections of the table are single or form rings through their \<open>pair\<close> pointers: two
  for a TCP tunnel, three for a UDP association. Every pointer leads to a live connection,
  and an event of a batch that was fetched is either of a live connection or of one that is
  marked with the current iteration, which \<open>next_event\<close> skips. What the kernel promises about
  epoll is stated on the trace of calls (\<open>epoll_contract\<close>).
\<close>

section \<open>The invariant\<close>

definition tcp :: "eid \<Rightarrow> bool" where
  "tcp t \<longleftrightarrow> t = EV_CONNECT \<or> t = EV_PRE_TUNNEL \<or> t = EV_TUNNEL \<or> t = EV_DESYNC"

definition half :: "eid \<Rightarrow> bool" where
  "half t \<longleftrightarrow> tcp t \<or> t = EV_IGNORE"

lemma tcp_simps [simp]:
  "tcp EV_CONNECT" "tcp EV_PRE_TUNNEL" "tcp EV_TUNNEL" "tcp EV_DESYNC" "\<not> tcp EV_ACCEPT" "\<not> tcp EV_REQUEST"
  "\<not> tcp EV_UDP_TUNNEL" "\<not> tcp EV_IGNORE" "half EV_IGNORE" "\<not> half EV_ACCEPT" "\<not> half EV_REQUEST"
  "\<not> half EV_UDP_TUNNEL" "tcp t \<Longrightarrow> half t"
  by (simp_all add: tcp_def half_def)

abbreviation item :: "poolhd \<Rightarrow> nat \<Rightarrow> eval" where
  "item p v \<equiv> items p ! v"

text \<open>The two sides of a TCP tunnel.\<close>

definition duo :: "poolhd \<Rightarrow> nat \<Rightarrow> nat \<Rightarrow> bool" where
  "duo p v q \<longleftrightarrow> v \<in> live p \<and> q \<in> live p \<and> v \<noteq> q \<and> pair (item p v) = Some q \<and> pair (item p q) = Some v
     \<and> half (etype (item p v)) \<and> half (etype (item p q))"

text \<open>
  A connection of the set \<open>X\<close> is on its way out of its ring; \<open>X\<close> is empty between the
  handlers.
\<close>

definition rings :: "nat set \<Rightarrow> poolhd \<Rightarrow> bool" where
  "rings X p \<longleftrightarrow>
     (\<forall>v \<in> live p. \<forall>q. pair (item p v) = Some q \<longrightarrow> q \<in> live p \<and> q \<noteq> v \<and> pair (item p q) \<noteq> None)
     \<and> (\<forall>v \<in> live p - X. \<forall>u \<in> live p - X. \<forall>q. pair (item p v) = Some q \<longrightarrow> pair (item p u) = Some q \<longrightarrow> u = v)
     \<and> (\<forall>v \<in> live p - X. tcp (etype (item p v)) \<longrightarrow> (\<exists>q. duo p v q))
     \<and> (\<forall>v \<in> live p. etype (item p v) = EV_REQUEST \<longrightarrow> pair (item p v) = None)"

lemma ringsI:
  assumes "\<And>v q. v \<in> live p \<Longrightarrow> pair (item p v) = Some q \<Longrightarrow> q \<in> live p \<and> q \<noteq> v \<and> pair (item p q) \<noteq> None"
    and "\<And>u v q. v \<in> live p \<Longrightarrow> u \<in> live p \<Longrightarrow> v \<notin> X \<Longrightarrow> u \<notin> X \<Longrightarrow> pair (item p v) = Some q
          \<Longrightarrow> pair (item p u) = Some q \<Longrightarrow> u = v"
    and "\<And>v. v \<in> live p \<Longrightarrow> v \<notin> X \<Longrightarrow> tcp (etype (item p v)) \<Longrightarrow> \<exists>q. duo p v q"
    and "\<And>v. v \<in> live p \<Longrightarrow> etype (item p v) = EV_REQUEST \<Longrightarrow> pair (item p v) = None"
  shows "rings X p"
  unfolding rings_def using assms by blast

lemma ringsD:
  assumes "rings X p"
  shows "v \<in> live p \<Longrightarrow> pair (item p v) = Some q \<Longrightarrow> q \<in> live p \<and> q \<noteq> v \<and> pair (item p q) \<noteq> None"
    and "v \<in> live p \<Longrightarrow> u \<in> live p \<Longrightarrow> v \<notin> X \<Longrightarrow> u \<notin> X \<Longrightarrow> pair (item p v) = Some q
          \<Longrightarrow> pair (item p u) = Some q \<Longrightarrow> u = v"
    and "v \<in> live p \<Longrightarrow> v \<notin> X \<Longrightarrow> tcp (etype (item p v)) \<Longrightarrow> \<exists>q. duo p v q"
    and "v \<in> live p \<Longrightarrow> etype (item p v) = EV_REQUEST \<Longrightarrow> pair (item p v) = None"
  using assms unfolding rings_def by blast+

text \<open>The events \<open>E\<close> that are left of the batch \<open>pe\<close>, fetched in iteration \<open>it\<close>.\<close>

definition batch :: "nat set \<Rightarrow> u32 \<Rightarrow> (nat \<times> int) list \<Rightarrow> poolhd \<Rightarrow> bool" where
  "batch E it pe p \<longleftrightarrow> iters p = it \<and> pevents p = pe \<and> E \<subseteq> {..<length (items p)}
     \<and> (\<forall>v \<in> E. v \<in> live p \<or> mod_iter (item p v) = it)"

definition pinv :: "nat set \<Rightarrow> nat \<Rightarrow> poolhd \<Rightarrow> bool" where
  "pinv X l p \<longleftrightarrow> pool_inv p \<and> listener p l \<and> rings X p
     \<and> (\<forall>v \<in> live p. (etype (item p v) = EV_ACCEPT \<longleftrightarrow> v = l) \<and> 0 \<le> buff_size (item p v))"

text \<open>Epoll reports only connections that are live.\<close>

definition watch_ok :: "poolhd \<Rightarrow> trace \<Rightarrow> bool" where
  "watch_ok p h \<longleftrightarrow> (\<forall>f v. watched h f = Some v \<longrightarrow> v \<in> live p \<and> fd (item p v) = f)"

definition tbl :: "nat set \<Rightarrow> nat \<Rightarrow> nat set \<Rightarrow> u32 \<Rightarrow> (nat \<times> int) list \<Rightarrow> poolhd \<Rightarrow> world \<Rightarrow> bool" where
  "tbl X l E it pe p w \<longleftrightarrow> pool w = p \<and> pinv X l p \<and> batch E it pe p \<and> watch_ok p (hist w)"

lemma watch_ok_calm: "watch_ok p h \<Longrightarrow> calm c \<Longrightarrow> watch_ok p (h @ [(c, r)])"
  using watch_step_calm[of "(c, r)" "watched h"]
  by (auto simp: watch_ok_def watched_append map_le_def dom_def)

interpretation ct: calm_inv "tbl X l E it pe p" for X l E it pe p
  by unfold_locales (auto simp: tbl_def intro: watch_ok_calm)

section \<open>Changing an item\<close>

lemma tblD:
  assumes "tbl X l E it pe p w"
  shows "pool w = p" "pinv X l p" "batch E it pe p" "watch_ok p (hist w)" "links_ok p" "rings X p"
    "\<And>v. v \<in> live p \<Longrightarrow> v < length (items p)" "listener p l"
  using assms live_less by (auto simp: tbl_def pinv_def pool_inv_def)

lemma live_items [simp]: "live (p\<lparr>items := xs\<rparr>) = live p"
  by (simp add: live_def)

text \<open>
  Changes of the items that keep descriptors, places and marks: the table stays in order if
  the buffers do, no pointer leads to the listening socket and the rings are rings.
\<close>

lemma pinv_items:
  assumes p: "pinv X l p" and len: "length xs = length (items p)"
    and keep: "\<And>u. u < length xs \<Longrightarrow> fd (xs ! u) = fd (item p u) \<and> index (xs ! u) = index (item p u)
        \<and> mod_iter (xs ! u) = mod_iter (item p u)"
    and buff: "\<And>u. u \<in> live p \<Longrightarrow> (buff_data (xs ! u) = None \<or> buff_size (xs ! u) \<noteq> 0) \<and> 0 \<le> buff_size (xs ! u)"
    and lis: "\<And>u. u \<in> live p \<Longrightarrow> pair (xs ! u) \<noteq> Some l"
    and acc: "\<And>u. u \<in> live p \<Longrightarrow> etype (xs ! u) = EV_ACCEPT \<longleftrightarrow> u = l"
    and rng: "rings Y (p\<lparr>items := xs\<rparr>)"
  shows "pinv Y l (p\<lparr>items := xs\<rparr>)"
proof -
  have ok: "links_ok p" "\<forall>v \<in> live p. ev_ok p (item p v)" "l \<in> live p"
    using p by (auto simp: pinv_def pool_inv_def listener_def)
  have "links_ok (p\<lparr>items := xs\<rparr>)"
    using len keep by (intro links_ok_items[OF ok(1)]) simp_all
  moreover have "ev_ok (p\<lparr>items := xs\<rparr>) (xs ! v)" if v: "v \<in> live p" for v
  proof -
    have "q \<in> live p" if "pair (xs ! v) = Some q" for q
      using ringsD(1)[OF rng, of v q] that v by simp
    moreover have "ev_ok p (item p v)"
      using ok(2) v by blast
    ultimately show ?thesis
      using keep[of v] buff[OF v] len live_less[OF ok(1) v] by (simp add: ev_ok_def ptr_ok_def)
  qed
  moreover have "listener (p\<lparr>items := xs\<rparr>) l"
    unfolding listener_def using ok(3) lis by simp
  ultimately show ?thesis
    unfolding pinv_def pool_inv_def using rng acc buff by simp
qed

lemma batch_items:
  assumes "batch E it pe p" and "length xs = length (items p)"
    and "\<And>u. u < length xs \<Longrightarrow> mod_iter (xs ! u) = mod_iter (item p u)"
  shows "batch E it pe (p\<lparr>items := xs\<rparr>)"
  unfolding batch_def
proof (intro conjI ballI)
  show "v \<in> live (p\<lparr>items := xs\<rparr>) \<or> mod_iter (item (p\<lparr>items := xs\<rparr>) v) = it" if "v \<in> E" for v
    using assms that by (auto simp: batch_def subset_iff)
qed (use assms in \<open>auto simp: batch_def\<close>)

lemma watch_ok_items:
  assumes "watch_ok p h" and "links_ok p" and "\<And>u. u < length (items p) \<Longrightarrow> fd (xs ! u) = fd (item p u)"
  shows "watch_ok (p\<lparr>items := xs\<rparr>) h"
  using assms live_less by (fastforce simp: watch_ok_def)

text \<open>A change that touches neither the rings nor the type of a connection.\<close>

definition harmless :: "(eval \<Rightarrow> eval) \<Rightarrow> eval \<Rightarrow> bool" where
  "harmless f e \<longleftrightarrow> fd (f e) = fd e \<and> index (f e) = index e \<and> mod_iter (f e) = mod_iter e
     \<and> etype (f e) = etype e \<and> pair (f e) = pair e
     \<and> (buff_data (f e) = None \<or> buff_size (f e) \<noteq> 0) \<and> 0 \<le> buff_size (f e)"

abbreviation upd_item :: "nat \<Rightarrow> (eval \<Rightarrow> eval) \<Rightarrow> poolhd \<Rightarrow> poolhd" where
  "upd_item v f p \<equiv> p\<lparr>items := (items p)[v := f (item p v)]\<rparr>"

lemma rings_cong:
  assumes "rings X p" and "live p' = live p"
    and "\<And>v. v \<in> live p \<Longrightarrow> pair (item p' v) = pair (item p v) \<and> etype (item p' v) = etype (item p v)"
  shows "rings X p'"
proof (rule ringsI)
  show "\<exists>q. duo p' v q" if v: "v \<in> live p'" "v \<notin> X" "tcp (etype (item p' v))" for v
  proof -
    obtain q where "duo p v q"
      using ringsD(3)[OF assms(1), of v] v assms(2,3) by auto
    then show ?thesis
      using assms by (auto simp: duo_def)
  qed
  show "q \<in> live p' \<and> q \<noteq> v \<and> pair (item p' q) \<noteq> None" if "v \<in> live p'" "pair (item p' v) = Some q" for v q
    using ringsD(1)[OF assms(1), of v q] that assms(2,3) by auto
  show "u = v" if "v \<in> live p'" "u \<in> live p'" "v \<notin> X" "u \<notin> X" "pair (item p' v) = Some q" "pair (item p' u) = Some q" for u v q
    using ringsD(2)[OF assms(1), of v u q] that assms(2,3) by auto
  show "pair (item p' v) = None" if "v \<in> live p'" "etype (item p' v) = EV_REQUEST" for v
    using ringsD(4)[OF assms(1), of v] that assms(2,3) by auto
qed

lemma upd_item_harmless:
  assumes t: "tbl X l E it pe p w" and v: "v \<in> live p" and f: "harmless f (item p v)"
  shows "tbl X l E it pe (upd_item v f p) (w\<lparr>pool := upd_item v f p\<rparr>)"
proof -
  define xs where "xs = (items p)[v := f (item p v)]"
  have same: "fd (xs ! u) = fd (item p u) \<and> index (xs ! u) = index (item p u) \<and> mod_iter (xs ! u) = mod_iter (item p u)
      \<and> etype (xs ! u) = etype (item p u) \<and> pair (xs ! u) = pair (item p u)" for u
    using f tblD(7)[OF t v] by (cases "u = v") (auto simp: xs_def harmless_def)
  have p: "pinv X l p" "\<forall>u \<in> live p. ev_ok p (item p u) \<and> 0 \<le> buff_size (item p u)" "length xs = length (items p)"
    using tblD(2)[OF t] by (auto simp: pinv_def pool_inv_def xs_def)
  have "pinv X l (p\<lparr>items := xs\<rparr>)"
  proof (rule pinv_items[OF p(1,3)])
    show "(buff_data (xs ! u) = None \<or> buff_size (xs ! u) \<noteq> 0) \<and> 0 \<le> buff_size (xs ! u)" if "u \<in> live p" for u
      using that p(2) f tblD(7)[OF t v] by (cases "u = v") (auto simp: xs_def harmless_def ev_ok_def)
    show "pair (xs ! u) \<noteq> Some l" if "u \<in> live p" for u
      using that same[of u] tblD(8)[OF t] by (auto simp: listener_def)
    show "(etype (xs ! u) = EV_ACCEPT) = (u = l)" if "u \<in> live p" for u
      using that same p(1) by (auto simp: pinv_def)
    show "rings X (p\<lparr>items := xs\<rparr>)"
      using tblD(6)[OF t] same by (auto intro: rings_cong)
  qed (use same in auto)
  moreover have "batch E it pe (p\<lparr>items := xs\<rparr>)"
    using tblD(3)[OF t] p(3) same by (intro batch_items) auto
  moreover have "watch_ok (p\<lparr>items := xs\<rparr>) (hist w)"
    using tblD(4,5)[OF t] same by (intro watch_ok_items) auto
  ultimately show ?thesis
    by (simp add: tbl_def xs_def)
qed

text \<open>The pool after a change is the old one with the item replaced.\<close>

lemma set_ev_vc:
  assumes t: "tbl X l E it pe p w" and v: "v \<in> live p" and f: "harmless f (item p v)"
    and P: "\<And>w'. tbl X l E it pe (upd_item v f p) w' \<Longrightarrow> P w'"
  shows "ensures (set_ev v f w) P"
  using upd_item_harmless[OF t v f] tblD(1)[OF t] by (auto simp: ensures_def set_ev_def intro: P split: if_split_asm)

section \<open>Adding a connection\<close>

lemma add_event_raw:
  assumes "add_event k ty f e w = Some (r, w')"
  shows "0 < f \<and> (r = None \<and> w' = w \<or>
    (\<exists>v rep. v = links (pool w) ! nat (pcount (pool w)) \<and> v < length (items (pool w)) \<and> pcount (pool w) < pmax (pool w)
       \<and> items (pool w') = (items (pool w))[v := new_eval (pool w) ty f]
       \<and> iters (pool w') = iters (pool w) \<and> pevents (pool w') = pevents (pool w)
       \<and> hist w' = hist w @ [(Epoll_add f v (POLLRDHUP OR e), rep)] \<and> r = (if ret rep = 0 then Some v else None)))"
proof (cases "pmax (pool w) \<le> pcount (pool w)")
  case True
  then show ?thesis
    using assms by (auto simp: add_event_def Let_def bind_eq_Some_conv c_assert_def split: if_split_asm)
next
  case False
  define p where "p = pool w"
  define v where "v = links p ! nat (pcount p)"
  define w1 where "w1 = w\<lparr>pool := p\<lparr>items := (items p)[v := new_eval p ty f]\<rparr>\<rparr>"
  define rep where "rep = fst (sys k (Epoll_add f v (POLLRDHUP OR e)) w1)"
  define w2 where "w2 = snd (sys k (Epoll_add f v (POLLRDHUP OR e)) w1)"
  have w2: "pool w2 = p\<lparr>items := (items p)[v := new_eval p ty f]\<rparr>"
    "hist w2 = hist w @ [(Epoll_add f v (POLLRDHUP OR e), rep)]"
    by (simp_all add: w2_def w1_def rep_def)
  have "0 < f" "v < length (items p)" "(if ret rep \<noteq> 0 then (None, w2)
      else (Some v, w2\<lparr>pool := (pool w2)\<lparr>pcount := pcount p + 1\<rparr>\<rparr>)) = (r, w')"
    using assms False unfolding add_event_def
    by (simp_all add: Let_def bind_eq_Some_conv c_assert_def set_ev_def split_beta new_eval_def rep_def w1_def w2_def
        p_def[symmetric] v_def[symmetric] split: if_split_asm)
  then show ?thesis
    using w2 False by (intro conjI disjI2 exI[of _ v] exI[of _ rep]) (auto simp: p_def v_def split: if_split_asm)
qed

text \<open>A single connection more.\<close>

lemma pinv_grow:
  assumes p: "pinv X l p" and fresh: "v \<notin> live p" and lv: "live p' = insert v (live p)"
    and inv: "pool_inv p'" "listener p' l" and same: "\<forall>u \<in> live p. item p' u = item p u"
    and new: "pair (item p' v) = None" "etype (item p' v) \<noteq> EV_ACCEPT" "0 \<le> buff_size (item p' v)"
  shows "pinv (insert v X) l p'"
proof -
  have rg: "rings X p" and lp: "\<forall>v \<in> live p. (etype (item p v) = EV_ACCEPT \<longleftrightarrow> v = l) \<and> 0 \<le> buff_size (item p v)"
    "l \<in> live p"
    using p by (simp_all add: pinv_def listener_def)
  have old: "duo p' u q" if "duo p u q" for u q
    using that same lv by (auto simp: duo_def)
  have "rings (insert v X) p'"
  proof (rule ringsI)
    show "\<exists>q. duo p' u q" if "u \<in> live p'" "u \<notin> insert v X" "tcp (etype (item p' u))" for u
      using ringsD(3)[OF rg, of u] old that lv same by auto
    show "q \<in> live p' \<and> q \<noteq> u \<and> pair (item p' q) \<noteq> None" if "u \<in> live p'" "pair (item p' u) = Some q" for u q
      using ringsD(1)[OF rg, of u q] that lv same new(1) fresh by (cases "u = v"; cases "q = v") auto
    show "u = x" if "x \<in> live p'" "u \<in> live p'" "x \<notin> insert v X" "u \<notin> insert v X" "pair (item p' x) = Some q"
      "pair (item p' u) = Some q" for u x q
      using ringsD(2)[OF rg, of x u q] that lv same by auto
    show "pair (item p' u) = None" if "u \<in> live p'" "etype (item p' u) = EV_REQUEST" for u
      using ringsD(4)[OF rg, of u] that lv same new(1) by (cases "u = v") auto
  qed
  moreover have "(etype (item p' u) = EV_ACCEPT \<longleftrightarrow> u = l) \<and> 0 \<le> buff_size (item p' u)" if "u \<in> live p'" for u
    using that lp lv same new fresh by (cases "u = v") auto
  ultimately show ?thesis
    using inv by (simp add: pinv_def)
qed

text \<open>A fresh connection is single; if it is to be a side of a tunnel, that is still to come.\<close>

lemma add_event_vc:
  assumes t: "tbl X l E it pe p w" and ty: "ty \<noteq> EV_ACCEPT"
    and None: "\<And>w' p'. tbl X l E it pe p' w' \<Longrightarrow> live p' = live p \<Longrightarrow> \<forall>u \<in> live p. item p' u = item p u
        \<Longrightarrow> P (None, w')"
    and Some: "\<And>v w' p'. tbl (insert v X) l E it pe p' w' \<Longrightarrow> v \<notin> live p \<Longrightarrow> live p' = insert v (live p)
        \<Longrightarrow> \<forall>u \<in> live p. item p' u = item p u \<Longrightarrow> item p' v = new_eval p ty f \<Longrightarrow> P (Some v, w')"
  shows "ensures (add_event k ty f e w) P"
proof (rule ensures_any, clarify)
  fix r w'
  assume run: "add_event k ty f e w = Some (r, w')"
  note p = tblD[OF t]
  consider "r = None" "w' = w" | v rep where "0 < f" "v = links p ! nat (pcount p)" "v < length (items p)"
    "items (pool w') = (items p)[v := new_eval p ty f]" "iters (pool w') = iters p" "pevents (pool w') = pevents p"
    "hist w' = hist w @ [(Epoll_add f v (POLLRDHUP OR e), rep)]" "r = (if ret rep = 0 then Some v else None)"
    "pcount p < pmax p"
    using add_event_raw[OF run] p(1) by auto
  then show "P (r, w')"
  proof cases
    case 1
    then show ?thesis using None[OF t] by simp
  next
    case 2
    define p' where "p' = pool w'"
    have "nat (pcount p) < length (links p)"
      using 2(9) p(5) by (auto simp: links_ok_def)
    then have fresh: "v \<notin> live p"
      using p(5) by (auto simp: 2(2) live_def in_set_conv_nth nth_eq_iff_index_eq links_ok_def)
    have free: "pair (item p u) \<noteq> Some v" if "u \<in> live p" for u
      using ringsD(1)[OF p(6) that] fresh by blast
    have inv': "pool_inv p'" "live p' = (case r of None \<Rightarrow> live p | Some v \<Rightarrow> insert v (live p))"
      using add_event_ok[of w f k ty e] run p(1,2) 2(1,2) free fresh
      by (auto simp: pinv_def p'_def split: option.split_asm)
    have it': "item p' u = item p u" if "u \<noteq> v" for u
      using 2(4) that by (simp add: p'_def)
    have nv: "item p' v = new_eval p ty f" "length (items p') = length (items p)"
      using 2(3,4) by (simp_all add: p'_def)
    have new: "pair (new_eval p ty f) = None" "etype (new_eval p ty f) = ty" "buff_size (new_eval p ty f) = 0"
      "mod_iter (new_eval p ty f) = iters p" "fd (new_eval p ty f) = f"
      by (simp_all add: new_eval_def empty_eval_def)
    have li: "listener p' l"
      using p(8) it' nv(1) new(1) inv'(2) fresh 2(8)
      by (auto simp: listener_def split: option.split_asm if_split_asm) (metis it')+
    have itl: "\<forall>u \<in> live p. item p' u = item p u"
      using it' fresh by metis
    have ba: "batch E it pe p'"
      using p(3) it' nv new(4) 2(5,6) inv'(2) by (auto simp: batch_def p'_def[symmetric] split: option.split) metis+
    show ?thesis
    proof (cases "ret rep = 0")
      case True
      then have lv: "live p' = insert v (live p)" "r = Some v"
        using inv'(2) 2(8) by simp_all
      have "pinv (insert v X) l p'"
        using pinv_grow[OF p(2) fresh lv(1) inv'(1) li itl] nv(1) new ty by simp
      moreover have "watch_ok p' (hist w')"
        using p(4) 2(7) True lv itl nv(1) new(5) by (auto simp: watch_ok_def watched_append watch_step_def)
      ultimately have "tbl (insert v X) l E it pe p' w'"
        using ba by (simp add: tbl_def p'_def)
      then show ?thesis
        using Some[of v p' w'] lv fresh itl nv(1) by auto
    next
      case False
      then have lv: "live p' = live p" "r = None"
        using inv'(2) 2(8) by auto
      have "pinv X l p'"
        using p(2) inv'(1) li lv itl rings_cong[OF p(6) lv(1)] by (auto simp: pinv_def)
      moreover have "watch_ok p' (hist w')"
        using p(4) 2(7) False lv itl by (auto simp: watch_ok_def watched_append watch_step_def)
      ultimately have "tbl X l E it pe p' w'"
        using ba by (simp add: tbl_def p'_def)
      then show ?thesis
        using None[of p' w'] lv itl by auto
    qed
  qed
qed

text \<open>A single connection that is not a side of a tunnel needs no exception.\<close>

lemma tbl_single:
  assumes t: "tbl (insert v X) l E it pe p w" and "pair (item p v) = None" and "\<not> tcp (etype (item p v))"
  shows "tbl X l E it pe p w"
proof -
  have "rings X p"
    unfolding rings_def
  proof (intro conjI ballI allI impI)
    note rg = ringsD[OF tblD(6)[OF t]]
    show "\<exists>q. duo p u q" if "u \<in> live p - X" "tcp (etype (item p u))" for u
      using rg(3)[of u] that assms(3) by auto
    show "u = x" if "x \<in> live p - X" "u \<in> live p - X" "pair (item p x) = Some q" "pair (item p u) = Some q" for u x q
      using rg(2)[of x u q] that assms(2) by (cases "x = v"; cases "u = v") auto
  qed (use ringsD[OF tblD(6)[OF t]] in blast)+
  then show ?thesis
    using t by (simp add: tbl_def pinv_def)
qed

section \<open>Closing a connection\<close>

lemma cutD:
  assumes "cut v w w'"
  defines "C \<equiv> live (pool w) - live (pool w')"
  shows "C = {u. chained (pool w) v u}"
    and "\<And>u. u \<in> C \<Longrightarrow> mod_iter (item (pool w') u) = iters (pool w)"
    and "\<And>u. u < length (items (pool w)) \<Longrightarrow> pair (item (pool w') u) = pair (item (pool w) u) \<or> u \<in> C
          \<or> (\<exists>q \<in> C. pair (item (pool w) u) = Some q)"
    and "pevents (pool w') = pevents (pool w)"
    and "\<exists>us es. hist w' = hist w @ es \<and> map fst es = close_calls (pool w) us \<and> distinct us \<and> set us = C"
  using assms unfolding cut_def Let_def by blast+

lemma cut_chain:
  assumes "cut v w w'"
  defines "C \<equiv> live (pool w) - live (pool w')"
  shows "\<And>u q. u \<in> C \<Longrightarrow> q \<in> live (pool w) \<Longrightarrow> pair (item (pool w) u) = Some q \<Longrightarrow> q \<in> C"
    and "\<And>S. v \<in> S \<Longrightarrow> \<forall>u \<in> S. \<forall>q \<in> live (pool w). pair (item (pool w) u) = Some q \<longrightarrow> q \<in> S \<Longrightarrow> C \<subseteq> S"
    and "\<exists>es. hist w' = hist w @ es \<and> (\<forall>c \<in> set (map fst es). calm c)
          \<and> (\<forall>u \<in> C. Epoll_del (fd (item (pool w) u)) \<in> set (map fst es))"
proof -
  have C: "C = {u. chained (pool w) v u}"
    using cutD(1)[OF assms(1)] by (simp add: C_def)
  show "q \<in> C" if "u \<in> C" "q \<in> live (pool w)" "pair (item (pool w) u) = Some q" for u q
    using that chained_next[of "pool w" v u q] by (simp add: C)
  show "C \<subseteq> S" if "v \<in> S" "\<forall>u \<in> S. \<forall>q \<in> live (pool w). pair (item (pool w) u) = Some q \<longrightarrow> q \<in> S" for S
  proof
    fix u assume "u \<in> C"
    then have "chained (pool w) v u" by (simp add: C)
    then show "u \<in> S"
      using that by (induction rule: chained.induct) auto
  qed
  obtain us es where es: "hist w' = hist w @ es" "map fst es = close_calls (pool w) us" "set us = C"
    using cutD(5)[OF assms(1)] by (auto simp: C_def)
  have "\<forall>u \<in> C. Epoll_del (fd (item (pool w) u)) \<in> set (map fst es)"
    using es(3) by (auto simp: es(2) set_close_calls)
  moreover have "\<forall>c \<in> set (map fst es). calm c"
    using close_calls_calm by (simp add: es(2))
  ultimately show "\<exists>es. hist w' = hist w @ es \<and> (\<forall>c \<in> set (map fst es). calm c)
          \<and> (\<forall>u \<in> C. Epoll_del (fd (item (pool w) u)) \<in> set (map fst es))"
    using es(1) by blast
qed

text \<open>What is cut out of the rings are whole rings: no pointer leads into it from outside.\<close>

lemma cut_rings:
  assumes rg: "rings X p" and p: "pool w = p" "links_ok p" and v: "v \<in> live p" "X = {} \<or> pair (item p v) = None"
    and cut: "cut v w w'" and u: "u \<in> live p" "pair (item p u) = Some q" "q \<in> live p - live (pool w')"
  shows "u \<notin> live (pool w')" and "pair (item p v) \<noteq> None"
proof -
  define C where "C = live p - live (pool w')"
  note c = cut_chain[OF cut, unfolded p(1), folded C_def]
  have single: "C \<subseteq> {v}" if "pair (item p v) = None"
    using c(2)[of "{v}"] that by simp
  show pv: "pair (item p v) \<noteq> None"
    using single u(2,3) ringsD(1)[OF rg u(1)] by (auto simp: C_def)
  then have X: "X = {}"
    using v(2) by auto
  have CS: "C \<subseteq> {x \<in> live p. pair (item p x) \<noteq> None}"
  proof -
    have "\<forall>x \<in> {x \<in> live p. pair (item p x) \<noteq> None}. \<forall>y \<in> live p. pair (item p x) = Some y
        \<longrightarrow> y \<in> {x \<in> live p. pair (item p x) \<noteq> None}"
      using ringsD(1)[OF rg] by blast
    moreover have "v \<in> {x \<in> live p. pair (item p x) \<noteq> None}"
      using v(1) pv by blast
    ultimately show ?thesis
      by (intro c(2))
  qed
  define f where "f = (\<lambda>x. the (pair (item p x)))"
  have fC: "f x \<in> C" "pair (item p x) = Some (f x)" if x: "x \<in> C" for x
  proof -
    obtain y where y: "pair (item p x) = Some y" "x \<in> live p"
      using CS x by auto
    then have "y \<in> live p"
      using ringsD(1)[OF rg] by blast
    then show "f x \<in> C" "pair (item p x) = Some (f x)"
      using c(1)[OF x _ y(1)] y by (auto simp: f_def)
  qed
  have "finite C"
    by (simp add: C_def live_def)
  moreover have "inj_on f C"
  proof (rule inj_onI)
    show "x = y" if "x \<in> C" "y \<in> C" "f x = f y" for x y
      using ringsD(2)[OF rg, of y x "f x"] fC(2)[OF that(1)] fC(2)[OF that(2)] that CS X by auto
  qed
  ultimately have "f ` C = C"
    using fC(1) by (intro endo_inj_surj) auto
  then obtain x where x: "x \<in> C" "f x = q"
    using u(3) C_def by (metis imageE)
  then have "u = x"
    using ringsD(2)[OF rg, of x u q] fC(2)[OF x(1)] u CS X by auto
  then show "u \<notin> live (pool w')"
    using x(1) by (simp add: C_def)
qed

lemma del_event_vc:
  assumes t: "tbl X l E it pe p w" and v: "v \<in> live p" "v \<noteq> l"
    and X: "X = {} \<or> X \<subseteq> {v} \<and> pair (item p v) = None"
    and P: "\<And>w' p'. tbl {} l E it pe p' w' \<Longrightarrow> live p' \<subseteq> live p - {v}
        \<Longrightarrow> (\<forall>u \<in> live p'. ev_kept (item p u) (item p' u) \<and> pair (item p' u) = pair (item p u))
        \<Longrightarrow> (pair (item p v) = None \<longrightarrow> live p' = live p - {v}) \<Longrightarrow> P w'"
  shows "ensures (del_event k v w) P"
proof -
  note p = tblD[OF t]
  obtain w' where w': "del_event k v w = Some w'" "pool_inv (pool w')" "listener (pool w') l" "live (pool w') \<subseteq> live p - {v}"
    "items_kept (live p - live (pool w')) p (pool w')" and cut: "cut v w w'"
    using del_event_ok[of w v l k] p(1,2,8) v by (auto simp: pinv_def ptr_ok_def)
  define p' where "p' = pool w'"
  define C where "C = live p - live p'"
  note c = cutD[OF cut, unfolded p(1), folded p'_def, folded C_def]
  note cc = cut_chain[OF cut, unfolded p(1), folded p'_def, folded C_def]
  have keep: "length (items p') = length (items p)" "iters p' = iters p"
      "\<And>u. u < length (items p) \<Longrightarrow> u \<notin> C \<Longrightarrow> ev_kept (item p u) (item p' u)"
    using w'(5) by (auto simp: items_kept_def p'_def C_def)
  have lv: "live p' \<subseteq> live p" "live p' \<subseteq> live p - {v}"
    using w'(4) by (auto simp: p'_def)
  have in_ring: "q \<in> live p'" if "u \<in> live p'" "pair (item p u) = Some q" for u q
  proof (rule ccontr)
    assume "q \<notin> live p'"
    then have "q \<in> live p - live p'"
      using ringsD(1)[OF p(6), of u q] that lv(1) by blast
    then show False
      using cut_rings(1)[OF p(6,1,5) v(1) _ cut, of u q] X that lv(1) by (auto simp: p'_def)
  qed
  have ev: "ev_kept (item p u) (item p' u)" "pair (item p' u) = pair (item p u)" if "u \<in> live p'" for u
  proof -
    have u: "u < length (items p)" "u \<notin> C"
      using that lv(1) p(7) by (auto simp: C_def)
    then show "ev_kept (item p u) (item p' u)"
      by (rule keep(3))
    show "pair (item p' u) = pair (item p u)"
      using c(3)[OF u(1)] u(2) in_ring[OF that] by (auto simp: C_def)
  qed
  have "rings {} p'"
  proof (rule ringsI)
    have notX: "u \<notin> X" if "u \<in> live p'" for u
      using that X lv(2) by blast
    show "q \<in> live p' \<and> q \<noteq> u \<and> pair (item p' q) \<noteq> None" if "u \<in> live p'" "pair (item p' u) = Some q" for u q
      using ringsD(1)[OF p(6), of u q] that ev in_ring lv(1) by (metis subsetD)
    show "u = x" if "x \<in> live p'" "u \<in> live p'" "x \<notin> {}" "u \<notin> {}" "pair (item p' x) = Some q" "pair (item p' u) = Some q" for u x q
      using ringsD(2)[OF p(6), of x u q] that ev lv(1) notX by (metis subsetD)
    show "\<exists>q. duo p' u q" if u: "u \<in> live p'" "u \<notin> {}" "tcp (etype (item p' u))" for u
    proof -
      obtain q where q: "duo p u q"
        using ringsD(3)[OF p(6), of u] u lv(1) ev_keptD(5)[OF ev(1)] notX by auto
      then have "q \<in> live p'"
        using in_ring[OF u(1)] by (simp add: duo_def)
      then show ?thesis
        using q u(1) ev ev_keptD(5)[OF ev(1)] by (auto simp: duo_def)
    qed
    show "pair (item p' u) = None" if "u \<in> live p'" "etype (item p' u) = EV_REQUEST" for u
      using ringsD(4)[OF p(6), of u] that ev lv(1) ev_keptD(5)[OF ev(1)] by auto
  qed
  then have "pinv {} l p'"
    using w'(2,3) p(2) lv(1) ev_keptD(4,5)[OF ev(1)] by (auto simp: pinv_def p'_def)
  moreover have "batch E it pe p'"
    unfolding batch_def
  proof (intro conjI ballI)
    show "u \<in> live p' \<or> mod_iter (item p' u) = it" if "u \<in> E" for u
    proof (cases "u \<in> C")
      case True
      then show ?thesis using c(2) p(3) by (simp add: batch_def)
    next
      case False
      have "u < length (items p)"
        using p(3) that by (auto simp: batch_def)
      then have "mod_iter (item p' u) = mod_iter (item p u)"
        using False keep(3) ev_keptD(2) by blast
      then show ?thesis
        using p(3) that False by (auto simp: batch_def C_def)
    qed
  qed (use c(4) p(3) keep(1,2) in \<open>auto simp: batch_def\<close>)
  moreover have "watch_ok p' (hist w')"
    unfolding watch_ok_def
  proof (intro allI impI)
    fix f u
    assume f: "watched (hist w') f = Some u"
    obtain es where es: "hist w' = hist w @ es" "\<forall>c \<in> set (map fst es). calm c"
      "\<forall>u \<in> C. Epoll_del (fd (item p u)) \<in> set (map fst es)"
      using cc(3) by blast
    then have "watched (hist w) f = Some u"
      using f watched_calm[OF es(2), of "watched (hist w)"] by (metis watched_append map_le_def domI)
    then have u: "u \<in> live p" "fd (item p u) = f"
      using p(4) by (auto simp: watch_ok_def)
    then have "u \<notin> C"
      using es f watched_deleted[OF es(2), of f] by (auto simp: watched_append)
    then show "u \<in> live p' \<and> fd (item p' u) = f"
      using u ev_keptD(1)[OF ev(1)] by (auto simp: C_def)
  qed
  ultimately have "tbl {} l E it pe p' w'"
    by (simp add: tbl_def p'_def)
  moreover have "live p' = live p - {v}" if "pair (item p v) = None"
    using cc(2)[of "{v}"] that lv(2) v(1) by (auto simp: C_def)
  ultimately show ?thesis
    using w'(1) P[of p' w'] lv(2) ev by (simp add: ensures_def)
qed

end
