(* ===== verification/Handlers.thy ===== *)
theory Handlers
  imports Table
begin

text \<open>
  Every handler of the event loop keeps the invariant of \<open>Table\<close>. A handler is taken apart
  by the rules of \<open>Calm\<close>; between its calls the state is described by \<open>st\<close>: the table is in
  order and a property of the connections at hand holds, such as being the two sides of a
  tunnel (\<open>tun\<close>), a request (\<open>req\<close>) or a member of a UDP association (\<open>udp\<close>).
\<close>

section \<open>Pairing\<close>

text \<open>
  The connection \<open>val\<close>, single or the side of a tunnel, gets the fresh connection \<open>q\<close> as its
  other side. The old other side, if there is one, still points to \<open>val\<close>.
\<close>

lemma join_rings:
  assumes rg: "rings {q} p" and v: "val \<in> live p" "q \<in> live p" "val \<noteq> q"
    and old: "pair (item p val) = None \<or> (\<exists>u. duo p val u)"
    and q: "pair (item p q) = None"
    and lv: "live p' = live p" and same: "\<And>u. u \<in> live p \<Longrightarrow> u \<noteq> val \<Longrightarrow> u \<noteq> q \<Longrightarrow> item p' u = item p u"
    and val': "pair (item p' val) = Some q" "etype (item p' val) = EV_IGNORE"
    and q': "pair (item p' q) = Some val" "tcp (etype (item p' q))"
  shows "rings {u. pair (item p val) = Some u} p'" and "duo p' val q"
proof -
  show dq: "duo p' val q"
    using v lv val' q' by (simp add: duo_def)
  have noq: "pair (item p u) \<noteq> Some q" if "u \<in> live p" for u
    using ringsD(1)[OF rg that, of q] q by auto
  have toval: "pair (item p val) = Some u" if u: "u \<in> live p" "pair (item p u) = Some val" for u
  proof -
    obtain x where x: "duo p val x"
      using ringsD(1)[OF rg u] old by auto
    then have "x \<notin> {q}" "u \<notin> {q}" "x \<in> live p" "pair (item p x) = Some val"
      using u q by (auto simp: duo_def)
    then have "u = x"
      by (intro ringsD(2)[OF rg _ u(1) _ _ _ u(2)])
    then show ?thesis
      using x by (simp add: duo_def)
  qed
  show "rings {u. pair (item p val) = Some u} p'"
  proof (rule ringsI)
    show "y \<in> live p' \<and> y \<noteq> u \<and> pair (item p' y) \<noteq> None" if u: "u \<in> live p'" "pair (item p' u) = Some y" for u y
    proof (cases "u = val \<or> u = q")
      case True
      then show ?thesis using u v lv val'(1) q'(1) by (elim disjE) simp_all
    next
      case False
      then have "pair (item p u) = Some y"
        using u lv same by simp
      then show ?thesis
        using ringsD(1)[OF rg, of u y] noq[of u] u lv same[of y] val'(1) by (cases "y = val") simp_all
    qed
    show "u = x" if u: "x \<in> live p'" "u \<in> live p'" "x \<notin> {u. pair (item p val) = Some u}"
      "u \<notin> {u. pair (item p val) = Some u}" "pair (item p' x) = Some y" "pair (item p' u) = Some y" for u x y
    proof -
      have y: "z = val \<and> y = q \<or> z = q \<and> y = val \<or> z \<noteq> q \<and> y \<noteq> val \<and> y \<noteq> q \<and> pair (item p z) = Some y"
        if z: "z \<in> live p" "pair (item p val) \<noteq> Some z" "pair (item p' z) = Some y" for z
      proof (cases "z = val \<or> z = q")
        case True
        then show ?thesis using z(3) val' q' by auto
      next
        case False
        then have "pair (item p z) = Some y"
          using z same by simp
        then show ?thesis
          using noq[OF z(1)] toval[OF z(1)] z(2) False by auto
      qed
      have l: "u \<in> live p" "x \<in> live p"
        using u(1,2) lv by simp_all
      have yu: "u = val \<and> y = q \<or> u = q \<and> y = val \<or> u \<noteq> q \<and> y \<noteq> val \<and> y \<noteq> q \<and> pair (item p u) = Some y"
        using y[OF l(1) _ u(6)] u(4) by blast
      have yx: "x = val \<and> y = q \<or> x = q \<and> y = val \<or> x \<noteq> q \<and> y \<noteq> val \<and> y \<noteq> q \<and> pair (item p x) = Some y"
        using y[OF l(2) _ u(5)] u(3) by blast
      show ?thesis
      proof (cases "y = q \<or> y = val")
        case True
        then show ?thesis using yu yx v(3) by metis
      next
        case False
        then show ?thesis
          using yu yx ringsD(2)[OF rg l(2) l(1)] by blast
      qed
    qed
    show "\<exists>y. duo p' u y" if u: "u \<in> live p'" "u \<notin> {u. pair (item p val) = Some u}" "tcp (etype (item p' u))" for u
    proof (cases "u = val \<or> u = q")
      case True
      then show ?thesis
        using u val'(2) dq by (auto simp: duo_def)
    next
      case False
      then obtain y where "duo p u y"
        using ringsD(3)[OF rg, of u] u lv same by auto
      moreover from this have "y \<noteq> val" "y \<noteq> q"
        using toval[of u] u noq by (auto simp: duo_def)
      ultimately show ?thesis
        using False lv same by (auto simp: duo_def)
    qed
    show "pair (item p' u) = None" if "u \<in> live p'" "etype (item p' u) = EV_REQUEST" for u
    proof -
      have "u \<noteq> val" "u \<noteq> q"
        using that(2) val'(2) q'(2) by auto
      then show ?thesis
        using ringsD(4)[OF rg, of u] that lv same by simp
    qed
  qed
qed
lemma create_conn_vc:
  assumes t: "tbl {} l E it pe p w" and v: "val \<in> live p" "val \<noteq> l"
    and old: "pair (item p val) = None \<or> (\<exists>u. duo p val u)" and nx: "tcp next"
    and bad: "\<And>r w' p'. tbl {} l E it pe p' w' \<Longrightarrow> r \<noteq> 0 \<Longrightarrow> live p' = live p \<Longrightarrow> \<forall>u \<in> live p. item p' u = item p u
        \<Longrightarrow> P (r, w')"
    and good: "\<And>q w' p'. tbl {u. pair (item p val) = Some u} l E it pe p' w' \<Longrightarrow> q \<notin> live p \<Longrightarrow> live p' = insert q (live p)
        \<Longrightarrow> duo p' val q \<Longrightarrow> etype (item p' val) = EV_IGNORE \<Longrightarrow> \<forall>u \<in> live p - {val}. item p' u = item p u
        \<Longrightarrow> P (0, w')"
  shows "ensures (create_conn k val dst next w) P"
proof -
  have ty: "next \<noteq> EV_ACCEPT"
    using nx by auto
  have tail: "ensures (do { w \<leftarrow> set_ev val (\<lambda>x. x\<lparr>pair := Some q\<rparr>) w1;
        w \<leftarrow> set_ev q (\<lambda>x. x\<lparr>pair := Some val, in6 := dst, flag := FLAG_CONN\<rparr>) w;
        w \<leftarrow> set_ev val (\<lambda>x. x\<lparr>etype := EV_IGNORE\<rparr>) w; Some (0, w) }) P"
    if t1: "tbl {q} l E it pe p1 w1" and q: "q \<notin> live p" "live p1 = insert q (live p)" "\<forall>u \<in> live p. item p1 u = item p u"
      "item p1 q = new_eval p next f" for w1 p1 q f
  proof -
    note p1 = tblD[OF t1]
    have ne: "val \<noteq> q" "val \<in> live p1" "q \<in> live p1" "val < length (items p1)" "q < length (items p1)"
      using q v(1) p1(7) by auto
    define xs where "xs = (items p1)[val := (item p1 val)\<lparr>pair := Some q, etype := EV_IGNORE\<rparr>,
        q := (item p1 q)\<lparr>pair := Some val, in6 := dst, flag := FLAG_CONN\<rparr>]"
    define p' where "p' = p1\<lparr>items := xs\<rparr>"
    have run: "do { w \<leftarrow> set_ev val (\<lambda>x. x\<lparr>pair := Some q\<rparr>) w1;
        w \<leftarrow> set_ev q (\<lambda>x. x\<lparr>pair := Some val, in6 := dst, flag := FLAG_CONN\<rparr>) w;
        w \<leftarrow> set_ev val (\<lambda>x. x\<lparr>etype := EV_IGNORE\<rparr>) w; Some (0 :: int, w) } = Some (0, w1\<lparr>pool := p'\<rparr>)"
      using ne p1(1) by (simp add: set_ev_def p'_def xs_def list_update_swap[of val q])
    have xs: "item p' u = (if u = val then (item p1 val)\<lparr>pair := Some q, etype := EV_IGNORE\<rparr>
        else if u = q then (item p1 q)\<lparr>pair := Some val, in6 := dst, flag := FLAG_CONN\<rparr> else item p1 u)" for u
      using ne by (simp add: p'_def xs_def nth_list_update)
    have nv: "pair (item p1 q) = None" "etype (item p1 q) = next"
      by (simp_all add: q(4) new_eval_def empty_eval_def)
    have "pair (item p1 val) = None \<or> (\<exists>u. duo p1 val u)"
      using old q v(1) by (auto simp: duo_def)
    then have rg: "rings {u. pair (item p1 val) = Some u} p'" "duo p' val q"
      using join_rings[OF p1(6) ne(2,3,1) _ nv(1), of p'] xs nv(2) nx ne(1) by (simp_all add: p'_def)
    have l: "l \<noteq> q" "l \<in> live p1"
      using p1(2,8) nv(2) ty ne(3) by (auto simp: pinv_def listener_def)
    have pv: "pinv {u. pair (item p val) = Some u} l p'"
      unfolding p'_def
    proof (rule pinv_items[OF p1(2)])
      show "(buff_data (xs ! u) = None \<or> buff_size (xs ! u) \<noteq> 0) \<and> 0 \<le> buff_size (xs ! u)" if "u \<in> live p1" for u
        using that p1(2) xs[of u] by (auto simp: pinv_def pool_inv_def ev_ok_def p'_def)
      show "pair (xs ! u) \<noteq> Some l" if "u \<in> live p1" for u
        using that xs[of u] v(2) l(1) p1(8) by (auto simp: listener_def p'_def)
      show "(etype (xs ! u) = EV_ACCEPT) = (u = l)" if "u \<in> live p1" for u
        using that p1(2) xs[of u] v(2) l(1) nv(2) ty by (auto simp: pinv_def p'_def)
      show "rings {u. pair (item p val) = Some u} (p1\<lparr>items := xs\<rparr>)"
        using rg(1) q(3) v(1) by (simp add: p'_def)
      show "fd (xs ! u) = fd (item p1 u) \<and> index (xs ! u) = index (item p1 u) \<and> mod_iter (xs ! u) = mod_iter (item p1 u)" for u
        using xs[of u] by (simp add: p'_def)
    qed (simp add: xs_def)
    have "batch E it pe p'" "watch_ok p' (hist w1)"
      using xs p1(3,4,5) batch_items[OF p1(3), of xs] watch_ok_items[OF p1(4,5), of xs] by (simp_all add: p'_def xs_def)
    then have "tbl {u. pair (item p val) = Some u} l E it pe p' (w1\<lparr>pool := p'\<rparr>)"
      using pv by (simp add: tbl_def)
    then show ?thesis
      unfolding run using good[of p' "w1\<lparr>pool := p'\<rparr>" q] q xs rg(2) by (auto intro!: ensures_Some simp: p'_def)
  qed
  have bad0: "P (- 1, w')" if "tbl {} l E it pe p' w'" "live p' = live p" "\<forall>u \<in> live p. item p' u = item p u" for w' p'
    using bad that by simp
  show ?thesis
    unfolding create_conn_def using t
    by (intro vc bad0 ct.pair_vc ct.I_nb_socket tail add_event_vc[OF _ ty]) (assumption | simp add: calm_def)+
qed
section \<open>Trying the next strategy\<close>

lemma mod_etype_vc:
  assumes t: "tbl X l E it pe p w" and v: "v \<in> live p" and P: "\<And>r w'. tbl X l E it pe p w' \<Longrightarrow> P (r, w')"
  shows "ensures (mod_etype k v ty w) P"
proof -
  define c where "c = Epoll_mod (fd (item p v)) v (POLLRDHUP OR ty)"
  have "tbl X l E it pe p (snd (sys k c w))"
    using tblD[OF t] v by (auto simp: tbl_def watch_ok_def watched_append watch_step_def c_def)
  then show ?thesis
    using P tblD(1,7)[OF t] v by (auto simp: ensures_def mod_etype_def get_ev_def bind_eq_Some_conv Let_def split_beta c_def
        split: if_split_asm)
qed

text \<open>A connection that nothing points to is taken out of its ring.\<close>

lemma leave_ring:
  assumes t: "tbl {v} l E it pe p w" and v: "v \<in> live p" and none: "\<And>u. u \<in> live p \<Longrightarrow> pair (item p u) \<noteq> Some v"
    and P: "\<And>w'. tbl {v} l E it pe (upd_item v (\<lambda>x. x\<lparr>pair := None\<rparr>) p) w' \<Longrightarrow> P w'"
  shows "ensures (set_ev v (\<lambda>x. x\<lparr>pair := None\<rparr>) w) P"
proof -
  define f where "f = (\<lambda>x :: eval. x\<lparr>pair := None\<rparr>)"
  define xs where "xs = (items p)[v := f (item p v)]"
  note p = tblD[OF t]
  have xs: "xs ! u = (if u = v then f (item p v) else item p u)" for u
    using p(7)[OF v] by (simp add: xs_def)
  have len: "length xs = length (items p)"
    by (simp add: xs_def)
  have rg: "rings {v} (p\<lparr>items := xs\<rparr>)"
  proof (rule ringsI)
    show "\<exists>q. duo (p\<lparr>items := xs\<rparr>) u q"
      if u: "u \<in> live (p\<lparr>items := xs\<rparr>)" "u \<notin> {v}" "tcp (etype (item (p\<lparr>items := xs\<rparr>) u))" for u
    proof -
      obtain q where q: "duo p u q"
        using ringsD(3)[OF p(6), of u] u xs by auto
      then have "q \<noteq> v"
        using none[of u] by (auto simp: duo_def)
      then show ?thesis
        using q u xs by (auto simp: duo_def)
    qed
    show "q \<in> live (p\<lparr>items := xs\<rparr>) \<and> q \<noteq> u \<and> pair (item (p\<lparr>items := xs\<rparr>) q) \<noteq> None"
      if "u \<in> live (p\<lparr>items := xs\<rparr>)" "pair (item (p\<lparr>items := xs\<rparr>) u) = Some q" for u q
      using ringsD(1)[OF p(6), of u q] none[of u] that xs by (cases "u = v"; cases "q = v") (simp_all add: f_def)
    show "u = x" if "x \<in> live (p\<lparr>items := xs\<rparr>)" "u \<in> live (p\<lparr>items := xs\<rparr>)" "x \<notin> {v}" "u \<notin> {v}"
      "pair (item (p\<lparr>items := xs\<rparr>) x) = Some q" "pair (item (p\<lparr>items := xs\<rparr>) u) = Some q" for u x q
      using ringsD(2)[OF p(6), of x u q] that xs by simp
    show "pair (item (p\<lparr>items := xs\<rparr>) u) = None" if "u \<in> live (p\<lparr>items := xs\<rparr>)" "etype (item (p\<lparr>items := xs\<rparr>) u) = EV_REQUEST" for u
      using ringsD(4)[OF p(6), of u] that xs by (cases "u = v") (simp_all add: f_def)
  qed
  have "pinv {v} l (p\<lparr>items := xs\<rparr>)"
  proof (rule pinv_items[OF p(2) _ _ _ _ _ rg])
    show "(buff_data (xs ! u) = None \<or> buff_size (xs ! u) \<noteq> 0) \<and> 0 \<le> buff_size (xs ! u)" if "u \<in> live p" for u
      using that p(2) xs[of u] v by (auto simp: pinv_def pool_inv_def ev_ok_def f_def)
    show "pair (xs ! u) \<noteq> Some l" if "u \<in> live p" for u
      using that p(8) xs[of u] by (simp add: listener_def f_def)
    show "(etype (xs ! u) = EV_ACCEPT) = (u = l)" if "u \<in> live p" for u
      using that p(2) xs[of u] by (auto simp: pinv_def f_def)
  qed (use xs in \<open>simp_all add: len f_def\<close>)
  moreover have "batch E it pe (p\<lparr>items := xs\<rparr>)" "watch_ok (p\<lparr>items := xs\<rparr>) (hist w)"
    using batch_items[OF p(3), of xs] watch_ok_items[OF p(4,5), of xs] xs by (simp_all add: f_def xs_def)
  ultimately have "tbl {v} l E it pe (p\<lparr>items := xs\<rparr>) (w\<lparr>pool := p\<lparr>items := xs\<rparr>\<rparr>)"
    by (simp add: tbl_def)
  then show ?thesis
    using P p(1) p(7)[OF v] by (simp add: ensures_def set_ev_def xs_def f_def)
qed

text \<open>What a handler may do: keep the invariant, and keep the connection unless it returns 0.\<close>

definition kept :: "nat \<Rightarrow> nat set \<Rightarrow> u32 \<Rightarrow> (nat \<times> int) list \<Rightarrow> nat \<Rightarrow> int \<times> world \<Rightarrow> bool" where
  "kept l E it pe val rw \<longleftrightarrow> (\<exists>p. tbl {} l E it pe p (snd rw) \<and> (fst rw \<noteq> 0 \<longrightarrow> val \<in> live p))"

lemma keptI: "tbl {} l E it pe p w \<Longrightarrow> (r \<noteq> 0 \<Longrightarrow> val \<in> live p) \<Longrightarrow> kept l E it pe val (r, w)"
  by (auto simp: kept_def)

lemma duoD:
  assumes "tbl X l E it pe p w" and d: "duo p v q"
  shows "v \<in> live p" "q \<in> live p" "pair (item p v) = Some q" "pair (item p q) = Some v" "v \<noteq> q" "q \<noteq> l" "v \<noteq> l"
    "half (etype (item p v))" "half (etype (item p q))"
proof -
  show "v \<in> live p" "q \<in> live p" "pair (item p v) = Some q" "pair (item p q) = Some v" "v \<noteq> q"
    "half (etype (item p v))" "half (etype (item p q))"
    using d by (simp_all add: duo_def)
  then show "q \<noteq> l" "v \<noteq> l"
    using tblD(8)[OF assms(1)] by (metis listener_def)+
qed

lemma duo_sym: "duo p v q \<Longrightarrow> duo p q v"
  by (simp add: duo_def)

text \<open>After a failed attempt the tunnel is as it was.\<close>

definition retry :: "nat \<Rightarrow> nat set \<Rightarrow> u32 \<Rightarrow> (nat \<times> int) list \<Rightarrow> nat \<Rightarrow> nat \<Rightarrow> int \<times> world \<Rightarrow> bool" where
  "retry l E it pe val q rw \<longleftrightarrow> (\<exists>p. tbl {} l E it pe p (snd rw) \<and> (fst rw \<noteq> 0 \<longrightarrow> duo p val q))"

lemma retryI: "tbl {} l E it pe p w \<Longrightarrow> (r \<noteq> 0 \<Longrightarrow> duo p val q) \<Longrightarrow> retry l E it pe val q (r, w)"
  by (auto simp: retry_def)

lemma reconnect_vc:
  assumes t: "tbl {} l E it pe p w" and d: "duo p val client"
  shows "ensures (reconnect k val m w) (retry l E it pe val client)"
proof -
  note p = tblD[OF t]
  have v: "val \<in> live p" "client \<in> live p" "pair (item p val) = Some client" "pair (item p client) = Some val" "val \<noteq> client"
    "client \<noteq> l" "val \<noteq> l"
    using duoD[OF t d] by blast+
  have v0: "get_ev val w = Some (item p val)"
    using p(1,7) v by (simp add: get_ev_def)
  note dc = duo_sym[OF d]
  have X: "{u. pair (item p client) = Some u} = {val}"
    using v by auto
  have rest: "ensures (do { w \<leftarrow> set_ev val (\<lambda>x. x\<lparr>pair := None\<rparr>) w1; w \<leftarrow> del_event k val w;
       w \<leftarrow> set_ev client (\<lambda>x. x\<lparr>etype := EV_IGNORE, attempt := m, cache := True, buff_offset := 0\<rparr>) w;
       Some (0, w) }) (retry l E it pe val client)"
    if t1: "tbl {val} l E it pe p1 w1" and q: "q \<notin> live p" "live p1 = insert q (live p)" "duo p1 client q"
      "\<forall>u \<in> live p - {client}. item p1 u = item p u" "etype (item p1 client) = EV_IGNORE" for w1 p1 q
  proof -
    have none: "pair (item p1 u) \<noteq> Some val" if u: "u \<in> live p1" for u
    proof
      assume a: "pair (item p1 u) = Some val"
      then have "u \<noteq> client" "u \<noteq> q"
        using q(1,3) v(1,5) by (auto simp: duo_def)
      then have "pair (item p u) = Some val" "u \<in> live p"
        using a u q(2,4) by auto
      then have "u = client"
        using ringsD(2)[OF p(6) v(2)] v(4) by blast
      then show False using \<open>u \<noteq> client\<close> by simp
    qed
    define p2 where "p2 = upd_item val (\<lambda>x. x\<lparr>pair := None\<rparr>) p1"
    have val1: "val \<in> live p1" "val < length (items p1)"
      using v(1) q(2) tblD(7)[OF t1] by auto
    have p2: "live p2 = live p1" "pair (item p2 val) = None" "item p2 client = item p1 client"
      using val1 v(5) by (simp_all add: p2_def)
    have cl: "client \<in> live p2"
      using p2(1) q(2) v(2) by simp
    have tail: "ensures (set_ev client (\<lambda>x. x\<lparr>etype := EV_IGNORE, attempt := m, cache := True, buff_offset := 0\<rparr>) w
        \<bind> (\<lambda>w. Some (0, w))) (retry l E it pe val client)"
      if t3: "tbl {} l E it pe p3 w" and lv: "live p3 = live p2 - {val}"
        and k: "\<forall>u \<in> live p3. ev_kept (item p2 u) (item p3 u) \<and> pair (item p3 u) = pair (item p2 u)" for w p3
    proof -
      have c3: "client \<in> live p3"
        using lv cl v(5) by simp
      then have "etype (item p3 client) = EV_IGNORE"
        using k p2(3) q(5) ev_keptD(5) by metis
      then have "harmless (\<lambda>x. x\<lparr>etype := EV_IGNORE, attempt := m, cache := True, buff_offset := 0\<rparr>) (item p3 client)"
        using tblD(2)[OF t3] c3 by (auto simp: harmless_def pinv_def pool_inv_def ev_ok_def)
      then show ?thesis
        by (intro ensures_bind set_ev_vc[OF t3 c3] ensures_Some retryI) auto
    qed
    show ?thesis
    proof (rule ensures_bind, rule leave_ring[OF t1 val1(1)], erule none, rule ensures_bind)
      fix w2
      assume "tbl {val} l E it pe (upd_item val (\<lambda>x. x\<lparr>pair := None\<rparr>) p1) w2"
      then have t2: "tbl {val} l E it pe p2 w2"
        by (simp add: p2_def)
      show "ensures (del_event k val w2) (\<lambda>w. ensures (set_ev client
          (\<lambda>x. x\<lparr>etype := EV_IGNORE, attempt := m, cache := True, buff_offset := 0\<rparr>) w \<bind> (\<lambda>w. Some (0, w))) (retry l E it pe val client))"
        using p2 val1(1) v(7) by (intro del_event_vc[OF t2] tail) auto
    qed
  qed
  show ?thesis
    unfolding reconnect_def v0 bind.bind_lunit v(3)
  proof (rule ensures_bind, rule create_conn_vc[OF t v(2,6)], unfold X prod.case, goal_cases)
    case (3 r w' p')
    then have "duo p' val client"
      using d by (auto simp: duo_def)
    then show ?case
      using 3 by (auto intro!: ensures_Some retryI)
  next
    case (4 q w' p')
    then show ?case using rest by simp
  qed (use dc in auto)
qed
section \<open>States between the calls of a handler\<close>

text \<open>The table is in order and \<open>Q\<close> holds of it.\<close>

definition st :: "nat \<Rightarrow> nat set \<Rightarrow> u32 \<Rightarrow> (nat \<times> int) list \<Rightarrow> (poolhd \<Rightarrow> bool) \<Rightarrow> world \<Rightarrow> bool" where
  "st l E it pe Q w \<longleftrightarrow> (\<exists>p. tbl {} l E it pe p w \<and> Q p)"

interpretation cs: calm_inv "st l E it pe Q" for l E it pe Q
  by unfold_locales (auto simp: st_def intro: ct.same ct.step)

lemma stI: "tbl {} l E it pe p w \<Longrightarrow> Q p \<Longrightarrow> st l E it pe Q w"
  by (auto simp: st_def)

lemma st_mono: "st l E it pe Q w \<Longrightarrow> (\<And>p. pinv {} l p \<Longrightarrow> Q p \<Longrightarrow> R p) \<Longrightarrow> st l E it pe R w"
  by (auto simp: st_def tbl_def)

lemma st_kept: "st l E it pe Q w \<Longrightarrow> (\<And>p. Q p \<Longrightarrow> val \<in> live p) \<Longrightarrow> kept l E it pe val (r, w)"
  by (auto simp: st_def kept_def)

definition buff_ok :: "eval \<Rightarrow> bool" where
  "buff_ok e \<longleftrightarrow> 0 \<le> buff_size e \<and> (buff_data e = None \<or> buff_size e \<noteq> 0)"

lemma pinv_buff: "pinv X l p \<Longrightarrow> v \<in> live p \<Longrightarrow> buff_ok (item p v)"
  by (auto simp: pinv_def pool_inv_def ev_ok_def buff_ok_def)

lemma st_get:
  assumes "st l E it pe Q w" and "\<And>p. pinv {} l p \<Longrightarrow> Q p \<Longrightarrow> v \<in> live p"
    and P: "\<And>p e. pinv {} l p \<Longrightarrow> Q p \<Longrightarrow> e = item p v \<Longrightarrow> buff_ok e \<Longrightarrow> P e"
  shows "ensures (get_ev v w) P"
proof -
  obtain p where p: "tbl {} l E it pe p w" "Q p"
    using assms(1) by (auto simp: st_def)
  then have v: "v \<in> live p"
    using assms(2) tblD(2) by blast
  then have "get_ev v w = Some (item p v)"
    using tblD(1,7)[OF p(1)] by (simp add: get_ev_def)
  then show ?thesis
    using P[OF tblD(2)[OF p(1)] p(2)] pinv_buff[OF tblD(2)[OF p(1)] v] by (simp add: ensures_def)
qed

lemma st_set:
  assumes "st l E it pe Q w" and v: "\<And>p. pinv {} l p \<Longrightarrow> Q p \<Longrightarrow> v \<in> live p"
    and f: "\<And>p. pinv {} l p \<Longrightarrow> Q p \<Longrightarrow> buff_ok (item p v) \<Longrightarrow> harmless f (item p v)"
    and R: "\<And>p. pinv {} l p \<Longrightarrow> Q p \<Longrightarrow> v < length (items p) \<Longrightarrow> R (upd_item v f p)"
    and P: "\<And>w'. st l E it pe R w' \<Longrightarrow> P w'"
  shows "ensures (set_ev v f w) P"
proof -
  obtain p where p: "tbl {} l E it pe p w" "Q p"
    using assms(1) by (auto simp: st_def)
  note p2 = tblD(2)[OF p(1)]
  note vl = v[OF p2 p(2)]
  show ?thesis
    using f[OF p2 p(2) pinv_buff[OF p2 vl]] R[OF p2 p(2) tblD(7)[OF p(1) vl]]
    by (intro set_ev_vc[OF p(1) vl] P) (auto intro: stI)
qed

lemma st_mod:
  assumes "st l E it pe Q w" and "\<And>p. pinv {} l p \<Longrightarrow> Q p \<Longrightarrow> v \<in> live p" and P: "\<And>r w'. st l E it pe Q w' \<Longrightarrow> P (r, w')"
  shows "ensures (mod_etype k v ty w) P"
proof -
  obtain p where p: "tbl {} l E it pe p w" "Q p"
    using assms(1) by (auto simp: st_def)
  then show ?thesis
    using assms(2)[OF tblD(2)[OF p(1)] p(2)] by (intro mod_etype_vc[OF p(1)] P stI)
qed

text \<open>A side of a tunnel changes its type.\<close>

lemma duo_upd:
  assumes d: "duo p v q" and u: "u = v \<or> u = q" and len: "u < length (items p)"
    and f: "pair (f (item p u)) = pair (item p u)" "half (etype (f (item p u)))"
  shows "duo (upd_item u f p) v q"
proof (cases "u = v")
  case True
  then show ?thesis using d f len by (simp add: duo_def)
next
  case False
  then show ?thesis using d f len u by (simp add: duo_def)
qed

definition half_kept :: "(eval \<Rightarrow> eval) \<Rightarrow> eval \<Rightarrow> bool" where
  "half_kept f e \<longleftrightarrow> fd (f e) = fd e \<and> index (f e) = index e \<and> mod_iter (f e) = mod_iter e
     \<and> pair (f e) = pair e \<and> half (etype (f e)) \<and> buff_ok (f e)"

lemma upd_side:
  assumes t: "tbl {} l E it pe p w" and d: "duo p v q" and f: "half_kept f (item p v)"
  shows "tbl {} l E it pe (upd_item v f p) (w\<lparr>pool := upd_item v f p\<rparr>)"
proof -
  define xs where "xs = (items p)[v := f (item p v)]"
  note p = tblD[OF t] and dd = duoD[OF t d]
  have vl: "v < length (items p)"
    using p(7) dd(1) .
  have xs: "xs ! u = (if u = v then f (item p v) else item p u)" for u
    using vl by (simp add: xs_def)
  have same: "fd (xs ! u) = fd (item p u) \<and> index (xs ! u) = index (item p u) \<and> mod_iter (xs ! u) = mod_iter (item p u)
      \<and> pair (xs ! u) = pair (item p u)" for u
    using f xs[of u] by (simp add: half_kept_def)
  have rg: "rings {} (p\<lparr>items := xs\<rparr>)"
  proof (rule ringsI)
    fix u
    assume u: "u \<in> live (p\<lparr>items := xs\<rparr>)" "tcp (etype (item (p\<lparr>items := xs\<rparr>) u))"
    have "\<exists>y. duo p u y"
      using ringsD(3)[OF p(6), of u] u xs[of u] d by (cases "u = v") auto
    then obtain y where y: "duo p u y" ..
    have "half (etype (xs ! z))" if "z = u \<or> z = y" for z
      using that y f xs[of z] by (cases "z = v") (auto simp: duo_def half_kept_def)
    then show "\<exists>y. duo (p\<lparr>items := xs\<rparr>) u y"
      using y same by (intro exI[of _ y]) (simp add: duo_def)
  next
    fix u
    assume u: "u \<in> live (p\<lparr>items := xs\<rparr>)" "etype (item (p\<lparr>items := xs\<rparr>) u) = EV_REQUEST"
    then have "u \<noteq> v"
      using f xs[of u] by (auto simp: half_kept_def)
    then show "pair (item (p\<lparr>items := xs\<rparr>) u) = None"
      using ringsD(4)[OF p(6), of u] u xs[of u] by simp
  next
    show "y \<in> live (p\<lparr>items := xs\<rparr>) \<and> y \<noteq> u \<and> pair (item (p\<lparr>items := xs\<rparr>) y) \<noteq> None"
      if "u \<in> live (p\<lparr>items := xs\<rparr>)" "pair (item (p\<lparr>items := xs\<rparr>) u) = Some y" for u y
      using ringsD(1)[OF p(6), of u y] that same[of u] same[of y] by simp
    show "u = x" if "x \<in> live (p\<lparr>items := xs\<rparr>)" "u \<in> live (p\<lparr>items := xs\<rparr>)"
      "pair (item (p\<lparr>items := xs\<rparr>) x) = Some y" "pair (item (p\<lparr>items := xs\<rparr>) u) = Some y" for u x y
      using ringsD(2)[OF p(6), of x u y] that same[of u] same[of x] by simp
  qed
  have "pinv {} l (p\<lparr>items := xs\<rparr>)"
  proof (rule pinv_items[OF p(2) _ _ _ _ _ rg])
    show "(buff_data (xs ! u) = None \<or> buff_size (xs ! u) \<noteq> 0) \<and> 0 \<le> buff_size (xs ! u)" if "u \<in> live p" for u
      using pinv_buff[OF p(2) that] f xs[of u] by (simp add: buff_ok_def half_kept_def)
    show "pair (xs ! u) \<noteq> Some l" if "u \<in> live p" for u
      using that p(8) same[of u] by (simp add: listener_def)
    show "(etype (xs ! u) = EV_ACCEPT) = (u = l)" if "u \<in> live p" for u
    proof (cases "u = v")
      case True
      then show ?thesis using dd(7) f xs[of u] by (auto simp: half_kept_def)
    next
      case False
      then show ?thesis using that p(2) xs[of u] by (simp add: pinv_def)
    qed
  qed (use same in \<open>simp_all add: xs_def\<close>)
  moreover have "batch E it pe (p\<lparr>items := xs\<rparr>)" "watch_ok (p\<lparr>items := xs\<rparr>) (hist w)"
    using batch_items[OF p(3), of xs] watch_ok_items[OF p(4,5), of xs] same by (simp_all add: xs_def)
  ultimately show ?thesis
    by (simp add: tbl_def xs_def)
qed

lemma st_side:
  assumes "st l E it pe (\<lambda>p. duo p v q) w" and u: "u = v \<or> u = q"
    and f: "\<And>e. buff_ok e \<Longrightarrow> half (etype e) \<Longrightarrow> half_kept f e"
    and P: "\<And>w'. st l E it pe (\<lambda>p. duo p v q) w' \<Longrightarrow> P w'"
  shows "ensures (set_ev u f w) P"
proof -
  obtain p where t: "tbl {} l E it pe p w" and d: "duo p v q"
    using assms(1) by (auto simp: st_def)
  note dd = duoD[OF t d]
  obtain x where x: "duo p u x"
    using u d duo_sym by blast
  have ul: "u \<in> live p" "half (etype (item p u))"
    using u dd by blast+
  have hk: "half_kept f (item p u)"
    using f pinv_buff[OF tblD(2)[OF t] ul(1)] ul(2) .
  then have "duo (upd_item u f p) v q"
    using duo_upd[OF d u tblD(7)[OF t ul(1)]] by (simp add: half_kept_def)
  then have "st l E it pe (\<lambda>p. duo p v q) (w\<lparr>pool := upd_item u f p\<rparr>)"
    by (intro stI[OF upd_side[OF t x hk]])
  then show ?thesis
    using P tblD(1,7)[OF t] ul(1) by (simp add: ensures_def set_ev_def)
qed
section \<open>The handlers of a tunnel\<close>

abbreviation tun :: "nat \<Rightarrow> nat set \<Rightarrow> u32 \<Rightarrow> (nat \<times> int) list \<Rightarrow> nat \<Rightarrow> nat \<Rightarrow> world \<Rightarrow> bool" where
  "tun l E it pe v q \<equiv> st l E it pe (\<lambda>p. duo p v q)"

definition other :: "nat \<Rightarrow> nat \<Rightarrow> nat \<Rightarrow> nat" where
  "other v q u = (if u = v then q else v)"

lemma duo_side: "duo p v q \<Longrightarrow> u = v \<or> u = q \<Longrightarrow> u \<in> live p \<and> half (etype (item p u)) \<and> pair (item p u) = Some (other v q u)"
  by (auto simp: duo_def other_def)

lemma tun_get:
  assumes "tun l E it pe v q w" and "u = v \<or> u = q"
    and P: "\<And>e. buff_ok e \<Longrightarrow> half (etype e) \<Longrightarrow> pair e = Some (other v q u) \<Longrightarrow> P e"
  shows "ensures (get_ev u w) P"
  using duo_side[OF _ assms(2)] by (intro st_get[OF assms(1)] P) blast+

lemma tun_pair_of:
  assumes "tun l E it pe v q w" and "u = v \<or> u = q"
    and P: "\<And>e. buff_ok e \<Longrightarrow> half (etype e) \<Longrightarrow> P (other v q u, e)"
  shows "ensures (pair_of u w) P"
proof -
  have "other v q u = v \<or> other v q u = q"
    by (simp add: other_def)
  then show ?thesis
    unfolding pair_of_def
    by (intro ensures_bind tun_get[OF assms(1,2)] ensures_any[of "pair e" for e] ensures_Some tun_get[OF assms(1)])
       (auto intro: P)
qed

lemma tun_mod:
  assumes "tun l E it pe v q w" and "u = v \<or> u = q" and "\<And>r w'. tun l E it pe v q w' \<Longrightarrow> P (r, w')"
  shows "ensures (mod_etype k u ty w) P"
  using duo_side[OF _ assms(2)] by (intro st_mod[OF assms(1)] assms(3)) blast+

lemmas tun_rules = tun_get tun_pair_of tun_mod st_side

lemma flush_pending_vc:
  assumes "tun l E it pe v q w" and a: "a = v \<or> a = q" and b: "b = v \<or> b = q"
    and P: "\<And>r w'. tun l E it pe v q w' \<Longrightarrow> P (r, w')"
  shows "ensures (flush_pending k a b ev w) P"
  unfolding flush_pending_def
  by (insert assms(1)) (rule tun_rules cs.calm_vc vc a b P | assumption | simp add: calm_def half_kept_def buff_ok_def)+

lemma rdn_len: "rdn b i n = Some xs \<Longrightarrow> 0 \<le> n"
  by (simp add: rdn_def split: if_split_asm)

lemma keep_unsent_vc:
  assumes "tun l E it pe v q w" and a: "a = v \<or> a = q" and b: "b = v \<or> b = q" and n: "s \<noteq> n" "0 < n"
    and P: "\<And>r w'. tun l E it pe v q w' \<Longrightarrow> P (r, w')"
  shows "ensures (keep_unsent k a b n s w) P"
  unfolding keep_unsent_def
  by (insert assms(1)) (rule tun_rules cs.calm_vc vc a b P | assumption
      | (drule rdn_len)?, use n in \<open>simp add: calm_def half_kept_def buff_ok_def\<close>)+

lemma tunnel_loop_vc:
  assumes "tun l E it pe v q w" and a: "a = v \<or> a = q" and b: "b = v \<or> b = q"
    and P: "\<And>r w'. tun l E it pe v q w' \<Longrightarrow> P (r, w')"
  shows "ensures (tunnel_loop fuel k a b w) P"
  using assms(1)
proof (induction fuel arbitrary: w)
  case (Suc fuel)
  show ?case
    unfolding tunnel_loop.simps
    by (insert Suc.prems) (rule tun_rules cs.calm_vc keep_unsent_vc[OF _ a b] vc a b P Suc.IH | assumption
      | simp add: calm_def half_kept_def buff_ok_def)+
qed (simp add: ensures_def)

text \<open>The two connections as the handlers read them.\<close>

lemma tun_read:
  assumes "tun l E it pe v q w"
  obtains e e' where "get_ev v w = Some e" "get_ev q w = Some e'" "pair e = Some q" "pair e' = Some v"
    "buff_ok e" "buff_ok e'"
proof -
  obtain p where t: "tbl {} l E it pe p w" and d: "duo p v q"
    using assms by (auto simp: st_def)
  then show ?thesis
    using that[of "item p v" "item p q"] tblD(1,7)[OF t] duoD[OF t d] pinv_buff[OF tblD(2)[OF t]]
    by (simp add: get_ev_def)
qed

lemma tun_kept: "tun l E it pe v q w \<Longrightarrow> kept l E it pe v (r, w)"
  by (erule st_kept) (simp add: duo_def)

lemma on_tunnel_vc:
  assumes "tun l E it pe v q w"
  shows "ensures (on_tunnel fuel k v ev w) (kept l E it pe v)"
proof -
  have tail: "ensures (do { (f, w) \<leftarrow> flush_pending k a b ev w;
      case f of Inl r \<Rightarrow> Some (r, w) | Inr _ \<Rightarrow> tunnel_loop fuel k a b w }) (kept l E it pe v)"
    if "a = v \<or> a = q" "b = v \<or> b = q" for a b
    by (insert assms that) (rule flush_pending_vc tunnel_loop_vc vc tun_kept | assumption)+
  obtain e e' where "get_ev v w = Some e" "get_ev q w = Some e'" "pair e = Some q" "pair e' = Some v"
    using tun_read[OF assms] by metis
  then show ?thesis
    unfolding on_tunnel_def using tail[of q v] tail[of v q] by simp
qed

lemma on_connect_vc:
  assumes "tun l E it pe v q w"
  shows "ensures (on_connect k v e w) (kept l E it pe v)"
proof -
  obtain x where x: "get_ev v w = Some x" "pair x = Some q"
    using tun_read[OF assms] by metis
  have o: "other v q v = q"
    by (simp add: other_def)
  show ?thesis
    unfolding on_connect_def x bind.bind_lunit
    by (insert assms) (rule tun_rules cs.calm_vc vc cs.pair_vc cs.I_resp_error tun_kept | assumption
      | simp add: calm_def half_kept_def buff_ok_def)+
qed

lemma to_tunnel_vc:
  assumes "tun l E it pe v q w" and a: "a = v \<or> a = q" and P: "\<And>w'. tun l E it pe v q w' \<Longrightarrow> P w'"
  shows "ensures (to_tunnel a w) P"
proof -
  have o: "other v q a = v \<or> other v q a = q"
    by (simp add: other_def)
  show ?thesis
    unfolding to_tunnel_def
    by (insert assms(1)) (rule tun_rules vc a P | assumption | simp add: half_kept_def buff_ok_def other_def)+
qed

section \<open>The handlers of a blocked connection\<close>

lemma tun_retry: "tun l E it pe v q w \<Longrightarrow> retry l E it pe v q (r, w)"
  by (auto simp: st_def retry_def)

lemma retry_kept: "retry l E it pe v q rw \<Longrightarrow> kept l E it pe v rw"
  by (auto simp: retry_def kept_def duo_def)

lemma tun_reconnect: "tun l E it pe v q w \<Longrightarrow> ensures (reconnect k v m w) (retry l E it pe v q)"
  using reconnect_vc by (auto simp: st_def)

lemma on_torst_vc: "tun l E it pe v q w \<Longrightarrow> ensures (on_torst k v w) (retry l E it pe v q)"
  unfolding on_torst_def
  by (rule tun_rules cs.calm_vc vc tun_reconnect tun_retry ensures_any[of "next_mode t ds m" for t ds m] | assumption
      | simp)+

lemma on_fin_vc: "tun l E it pe v q w \<Longrightarrow> ensures (on_fin k v w) (retry l E it pe v q)"
  unfolding on_fin_def
  by (rule tun_rules cs.calm_vc vc tun_reconnect tun_retry ensures_any[of "next_mode t ds m" for t ds m] | assumption
      | simp)+

lemma on_response_vc: "tun l E it pe v q w \<Longrightarrow> ensures (on_response k v resp sn w) (retry l E it pe v q)"
  unfolding on_response_def
  by (rule tun_rules cs.calm_vc vc tun_reconnect tun_retry ensures_any[of "next_mode t ds m" for t ds m] | assumption
      | simp)+

lemma on_tunnel_check_vc:
  assumes "tun l E it pe v q w"
  shows "ensures (on_tunnel_check k v out' w) (kept l E it pe v)"
proof -
  have resp: "ensures (on_response k v resp sn w) P"
    if t: "tun l E it pe v q w" and z: "\<And>w'. kept l E it pe v (0, w') \<Longrightarrow> P (0, w')"
      and nz: "\<And>r w'. r \<noteq> 0 \<Longrightarrow> tun l E it pe v q w' \<Longrightarrow> P (r, w')" for resp sn w and P :: "int \<times> world \<Rightarrow> bool"
  proof (rule ensures_mono[OF on_response_vc[OF t]])
    show "P x" if "retry l E it pe v q x" for x
      using that z nz by (cases x; cases "fst x = 0") (auto simp: retry_def st_def kept_def)
  qed
  have o: "other v q v = v \<or> other v q v = q"
    by (simp add: other_def)
  show ?thesis
    unfolding on_tunnel_check_def
    by (insert assms) (assumption | erule notE, rule refl | rule tun_rules resp cs.calm_vc to_tunnel_vc[OF _ o] vc tun_kept
        cs.pair_vc cs.I_snd_if cs.I_set_timeout
        ensures_mono[OF on_torst_vc retry_kept] ensures_mono[OF on_fin_vc retry_kept]
      | simp add: calm_def half_kept_def buff_ok_def)+
qed

lemma ensures_ptr: "pair e = Some y \<Longrightarrow> P y \<Longrightarrow> ensures (pair e) P"
  by (simp add: ensures_def)

lemma on_desync_again_vc:
  assumes "tun l E it pe v q w"
  shows "ensures (on_desync_again k v w) (kept l E it pe v)"
proof -
  have o: "other v q v = v \<or> other v q v = q" "other v q (other v q v) = v \<or> other v q (other v q v) = q" "v = v \<or> v = q"
    by (simp_all add: other_def)
  show ?thesis
    unfolding on_desync_again_def
    by (insert assms) (assumption | rule o tun_rules ensures_ptr cs.calm_vc vc tun_kept cs.pair_vc cs.I_snd_if cs.I_set_timeout cs.I_buf
      | simp add: calm_def half_kept_def buff_ok_def)+
qed

lemma on_desync_vc:
  assumes "tun l E it pe v q w"
  shows "ensures (on_desync k v out' w) (kept l E it pe v)"
proof -
  have o: "v = v \<or> v = q"
    by simp
  show ?thesis
    unfolding on_desync_def
    by (insert assms) (assumption | rule o tun_rules cs.calm_vc to_tunnel_vc[OF _ o] on_desync_again_vc vc tun_kept
        ensures_any[of "pick_mode d e ds m" for d e ds m]
      | simp add: calm_def half_kept_def buff_ok_def)+
qed
section \<open>Requests\<close>

lemma st_add:
  assumes "st l E it pe Q w" and ty: "ty = EV_REQUEST \<or> ty = EV_UDP_TUNNEL"
    and none: "\<And>p p'. pinv {} l p \<Longrightarrow> Q p \<Longrightarrow> live p' = live p \<Longrightarrow> \<forall>u \<in> live p. item p' u = item p u \<Longrightarrow> Q p'"
    and some: "\<And>p p' v. pinv {} l p \<Longrightarrow> Q p \<Longrightarrow> v \<notin> live p \<Longrightarrow> live p' = insert v (live p)
        \<Longrightarrow> \<forall>u \<in> live p. item p' u = item p u \<Longrightarrow> item p' v = new_eval p ty f \<Longrightarrow> R v p'"
    and PN: "\<And>w'. st l E it pe Q w' \<Longrightarrow> P (None, w')" and PS: "\<And>v w'. st l E it pe (R v) w' \<Longrightarrow> P (Some v, w')"
  shows "ensures (add_event k ty f e w) P"
proof -
  obtain p where t: "tbl {} l E it pe p w" and q: "Q p"
    using assms(1) by (auto simp: st_def)
  have ty': "ty \<noteq> EV_ACCEPT" "\<not> tcp ty"
    using ty by auto
  show ?thesis
  proof (rule add_event_vc[OF t ty'(1)])
    show "P (None, w')" if "tbl {} l E it pe p' w'" "live p' = live p" "\<forall>u \<in> live p. item p' u = item p u" for w' p'
      using PN stI[where Q = Q, OF that(1) none[OF tblD(2)[OF t] q that(2,3)]] by simp
    show "P (Some v, w')" if g: "tbl (insert v {}) l E it pe p' w'" "v \<notin> live p" "live p' = insert v (live p)"
      "\<forall>u \<in> live p. item p' u = item p u" "item p' v = new_eval p ty f" for v w' p'
    proof -
      have "tbl {} l E it pe p' w'"
        using tbl_single[OF g(1)] g(5) ty'(2) by (simp add: new_eval_def empty_eval_def)
      then show ?thesis
        using PS stI[where Q = "R v", OF _ some[OF tblD(2)[OF t] q g(2-5)]] by simp
    qed
  qed
qed

lemma st_del:
  assumes "st l E it pe Q w"
    and v: "\<And>p. pinv {} l p \<Longrightarrow> Q p \<Longrightarrow> v \<in> live p \<and> v \<noteq> l \<and> pair (item p v) = None"
    and R: "\<And>p p'. pinv {} l p \<Longrightarrow> Q p \<Longrightarrow> live p' = live p - {v}
        \<Longrightarrow> \<forall>u \<in> live p'. ev_kept (item p u) (item p' u) \<and> pair (item p' u) = pair (item p u) \<Longrightarrow> R p'"
    and P: "\<And>w'. st l E it pe R w' \<Longrightarrow> P w'"
  shows "ensures (del_event k v w) P"
proof -
  obtain p where t: "tbl {} l E it pe p w" and q: "Q p"
    using assms(1) by (auto simp: st_def)
  note vv = v[OF tblD(2)[OF t] q]
  show ?thesis
  proof (rule del_event_vc[OF t])
    show "P w'" if g: "tbl {} l E it pe p' w'"
      "\<forall>u \<in> live p'. ev_kept (item p u) (item p' u) \<and> pair (item p' u) = pair (item p u)"
      "pair (item p v) = None \<longrightarrow> live p' = live p - {v}" for w' p'
    proof -
      have "R p'"
        using R[OF tblD(2)[OF t] q _ g(2)] g(3) vv by simp
      then show ?thesis
        using P stI[OF g(1)] by simp
    qed
  qed (use vv in simp_all)
qed

definition req :: "nat \<Rightarrow> poolhd \<Rightarrow> bool" where
  "req val p \<longleftrightarrow> val \<in> live p \<and> etype (item p val) = EV_REQUEST"

lemma reqD: "pinv {} l p \<Longrightarrow> req val p \<Longrightarrow> val \<in> live p \<and> val \<noteq> l \<and> pair (item p val) = None"
  using ringsD(4)[of "{}" p val] by (auto simp: req_def pinv_def)

definition single :: "nat \<Rightarrow> nat \<Rightarrow> poolhd \<Rightarrow> bool" where
  "single val q p \<longleftrightarrow> req val p \<and> q \<in> live p \<and> q \<noteq> val \<and> etype (item p q) = EV_UDP_TUNNEL \<and> pair (item p q) = None"

lemma singleD: "pinv {} l p \<Longrightarrow> single val q p \<Longrightarrow> q \<in> live p \<and> q \<noteq> l \<and> pair (item p q) = None"
  by (auto simp: single_def pinv_def)

lemma req_create_conn:
  assumes "st l E it pe (req val) w" and "tcp next"
    and P0: "\<And>w'. st l E it pe (\<lambda>p. True) w' \<Longrightarrow> P (0, w')"
    and P1: "\<And>r w'. r \<noteq> 0 \<Longrightarrow> st l E it pe (\<lambda>p. val \<in> live p) w' \<Longrightarrow> P (r, w')"
  shows "ensures (create_conn k val dst next w) P"
proof -
  obtain p where t: "tbl {} l E it pe p w" and q: "req val p"
    using assms(1) by (auto simp: st_def)
  note r = reqD[OF tblD(2)[OF t] q]
  show ?thesis
  proof (rule create_conn_vc[OF t])
    show "P (r, w')" if "tbl {} l E it pe p' w'" "r \<noteq> 0" "live p' = live p" for r w' p'
      using P1[OF that(2)] stI[OF that(1)] r that(3) by simp
    show "P (0, w')" if "tbl {u. pair (item p val) = Some u} l E it pe p' w'" for w' p'
      using P0 stI[of l E it pe p' w' "\<lambda>p. True"] that r by simp
  qed (use r assms(2) in blast)+
qed

lemma connect_hook_vc:
  assumes "st l E it pe (req val) w" and "tcp next"
    and P0: "\<And>w'. st l E it pe (\<lambda>p. True) w' \<Longrightarrow> P (0, w')"
    and P1: "\<And>r w'. r \<noteq> 0 \<Longrightarrow> st l E it pe (\<lambda>p. val \<in> live p) w' \<Longrightarrow> P (r, w')"
  shows "ensures (connect_hook k val dst next w) P"
proof -
  have set: "ensures (set_ev val (\<lambda>x. x\<lparr>cache := a, attempt := b\<rparr>) w) P"
    if "st l E it pe (req val) w" "\<And>w'. st l E it pe (req val) w' \<Longrightarrow> P w'" for w a b and P :: "world \<Rightarrow> bool"
    by (rule st_set[OF that(1) _ _ _ that(2), where R = "req val"]) (auto simp: req_def harmless_def buff_ok_def)
  show ?thesis
    unfolding connect_hook_def
    by (insert assms(1)) (assumption | rule cs.calm_vc set req_create_conn[OF _ assms(2)] P0 P1 vc)+
qed
lemma del_single:
  assumes "st l E it pe (single val q) w" and "\<And>w'. st l E it pe (req val) w' \<Longrightarrow> P w'"
  shows "ensures (del_event k q w) P"
proof (rule st_del[OF assms(1) singleD _ assms(2)])
  show "req val p'" if "single val q p" "live p' = live p - {q}"
    "\<forall>u \<in> live p'. ev_kept (item p u) (item p' u) \<and> pair (item p' u) = pair (item p u)" for p p'
    using that ev_keptD(5)[of "item p val" "item p' val"] by (auto simp: single_def req_def)
qed

lemma udp_remote_vc:
  assumes "st l E it pe (req val) w"
    and PN: "\<And>w'. st l E it pe (req val) w' \<Longrightarrow> P (None, w')"
    and PS: "\<And>q u w'. st l E it pe (single val q) w' \<Longrightarrow> P (Some (q, u), w')"
  shows "ensures (udp_remote k dst w) P"
proof -
  have add: "ensures (add_event k EV_UDP_TUNNEL f e w) P"
    if "st l E it pe (req val) w" "\<And>w'. st l E it pe (req val) w' \<Longrightarrow> P (None, w')"
      "\<And>v w'. st l E it pe (single val v) w' \<Longrightarrow> P (Some v, w')" for f e w and P :: "nat option \<times> world \<Rightarrow> bool"
    by (rule st_add[OF that(1) _ _ _ that(2,3)])
       (auto simp: req_def single_def new_eval_def empty_eval_def)
  have set: "ensures (set_ev q (\<lambda>x. x\<lparr>in6 := a\<rparr>) w) P"
    if "st l E it pe (single val q) w" "\<And>w'. st l E it pe (single val q) w' \<Longrightarrow> P w'" for q w a and P :: "world \<Rightarrow> bool"
    by (rule st_set[OF that(1) _ _ _ that(2), where R = "single val q"])
       (auto simp: req_def single_def harmless_def buff_ok_def)
  show ?thesis
    unfolding udp_remote_def
    by (insert assms(1)) (assumption | rule add del_single set cs.calm_vc vc PN PS cs.pair_vc cs.I_nb_socket cs.I_opt_sockopt cs.I_sys
      | simp add: calm_def)+
qed

text \<open>Three single connections become a ring.\<close>

lemma ring3:
  assumes t: "tbl {} l E it pe p w" and s: "single val q p" "single val c p" "c \<noteq> q"
    and len: "length xs = length (items p)"
    and xs: "\<And>u. xs ! u = (if u = val then (item p val)\<lparr>etype := EV_IGNORE, pair := Some c\<rparr>
        else if u = c then (item p c)\<lparr>pair := Some q, flag := fl, in6 := a\<rparr>
        else if u = q then (item p q)\<lparr>pair := Some val\<rparr> else item p u)"
  shows "tbl {} l E it pe (p\<lparr>items := xs\<rparr>) (w\<lparr>pool := p\<lparr>items := xs\<rparr>\<rparr>)"
proof -
  note p = tblD[OF t]
  have nv: "val \<in> live p" "val \<noteq> l" "pair (item p val) = None" "q \<in> live p" "q \<noteq> l" "pair (item p q) = None"
      "c \<in> live p" "c \<noteq> l" "pair (item p c) = None" "q \<noteq> val" "c \<noteq> val"
      "etype (item p q) = EV_UDP_TUNNEL" "etype (item p c) = EV_UDP_TUNNEL"
    using reqD[OF p(2), of val] singleD[OF p(2) s(1)] singleD[OF p(2) s(2)] s by (simp_all add: single_def)
  define V where "V = {val, c, q}"
  have pairs: "pair (xs ! u) = (if u = val then Some c else if u = c then Some q else if u = q then Some val else pair (item p u))" for u
    using xs[of u] by simp
  have types: "etype (xs ! u) = (if u = val then EV_IGNORE else etype (item p u))" for u
    using xs[of u] by simp
  have bufs: "buff_size (xs ! u) = buff_size (item p u)" "buff_data (xs ! u) = buff_data (item p u)" for u
    using xs[of u] by simp_all
  have out: "pair (item p u) \<noteq> Some y" if "u \<in> live p" "y \<in> V" for u y
    using ringsD(1)[OF p(6) that(1), of y] that(2) nv(3,6,9) by (auto simp: V_def)
  have rg: "rings {} (p\<lparr>items := xs\<rparr>)"
  proof (rule ringsI)
    fix u y
    assume u: "u \<in> live (p\<lparr>items := xs\<rparr>)" "pair (item (p\<lparr>items := xs\<rparr>) u) = Some y"
    show "y \<in> live (p\<lparr>items := xs\<rparr>) \<and> y \<noteq> u \<and> pair (item (p\<lparr>items := xs\<rparr>) y) \<noteq> None"
    proof (cases "u \<in> V")
      case True
      then show ?thesis
        using u pairs[of u] pairs[of y] nv s(3) by (auto simp: V_def)
    next
      case False
      then have "pair (item p u) = Some y" "y \<notin> V"
        using u pairs[of u] out[of u y] by (auto simp: V_def)
      then show ?thesis
        using ringsD(1)[OF p(6), of u y] u(1) pairs[of y] by (auto simp: V_def)
    qed
  next
    fix u x y
    assume a: "x \<in> live (p\<lparr>items := xs\<rparr>)" "u \<in> live (p\<lparr>items := xs\<rparr>)"
      "pair (item (p\<lparr>items := xs\<rparr>) x) = Some y" "pair (item (p\<lparr>items := xs\<rparr>) u) = Some y"
    have yV: "y \<in> V \<longleftrightarrow> z \<in> V" if "z \<in> live p" "pair (xs ! z) = Some y" for z
      using that pairs[of z] out[of z y] by (auto simp: V_def split: if_split_asm)
    have "u \<in> V \<longleftrightarrow> x \<in> V"
      using yV[of u] yV[of x] a by simp
    then show "u = x"
      using a pairs[of u] pairs[of x] nv(10,11) s(3) ringsD(2)[OF p(6), of x u y] by (auto simp: V_def split: if_split_asm)
  next
    fix u
    assume u: "u \<in> live (p\<lparr>items := xs\<rparr>)" "tcp (etype (item (p\<lparr>items := xs\<rparr>) u))"
    then have "u \<notin> V"
      using types[of u] nv(12,13) by (auto simp: V_def split: if_split_asm)
    then obtain y where y: "duo p u y"
      using ringsD(3)[OF p(6), of u] u types[of u] by (auto simp: V_def)
    then have "y \<notin> V"
      using out[of u y] by (auto simp: duo_def)
    then show "\<exists>y. duo (p\<lparr>items := xs\<rparr>) u y"
      using y \<open>u \<notin> V\<close> xs[of u] xs[of y] by (intro exI[of _ y]) (simp add: duo_def V_def)
  next
    fix u
    assume u: "u \<in> live (p\<lparr>items := xs\<rparr>)" "etype (item (p\<lparr>items := xs\<rparr>) u) = EV_REQUEST"
    then have "u \<notin> V"
      using types[of u] nv(12,13) by (auto simp: V_def split: if_split_asm)
    then show "pair (item (p\<lparr>items := xs\<rparr>) u) = None"
      using ringsD(4)[OF p(6), of u] u types[of u] pairs[of u] by (simp add: V_def)
  qed
  have "pinv {} l (p\<lparr>items := xs\<rparr>)"
  proof (rule pinv_items[OF p(2) len _ _ _ _ rg])
    show "(buff_data (xs ! u) = None \<or> buff_size (xs ! u) \<noteq> 0) \<and> 0 \<le> buff_size (xs ! u)" if "u \<in> live p" for u
      using pinv_buff[OF p(2) that] bufs[of u] by (simp add: buff_ok_def)
    show "pair (xs ! u) \<noteq> Some l" if "u \<in> live p" for u
      using that p(8) pairs[of u] nv by (simp add: listener_def)
    show "(etype (xs ! u) = EV_ACCEPT) = (u = l)" if "u \<in> live p" for u
      using that p(2) types[of u] nv(2) by (cases "u = val") (simp_all add: pinv_def)
  qed (use xs in simp_all)
  moreover have "batch E it pe (p\<lparr>items := xs\<rparr>)" "watch_ok (p\<lparr>items := xs\<rparr>) (hist w)"
    using batch_items[OF p(3) len] watch_ok_items[OF p(4,5), of xs] xs by simp_all
  ultimately show ?thesis
    by (simp add: tbl_def)
qed
lemma ring3_vc:
  assumes "st l E it pe (\<lambda>p. single val q p \<and> single val c p \<and> c \<noteq> q) w"
    and P: "\<And>v w'. st l E it pe (\<lambda>p. val \<in> live p) w' \<Longrightarrow> ensures (g v w') P"
  shows "ensures (do {
      w \<leftarrow> set_ev val (\<lambda>x. x\<lparr>etype := EV_IGNORE, pair := Some c\<rparr>) w;
      v \<leftarrow> get_ev val w;
      w \<leftarrow> set_ev c (\<lambda>x. x\<lparr>pair := Some q\<rparr>) w;
      w \<leftarrow> set_ev q (\<lambda>x. x\<lparr>pair := Some val\<rparr>) w;
      w \<leftarrow> set_ev c (\<lambda>x. x\<lparr>flag := FLAG_CONN, in6 := set_port 0 0 (in6 v)\<rparr>) w;
      g v w }) P"
proof -
  obtain p where t: "tbl {} l E it pe p w" and s: "single val q p" "single val c p" "c \<noteq> q"
    using assms(1) by (auto simp: st_def)
  note p = tblD[OF t]
  define ev where "ev = (item p val)\<lparr>etype := EV_IGNORE, pair := Some c\<rparr>"
  define ec where "ec = (item p c)\<lparr>pair := Some q, flag := FLAG_CONN, in6 := set_port 0 0 (in6 (item p val))\<rparr>"
  define eq where "eq = (item p q)\<lparr>pair := Some val\<rparr>"
  define xs where "xs = (items p)[val := ev, c := ec, q := eq]"
  define w1 where "w1 = w\<lparr>pool := p\<lparr>items := xs\<rparr>\<rparr>"
  have ne: "val \<noteq> c" "val \<noteq> q" "c \<noteq> q" "val < length (items p)" "c < length (items p)" "q < length (items p)" "val \<in> live p"
    using s p(7) by (auto simp: single_def req_def)
  have lx: "length xs = length (items p)"
    by (simp add: xs_def)
  have nth: "xs ! u = (if u = val then (item p val)\<lparr>etype := EV_IGNORE, pair := Some c\<rparr>
        else if u = c then (item p c)\<lparr>pair := Some q, flag := FLAG_CONN, in6 := set_port 0 0 (in6 (item p val))\<rparr>
        else if u = q then (item p q)\<lparr>pair := Some val\<rparr> else item p u)" for u
    using ne by (auto simp: xs_def nth_list_update ev_def ec_def eq_def)
  have "tbl {} l E it pe (p\<lparr>items := xs\<rparr>) w1"
    unfolding w1_def by (rule ring3[OF t s lx nth])
  then have "st l E it pe (\<lambda>p. val \<in> live p) w1"
    using stI[where Q = "\<lambda>p. val \<in> live p"] ne(7) by simp
  moreover have "(items p)[val := ev, c := (item p c)\<lparr>pair := Some q\<rparr>, q := eq, c := ec] = xs"
    using ne by (simp add: xs_def list_update_swap[of c q])
  ultimately show ?thesis
    using P ne p(1) by (simp add: set_ev_def get_ev_def w1_def ev_def ec_def eq_def)
qed

lemma udp_associate_vc:
  assumes "st l E it pe (req val) w"
    and P0: "\<And>w'. st l E it pe (\<lambda>p. val \<in> live p) w' \<Longrightarrow> P (0, w')"
    and P1: "\<And>r w'. r \<noteq> 0 \<Longrightarrow> st l E it pe (\<lambda>p. val \<in> live p) w' \<Longrightarrow> P (r, w')"
  shows "ensures (udp_associate k val dst w) P"
proof -
  have PM: "P (- 1, w')" if "st l E it pe (\<lambda>p. val \<in> live p) w'" for w'
    using P1[OF _ that] by simp
  have PI: "P (if m \<noteq> 0 then - 1 else 0, w')" if "st l E it pe (\<lambda>p. val \<in> live p) w'" for w' and m :: int
    using that P0 PM by simp
  have PQ: "P (- 1, w')" if "st l E it pe (req val) w'" for w'
    by (rule PM, rule st_mono[OF that]) (simp add: req_def)
  have PU: "P (- 1, w')" if "st l E it pe (single val q) w'" for w' q
    by (rule PM, rule st_mono[OF that]) (simp add: req_def single_def)
  have add: "ensures (add_event k EV_UDP_TUNNEL f e w \<bind> (\<lambda>(client, w). client \<bind> (\<lambda>c. g c w))) P"
    if "st l E it pe (single val q) w"
      "\<And>c w'. st l E it pe (\<lambda>p. single val q p \<and> single val c p \<and> c \<noteq> q) w' \<Longrightarrow> ensures (g c w') P"
    for f e w q g and P :: "int \<times> world \<Rightarrow> bool"
  proof (rule ensures_bind, rule st_add[OF that(1), where R = "\<lambda>c p. single val q p \<and> single val c p \<and> c \<noteq> q"])
    show "ensures (case (Some v, w') of (client, w) \<Rightarrow> client \<bind> (\<lambda>c. g c w)) P"
      if "st l E it pe (\<lambda>p. single val q p \<and> single val v p \<and> v \<noteq> q) w'" for v w'
      using that \<open>\<And>c w'. _ \<Longrightarrow> ensures (g c w') P\<close> by simp
  qed (auto simp: single_def req_def new_eval_def empty_eval_def ensures_def)
  have liv: "st l E it pe (\<lambda>p. val \<in> live p) w' \<Longrightarrow> ensures (mod_etype k val ty w') Q"
    if "\<And>r w'. st l E it pe (\<lambda>p. val \<in> live p) w' \<Longrightarrow> Q (r, w')" for w' ty Q
    using that by (intro st_mod) auto
  show ?thesis
    unfolding udp_associate_def
    by (insert assms(1)) (assumption | rule udp_remote_vc liv del_single add ring3_vc PI PM PQ PU cs.calm_vc vc
        cs.pair_vc cs.I_nb_socket cs.I_sys ensures_prod
      | simp add: calm_def)+
qed
lemma st_set_live:
  assumes "st l E it pe (\<lambda>p. val \<in> live p) w" and "\<And>e. buff_ok e \<Longrightarrow> harmless f e"
    and "\<And>w'. st l E it pe (\<lambda>p. val \<in> live p) w' \<Longrightarrow> P w'"
  shows "ensures (set_ev val f w) P"
  by (rule st_set[OF assms(1) _ assms(2) _ assms(3)]) simp_all

lemma st_set_req:
  assumes "st l E it pe (req val) w" and "\<And>e. buff_ok e \<Longrightarrow> harmless f e"
    and "\<And>w'. st l E it pe (req val) w' \<Longrightarrow> P w'"
  shows "ensures (set_ev val f w) P"
proof (rule st_set[OF assms(1) _ assms(2) _ assms(3)])
  show "req val (upd_item val f p)" if "pinv {} l p" "req val p" "val < length (items p)" for p
    using that assms(2)[OF pinv_buff[OF that(1)], of val] by (simp add: req_def harmless_def)
qed (simp add: req_def)

lemma on_request_vc:
  assumes "st l E it pe (req val) w"
  shows "ensures (on_request k val w) (kept l E it pe val)"
proof -
  have K: "kept l E it pe val (r, w')" if "st l E it pe (req val) w'" for r w'
    using that by (rule st_kept) (simp add: req_def)
  have K0: "kept l E it pe val (0, w')" if "st l E it pe Q w'" for Q w'
    using that by (auto simp: st_def kept_def)
  have KL: "kept l E it pe val (r, w')" if "st l E it pe (\<lambda>p. val \<in> live p) w'" for r w'
    using that by (rule st_kept)
  have tcp: "tcp EV_CONNECT"
    by simp
  show ?thesis
    unfolding on_request_def
    by (insert assms) (assumption | erule (1) notE | rule K K0 KL connect_hook_vc[OF _ tcp] udp_associate_vc st_set_req cs.calm_vc vc
        cs.pair_vc cs.I_resp_error cs.I_resp_s5_error cs.I_buf
      | simp add: calm_def harmless_def buff_ok_def)+
qed
abbreviation any :: "nat \<Rightarrow> nat set \<Rightarrow> u32 \<Rightarrow> (nat \<times> int) list \<Rightarrow> world \<Rightarrow> bool" where
  "any l E it pe \<equiv> st l E it pe (\<lambda>p. True)"

lemma st_any: "st l E it pe Q w \<Longrightarrow> any l E it pe w"
  by (auto simp: st_def)

lemma on_accept_vc:
  assumes "any l E it pe w"
  shows "ensures (on_accept n k val w) (\<lambda>(r, w'). any l E it pe w')"
  using assms
proof (induction n arbitrary: w)
  case (Suc n)
  have add: "ensures (add_event k EV_REQUEST f e w) P"
    if "any l E it pe w" "\<And>w'. any l E it pe w' \<Longrightarrow> P (None, w')" "\<And>v w'. st l E it pe (\<lambda>p. v \<in> live p) w' \<Longrightarrow> P (Some v, w')"
    for f e w and P :: "nat option \<times> world \<Rightarrow> bool"
    by (rule st_add[OF that(1) _ _ _ that(2,3)]) auto
  have fin: "case (r, w') of (r, w') \<Rightarrow> any l E it pe w'" if "any l E it pe w'" for r :: int and w'
    using that by simp
  have set: "ensures (set_ev v (\<lambda>x. x\<lparr>in6 := a\<rparr>) w) P"
    if "st l E it pe (\<lambda>p. v \<in> live p) w" "\<And>w'. any l E it pe w' \<Longrightarrow> P w'" for v a w and P :: "world \<Rightarrow> bool"
    by (rule st_set_live[OF that(1)]) (auto simp: harmless_def buff_ok_def intro: that(2) st_any)
  show ?case
    unfolding on_accept.simps
    by (insert Suc.prems) (assumption | rule add set Suc.IH fin cs.calm_vc vc cs.I_sys | simp add: calm_def)+
qed (simp add: ensures_def)

section \<open>The handlers of a UDP association\<close>

definition udp :: "nat \<Rightarrow> nat option \<Rightarrow> poolhd \<Rightarrow> bool" where
  "udp val po p \<longleftrightarrow> val \<in> live p \<and> pair (item p val) = po"

lemma udp_get:
  assumes "st l E it pe (udp val po) w" and "\<And>e. pair e = po \<Longrightarrow> P e"
  shows "ensures (get_ev val w) P"
  by (rule st_get[OF assms(1)]) (auto simp: udp_def intro: assms(2))

lemma udp_set:
  assumes "st l E it pe (udp val po) w" and v: "v = val \<or> po = Some v" and f: "\<And>e. buff_ok e \<Longrightarrow> harmless f e"
    and "\<And>w'. st l E it pe (udp val po) w' \<Longrightarrow> P w'"
  shows "ensures (set_ev v f w) P"
proof (rule st_set[OF assms(1) _ f _ assms(4)])
  show vl: "v \<in> live p" if "pinv {} l p" "udp val po p" for p
    using that v ringsD(1)[of "{}" p val v] by (auto simp: udp_def pinv_def)
  show "udp val po (upd_item v f p)" if "pinv {} l p" "udp val po p" "v < length (items p)" for p
    using that f[OF pinv_buff[OF that(1) vl[OF that(1,2)]]] by (cases "v = val") (auto simp: udp_def harmless_def)
qed

lemma udp_from_client_vc:
  assumes "st l E it pe (udp val po) w" and P: "\<And>r w'. st l E it pe (udp val po) w' \<Longrightarrow> P (r, w')"
  shows "ensures (udp_from_client k val addr n w) P"
proof -
  have ptr: "ensures (pair e) Q" if "pair e = po" "\<And>q. po = Some q \<Longrightarrow> Q q" for e and Q :: "nat \<Rightarrow> bool"
    using that by (simp add: ensures_def)
  show ?thesis
    unfolding udp_from_client_def
    by (insert assms(1)) (assumption | rule P udp_get udp_set ptr cs.calm_vc vc cs.pair_vc cs.I_snd_if cs.I_snd_case cs.I_sys ensures_prod
      | simp add: calm_def harmless_def buff_ok_def)+
qed

lemma udp_from_server_vc:
  assumes "st l E it pe (udp val po) w" and P: "\<And>r w'. st l E it pe (udp val po) w' \<Longrightarrow> P (r, w')"
  shows "ensures (udp_from_server k val addr n w) P"
  unfolding udp_from_server_def
  by (insert assms(1)) (assumption | rule P cs.calm_vc vc cs.I_buf ensures_prod | simp add: calm_def)+

lemma on_udp_tunnel_vc:
  assumes "st l E it pe (udp val po) w"
  shows "ensures (on_udp_tunnel fuel k val w) (kept l E it pe val)"
  using assms
proof (induction fuel arbitrary: w)
  case (Suc fuel)
  have K: "kept l E it pe val (r, w')" if "st l E it pe (udp val po) w'" for r w'
    using that by (rule st_kept) (simp add: udp_def)
  have self: "val = val \<or> po = Some val"
    by simp
  show ?case
    unfolding on_udp_tunnel.simps
    by (insert Suc.prems) (assumption | rule self K udp_get udp_set udp_from_client_vc udp_from_server_vc Suc.IH cs.calm_vc vc
      | simp add: calm_def harmless_def buff_ok_def)+
qed (simp add: ensures_def)

end
