(* ===== verification/Invariant.thy ===== *)
theory Invariant
  imports Handlers
begin

text \<open>
  The event loop of \<open>byedpi/proxy.c\<close> as a step relation, and what holds in every state it
  reaches: the handlers of \<open>Handlers\<close> keep the table in order, \<open>next_event\<close> hands out events of
  live connections only, and the loop of the program is a run of the relation.
\<close>

section \<open>The event loop\<close>

lemma close_vc:
  assumes "st l E it pe (\<lambda>p. val \<in> live p) w" and "val \<noteq> l"
  shows "ensures (close_conn k val w) (any l E it pe)"
proof -
  obtain p where t: "tbl {} l E it pe p w" and v: "val \<in> live p"
    using assms(1) by (auto simp: st_def)
  show ?thesis
    unfolding close_conn_def by (rule del_event_vc[OF t v assms(2)]) (auto intro: stI)
qed

lemma close_if_vc:
  assumes "kept l E it pe val rw" and "val \<noteq> l"
  shows "ensures (close_if k val rw) (any l E it pe)"
proof (cases "fst rw = 0")
  case True
  then show ?thesis
    using assms(1) by (auto simp: close_if_def kept_def ensures_def st_def)
next
  case False
  then have "st l E it pe (\<lambda>p. val \<in> live p) (snd rw)"
    using assms(1) by (auto simp: kept_def st_def)
  then show ?thesis
    using False close_vc[OF _ assms(2)] by (simp add: close_if_def)
qed

lemma handle_vc:
  assumes "ensures m (kept l E it pe val)" and "val \<noteq> l"
  shows "ensures (m \<bind> close_if k val) (any l E it pe)"
  by (rule ensures_bind, rule ensures_mono[OF assms(1)], rule close_if_vc[OF _ assms(2)])

text \<open>One event of a live connection.\<close>

lemma dispatch_vc:
  assumes "st l E it pe (\<lambda>p. val \<in> live p) w"
  shows "ensures (dispatch fuel k val ev w) (any l E it pe)"
proof -
  obtain p where t: "tbl {} l E it pe p w" and v: "val \<in> live p"
    using assms by (auto simp: st_def)
  note p = tblD[OF t]
  define e where "e = item p val"
  have get: "get_ev val w = Some e"
    using p(1,7) v by (simp add: get_ev_def e_def)
  have any: "any l E it pe w" "any l E it pe (w\<lparr>not_exit := False\<rparr>)"
    using stI[OF t, of "\<lambda>p. True"] by auto
  have nl: "val \<noteq> l" if "etype e \<noteq> EV_ACCEPT"
    using p(2) v that by (auto simp: pinv_def e_def)
  have tun: "\<exists>q. tun l E it pe val q w" if "tcp (etype e)"
  proof -
    obtain q where "duo p val q"
      using ringsD(3)[OF p(6) v] \<open>tcp (etype e)\<close> by (auto simp: e_def)
    then show ?thesis
      using stI[where Q = "\<lambda>p. duo p val q", OF t] by blast
  qed
  note cls = close_vc[OF assms nl]
  show ?thesis
  proof (cases "etype e")
    case EV_ACCEPT
    then show ?thesis
      unfolding dispatch_def get bind.bind_lunit
      using any on_accept_vc[OF any(1), of fuel k val] by (auto simp: ensures_def bind_eq_Some_conv split: if_split_asm)
  next
    case EV_REQUEST
    then have "st l E it pe (req val) w"
      using stI[OF t, of "req val"] v by (simp add: req_def e_def)
    then show ?thesis
      unfolding dispatch_def get bind.bind_lunit using EV_REQUEST cls nl by (simp add: handle_vc[OF on_request_vc])
  next
    case EV_CONNECT
    then show ?thesis
      unfolding dispatch_def get bind.bind_lunit using tun nl by (auto intro: handle_vc[OF on_connect_vc])
  next
    case EV_IGNORE
    then show ?thesis
      unfolding dispatch_def get bind.bind_lunit using cls any by (simp add: ensures_Some)
  next
    case EV_TUNNEL
    then show ?thesis
      unfolding dispatch_def get bind.bind_lunit using tun nl by (auto intro: handle_vc[OF on_tunnel_vc])
  next
    case EV_PRE_TUNNEL
    then show ?thesis
      unfolding dispatch_def get bind.bind_lunit using tun nl by (auto intro: handle_vc[OF on_tunnel_check_vc])
  next
    case EV_UDP_TUNNEL
    have "st l E it pe (udp val (pair e)) w"
      using stI[OF t, of "udp val (pair e)"] v by (simp add: udp_def e_def)
    then show ?thesis
      unfolding dispatch_def get bind.bind_lunit using EV_UDP_TUNNEL nl by (simp add: handle_vc[OF on_udp_tunnel_vc])
  next
    case EV_DESYNC
    then show ?thesis
      unfolding dispatch_def get bind.bind_lunit using tun nl by (auto intro: handle_vc[OF on_desync_vc])
  qed
qed

text \<open>
  What \<open>epoll_wait\<close> promises: at most as many events as it reports, each with the data that
  is registered for a descriptor.
\<close>

definition epoll_contract :: "kernel \<Rightarrow> bool" where
  "epoll_contract k \<longleftrightarrow> (\<forall>h n. ret (k h (Epoll_wait n)) \<le> int (length (evs (k h (Epoll_wait n))))
     \<and> (\<forall>(v, ty) \<in> set (evs (k h (Epoll_wait n))). v \<in> ran (watched h)))"

lemma epoll_contractD:
  assumes "epoll_contract k"
  shows "ret (k h (Epoll_wait n)) \<le> int (length (evs (k h (Epoll_wait n))))"
    and "(v, ty) \<in> set (evs (k h (Epoll_wait n))) \<Longrightarrow> v \<in> ran (watched h)"
proof -
  have c: "ret (k h (Epoll_wait n)) \<le> int (length (evs (k h (Epoll_wait n))))
     \<and> (\<forall>(v, ty) \<in> set (evs (k h (Epoll_wait n))). v \<in> ran (watched h))"
    using assms unfolding epoll_contract_def by (elim allE)
  then show "ret (k h (Epoll_wait n)) \<le> int (length (evs (k h (Epoll_wait n))))" ..
  show "v \<in> ran (watched h)" if "(v, ty) \<in> set (evs (k h (Epoll_wait n)))"
    using bspec[OF conjunct2[OF c] that] by simp
qed

text \<open>The invariant of the loop at the offset \<open>i\<close> of the batch.\<close>

definition batch_left :: "poolhd \<Rightarrow> int \<Rightarrow> nat set" where
  "batch_left p i = fst ` set (take (nat (i + 1)) (pevents p))"

definition loop_inv :: "nat \<Rightarrow> int \<Rightarrow> world \<Rightarrow> bool" where
  "loop_inv l i w \<longleftrightarrow> - 1 \<le> i \<and> i < int (length (pevents (pool w)))
     \<and> tbl {} l (batch_left (pool w) i) (iters (pool w)) (pevents (pool w)) (pool w) w"

lemma pending_mono: "batch_left p (i - 1) \<subseteq> batch_left p i"
  unfolding batch_left_def by (rule image_mono[OF set_take_subset_set_take]) simp

lemma tbl_pending: "tbl X l E it pe p w \<Longrightarrow> F \<subseteq> E \<Longrightarrow> tbl X l F it pe p w"
  by (auto simp: tbl_def batch_def)
text \<open>A new batch: every event is of a live connection, and none is marked yet.\<close>

lemma wait_batch_inv:
  assumes inv: "loop_inv l (- 1) w" and k: "epoll_contract k" and it: "iters (pool w) \<noteq> - 1"
    and run: "wait_batch k w = (i, w')" and i: "0 \<le> i"
  shows "loop_inv l i w'" and "iters (pool w') = iters (pool w) + 1" and "live (pool w') = live (pool w)"
    and "\<And>v. v \<in> batch_left (pool w') i \<Longrightarrow> v \<in> live (pool w') \<and> mod_iter (item (pool w') v) \<noteq> iters (pool w')"
proof -
  define p where "p = pool w"
  define r where "r = k (hist w) (Epoll_wait (pmax p))"
  define p' where "p' = p\<lparr>pevents := evs r, iters := iters p + 1\<rparr>"
  have t: "tbl {} l (batch_left p (- 1)) (iters p) (pevents p) p w"
    using inv by (simp add: loop_inv_def p_def)
  note p = tblD[OF t]
  have w': "i = ret r - 1" "pool w' = p'" "hist w' = hist w @ [(Epoll_wait (pmax p), r)]"
    using run i it by (auto simp: wait_batch_def sys_def Let_def split_beta p_def r_def p'_def split: if_split_asm)
  have lv: "live p' = live p" "items p' = items p"
    by (simp_all add: live_def p'_def)
  have lt: "iters p < iters p'"
    using word_less_Suc[OF it] by (simp add: p'_def p_def)
  have new: "v \<in> live p" "mod_iter (item p v) \<noteq> iters p'" if v: "v \<in> batch_left p' i" for v
  proof -
    obtain ty where "(v, ty) \<in> set (evs r)"
      using v in_set_takeD by (fastforce simp: batch_left_def p'_def)
    then have "v \<in> ran (watched (hist w))"
      unfolding r_def by (rule epoll_contractD(2)[OF k])
    then show "v \<in> live p"
      using p(4) by (auto simp: watch_ok_def ran_def)
    then have "mod_iter (item p v) \<le> iters p"
      using p(2) by (simp add: pinv_def pool_inv_def ev_ok_def)
    then show "mod_iter (item p v) \<noteq> iters p'"
      using lt by auto
  qed
  have "ev_ok p' (item p v)" if "v \<in> live p" for v
  proof -
    have "ev_ok p (item p v)"
      using p(2) that by (simp add: pinv_def pool_inv_def)
    moreover have "mod_iter (item p v) \<le> iters p'" if "mod_iter (item p v) \<le> iters p" for v
      using lt that by order
    ultimately show ?thesis
      using lv by (auto simp: ev_ok_def ptr_ok_def)
  qed
  moreover have "rings {} p'"
    using rings_cong[OF p(6) lv(1)] lv(2) by simp
  moreover have "links_ok p'"
    using p(5) by (simp add: links_ok_def p'_def)
  moreover have "listener p' l"
    using p(8) lv by (simp add: listener_def)
  ultimately have pv: "pinv {} l p'"
    using p(2) lv by (simp add: pinv_def pool_inv_def)
  have "batch (batch_left p' i) (iters p') (pevents p') p'"
    using new p(7) lv by (auto simp: batch_def)
  moreover have "watch_ok p' (hist w')"
    using watch_ok_calm[OF p(4), of "Epoll_wait (pmax p)" r] lv w'(3) by (simp add: watch_ok_def calm_def)
  moreover have "i < int (length (pevents p'))"
  proof -
    have "ret r \<le> int (length (evs r))"
      unfolding r_def by (rule epoll_contractD(1)[OF k])
    then show ?thesis
      using w'(1) by (simp add: p'_def)
  qed
  ultimately show "loop_inv l i w'"
    using pv w'(2) i by (simp add: loop_inv_def tbl_def)
  show "iters (pool w') = iters (pool w) + 1" "live (pool w') = live (pool w)"
    using w'(2) lv by (simp_all add: p'_def p_def)
  show "v \<in> live (pool w') \<and> mod_iter (item (pool w') v) \<noteq> iters (pool w')" if "v \<in> batch_left (pool w') i" for v
    using new[of v] that w'(2) lv by simp
qed

lemma loop_inv_prev: "loop_inv l i w \<Longrightarrow> 0 \<le> i \<Longrightarrow> loop_inv l (i - 1) w"
  using tbl_pending[OF _ pending_mono] by (auto simp: loop_inv_def)

lemma pending_nth: "0 \<le> i \<Longrightarrow> nat i < length (pevents p) \<Longrightarrow> pevents p ! nat i = (v, ev) \<Longrightarrow> v \<in> batch_left p i"
  unfolding batch_left_def
  by (rule image_eqI[of _ _ "(v, ev)"]) (auto simp: in_set_conv_nth nat_add_distrib intro!: exI[of _ "nat i"])

text \<open>
  \<open>next_event\<close> keeps the invariant, fetches at most one batch, and hands out events of live
  connections only.
\<close>

lemma next_event_inv:
  assumes k: "epoll_contract k" and "loop_inv l offs w" and "iters (pool w) \<noteq> - 1"
    and "next_event n k offs w = Some (res, i, w')"
  shows "loop_inv l i w' \<and> (iters (pool w') = iters (pool w) \<or> iters (pool w') = iters (pool w) + 1)
     \<and> (\<forall>v ev. res = Some (v, ev) \<longrightarrow> v \<in> live (pool w'))"
  using assms(2-4)
proof (induction n arbitrary: offs)
  case (Suc n)
  show ?case
  proof (cases "offs < 0")
    case True
    obtain j w1 where b: "wait_batch k w = (j, w1)"
      by force
    have o: "offs = - 1"
      using True Suc.prems(1) by (simp add: loop_inv_def)
    show ?thesis
    proof (cases "j < 0")
      case True
      then have "w1 = snd (sys k (Epoll_wait (pmax (pool w))) w)" "res = None" "i = offs" "w' = w1"
        using b Suc.prems(3) o by (auto simp: wait_batch_def split_beta Let_def bind_eq_Some_conv split: if_split_asm)
      then show ?thesis
        using Suc.prems(1) ct.I_sys[of _ _ _ _ _ _ w "Epoll_wait (pmax (pool w))" k] by (auto simp: loop_inv_def calm_def)
    next
      case False
      note wb = wait_batch_inv[OF Suc.prems(1)[unfolded o] k Suc.prems(2) b]
      obtain v ty where e: "pevents (pool w1) ! nat j = (v, ty)"
        by force
      have j: "nat j < length (pevents (pool w1))"
        using wb(1) False by (auto simp: loop_inv_def)
      have v: "v \<in> live (pool w1)" "mod_iter (item (pool w1) v) \<noteq> iters (pool w1)"
        using wb(4)[OF _ pending_nth[OF _ j e]] False by auto
      then have "v < length (items (pool w1))"
        using wb(1) False tblD(7) by (auto simp: loop_inv_def)
      then have "res = Some (v, ty)" "i = j - 1" "w' = w1"
        using Suc.prems(3) True b False e v(2) j
        by (auto simp: bind_eq_Some_conv get_ev_def split_beta Let_def split: if_split_asm)
      then show ?thesis
        using loop_inv_prev[OF wb(1)] wb(2) v(1) False by auto
    qed
  next
    case False
    obtain v ty where e: "pevents (pool w) ! nat offs = (v, ty)"
      by force
    have o: "nat offs < length (pevents (pool w))"
      using Suc.prems(1) False by (auto simp: loop_inv_def)
    have t: "tbl {} l (batch_left (pool w) offs) (iters (pool w)) (pevents (pool w)) (pool w) w"
      using Suc.prems(1) by (simp add: loop_inv_def)
    have vE: "v \<in> batch_left (pool w) offs"
      using pending_nth[OF _ o e] False by simp
    then have v: "v < length (items (pool w))" "v \<in> live (pool w) \<or> mod_iter (item (pool w) v) = iters (pool w)"
      using tblD(3)[OF t] by (auto simp: batch_def)
    have prev: "loop_inv l (offs - 1) w"
      using loop_inv_prev[OF Suc.prems(1)] False by simp
    show ?thesis
    proof (cases "mod_iter (item (pool w) v) = iters (pool w)")
      case True
      then have "next_event n k (offs - 1) w = Some (res, i, w')"
        using Suc.prems(3) False e v(1) o by (auto simp: bind_eq_Some_conv get_ev_def c_assert_def split: if_split_asm)
      then show ?thesis
        using Suc.IH[OF prev Suc.prems(2)] by simp
    next
      case skip: False
      then have "res = Some (v, ty)" "i = offs - 1" "w' = w"
        using Suc.prems(3) False e v(1) o by (auto simp: bind_eq_Some_conv get_ev_def c_assert_def split: if_split_asm)
      then show ?thesis
        using prev v(2) skip by auto
    qed
  qed
qed simp

section \<open>Runs of the event loop\<close>

text \<open>
  One round of the loop of \<open>event_loop\<close>: an event is fetched and dispatched, or there was
  none. The state is the offset in the batch and the world.
\<close>

inductive step :: "kernel \<Rightarrow> int \<times> world \<Rightarrow> int \<times> world \<Rightarrow> bool" for k where
  event: "not_exit w \<Longrightarrow> next_event (nat (i + 3)) k i w = Some (Some (val, ev), i', w1)
     \<Longrightarrow> dispatch fuel k val ev w1 = Some w' \<Longrightarrow> step k (i, w) (i', w')"
| idle: "not_exit w \<Longrightarrow> next_event (nat (i + 3)) k i w = Some (None, i', w') \<Longrightarrow> step k (i, w) (i', w')"

inductive_cases stepE: "step k (i, w) (i', w')"

inductive reach :: "kernel \<Rightarrow> int \<times> world \<Rightarrow> nat \<Rightarrow> int \<times> world \<Rightarrow> bool" for k s where
  refl: "reach k s 0 s"
| more: "reach k s n t \<Longrightarrow> step k t u \<Longrightarrow> reach k s (Suc n) u"

lemma step_inv:
  assumes s: "step k (i, w) (i', w')" and k: "epoll_contract k" and inv: "loop_inv l i w" and it: "iters (pool w) \<noteq> - 1"
  shows "loop_inv l i' w' \<and> (iters (pool w') = iters (pool w) \<or> iters (pool w') = iters (pool w) + 1)"
proof -
  consider (event) val ev w1 fuel where "next_event (nat (i + 3)) k i w = Some (Some (val, ev), i', w1)"
      "dispatch fuel k val ev w1 = Some w'"
    | (idle) "next_event (nat (i + 3)) k i w = Some (None, i', w')"
    using s by (rule stepE) blast+
  then show ?thesis
  proof cases
  case event
  have n: "loop_inv l i' w1" "iters (pool w1) = iters (pool w) \<or> iters (pool w1) = iters (pool w) + 1" "val \<in> live (pool w1)"
    using next_event_inv[OF k inv it event(1)] by auto
  define E where "E = batch_left (pool w1) i'"
  have t: "tbl {} l E (iters (pool w1)) (pevents (pool w1)) (pool w1) w1"
    using n(1) by (simp add: loop_inv_def E_def)
  have "any l E (iters (pool w1)) (pevents (pool w1)) w'"
    using ensuresD[OF dispatch_vc event(2)] stI[where Q = "\<lambda>p. val \<in> live p", OF t n(3)] by simp
  then obtain p where "tbl {} l E (iters (pool w1)) (pevents (pool w1)) p w'"
    by (auto simp: st_def)
  moreover from this have "pool w' = p" "iters p = iters (pool w1)" "pevents p = pevents (pool w1)"
    using tblD(1,3) by (auto simp: batch_def)
  ultimately show ?thesis
    using n(1,2) by (simp add: loop_inv_def E_def batch_left_def)
next
  case idle
  then show ?thesis
    using next_event_inv[OF k inv it idle] by blast
  qed
qed

lemma unat_max: "unat (- 1 :: u32) = 2 ^ 32 - 1"
  by (simp add: unsigned_minus_1_eq_mask mask_eq_exp_minus_1)

lemma unat_Suc_le: "unat (x + 1 :: u32) \<le> Suc (unat x)"
  using unatSuc[of x] by (cases "1 + x = 0") (simp_all add: add.commute)

lemma reach_inv:
  assumes "reach k (i, w) n t" and k: "epoll_contract k" and inv: "loop_inv l i w" and "unat (iters (pool w)) + n < 2 ^ 32"
  shows "loop_inv l (fst t) (snd t) \<and> unat (iters (pool (snd t))) \<le> unat (iters (pool w)) + n"
  using assms(1,4)
proof (induction rule: reach.induct)
  case refl
  then show ?case using inv by simp
next
  case (more n t u)
  obtain i1 w1 i2 w2 where tu: "t = (i1, w1)" "u = (i2, w2)"
    by force
  have h: "loop_inv l i1 w1" "unat (iters (pool w1)) \<le> unat (iters (pool w)) + n"
    using more tu by auto
  then have "unat (iters (pool w1)) < 2 ^ 32 - 1"
    using more.prems by simp
  then have "iters (pool w1) \<noteq> - 1"
    using unat_max by auto
  then show ?case
    using step_inv[OF more.hyps(2)[unfolded tu] k h(1)] h(2) tu unat_Suc_le[of "iters (pool w1)"] by auto
qed

text \<open>The loop of the program is such a run.\<close>

lemma reach_step1: "step k s t \<Longrightarrow> reach k t n u \<Longrightarrow> reach k s (Suc n) u"
  by (rotate_tac, induction rule: reach.induct) (auto intro: reach.intros)

lemma loop_reach: "loop n k i w = Some w' \<Longrightarrow> \<exists>m i'. m \<le> n \<and> reach k (i, w) m (i', w')"
proof (induction n arbitrary: i w)
  case (Suc n)
  show ?case
  proof (cases "not_exit w")
    case False
    then show ?thesis
      using Suc.prems by (auto intro: reach.refl)
  next
    case True
    obtain e i1 w1 where ne: "next_event (nat (i + 3)) k i w = Some (e, i1, w1)"
      using Suc.prems True by (auto simp: bind_eq_Some_conv)
    show ?thesis
    proof (cases e)
      case None
      then have s: "step k (i, w) (i1, w1)"
        using step.idle[OF True] ne by simp
      have "w' = w1 \<or> loop n k i1 w1 = Some w'"
        using Suc.prems True ne None by (auto split: if_split_asm)
      then show ?thesis
      proof
        assume "w' = w1"
        then show ?thesis
          using reach.more[OF reach.refl s] by (intro exI[of _ 1] exI[of _ i1]) simp
      next
        assume "loop n k i1 w1 = Some w'"
        then obtain m i' where "m \<le> n" "reach k (i1, w1) m (i', w')"
          using Suc.IH by blast
        then show ?thesis
          using reach_step1[OF s] by (intro exI[of _ "Suc m"] exI[of _ i']) simp
      qed
    next
      case (Some ve)
      obtain val ev where ve: "ve = (val, ev)"
        by force
      obtain w2 where d: "dispatch n k val ev w1 = Some w2" "loop n k i1 w2 = Some w'"
        using Suc.prems True ne Some ve by (auto simp: bind_eq_Some_conv)
      have s: "step k (i, w) (i1, w2)"
        using step.event[OF True _ d(1)] ne Some ve by simp
      obtain m i' where "m \<le> n" "reach k (i1, w2) m (i', w')"
        using Suc.IH[OF d(2)] by blast
      then show ?thesis
        using reach_step1[OF s] by (intro exI[of _ "Suc m"] exI[of _ i']) simp
    qed
  qed
qed simp
section \<open>The start of the loop\<close>

lemma init_pool_raw:
  assumes "init_pool k junk count w = Some (True, w')"
  shows "\<exists>e es. pool w' = \<lparr>pmax = count, pcount = 0, efd = e, links = [0..<nat count],
       items = (take (nat count) junk)[0 := empty_eval], pevents = [], iters = 0\<rparr>
     \<and> hist w' = hist w @ es \<and> (\<forall>c \<in> set (map fst es). calm c)"
  using assms by (auto simp: init_pool_def Let_def split_beta calm_def split: if_split_asm)

lemma start_inv:
  assumes init: "init_pool k junk count w0 = Some (True, w1)" and add: "add_event k EV_ACCEPT f e w1 = Some (Some l, w2)"
    and fresh: "watched (hist w0) = Map.empty" and junk: "nat count \<le> length junk"
  shows "loop_inv l (- 1) w2" and "iters (pool w2) = 0"
proof -
  obtain ef es where w1: "pool w1 = \<lparr>pmax = count, pcount = 0, efd = ef, links = [0..<nat count],
       items = (take (nat count) junk)[0 := empty_eval], pevents = [], iters = 0\<rparr>"
    "hist w1 = hist w0 @ es" "\<forall>c \<in> set (map fst es). calm c"
    using init_pool_raw[OF init] by blast
  have empty: "watched (hist w1) = Map.empty"
    using watched_calm[OF w1(3), of Map.empty] fresh w1(2) map_le_implies_dom_le[of _ Map.empty]
    by (fastforce simp: watched_append)
  obtain rep where r: "0 < f" "l = links (pool w1) ! nat (pcount (pool w1))" "l < length (items (pool w1))"
    "pcount (pool w1) < pmax (pool w1)" "items (pool w2) = (items (pool w1))[l := new_eval (pool w1) EV_ACCEPT f]"
    "iters (pool w2) = iters (pool w1)" "pevents (pool w2) = pevents (pool w1)"
    "hist w2 = hist w1 @ [(Epoll_add f l (POLLRDHUP OR e), rep)]" "ret rep = 0"
    using add_event_raw[OF add] by (auto split: if_split_asm)
  have lv1: "live (pool w1) = {}"
    by (simp add: w1(1) live_def)
  have "pool_inv (pool w1)"
    using r(4) junk lv1 by (auto simp: pool_inv_def links_ok_def w1(1))
  then have p2: "pool_inv (pool w2)" "live (pool w2) = {l}" "item (pool w2) l = new_eval (pool w1) EV_ACCEPT f"
    using add_event_ok[OF _ r(1), of w1 k EV_ACCEPT e] add lv1 by auto
  have new: "pair (item (pool w2) l) = None" "etype (item (pool w2) l) = EV_ACCEPT" "buff_size (item (pool w2) l) = 0"
    "fd (item (pool w2) l) = f"
    by (simp_all add: p2(3) new_eval_def empty_eval_def)
  have "pinv {} l (pool w2)"
    using p2(1,2) new by (auto simp: pinv_def listener_def rings_def)
  moreover have "watch_ok (pool w2) (hist w2)"
    using r(8,9) empty p2(2) new(4) by (auto simp: watch_ok_def watched_append watch_step_def)
  ultimately show "loop_inv l (- 1) w2"
    using r(7) w1(1) by (simp add: loop_inv_def tbl_def batch_def batch_left_def)
  show "iters (pool w2) = 0"
    using r(6) w1(1) by simp
qed

text \<open>The event loop as a run of the step relation.\<close>

lemma event_loop_run:
  assumes "event_loop fuel k junk junk_buf srvfd w0 = Some (0, w')"
  shows "\<exists>w1 l w2 n i w. init_pool k junk (max_open (prm w0) * 2 + 1) w0 = Some (True, w1)
     \<and> add_event k EV_ACCEPT srvfd POLLIN w1 = Some (Some l, w2) \<and> n \<le> fuel
     \<and> reach k (- 1, (snd (sys k (Malloc (bfsize (prm w2))) w2))\<lparr>buf := take (nat (bfsize (prm w2))) junk_buf\<rparr>) n (i, w)
     \<and> destroy_pool k w = Some w'"
proof -
  obtain ok w1 where w1: "init_pool k junk (max_open (prm w0) * 2 + 1) w0 = Some (ok, w1)"
    using assms by (auto simp: event_loop_def bind_eq_Some_conv)
  have ok: "ok"
    using assms w1 by (auto simp: event_loop_def split: if_split_asm)
  obtain l w2 where w2: "add_event k EV_ACCEPT srvfd POLLIN w1 = Some (l, w2)"
    using assms w1 ok by (auto simp: event_loop_def bind_eq_Some_conv)
  obtain l' where l: "l = Some l'"
    using assms w1 ok w2 by (cases l) (auto simp: event_loop_def bind_eq_Some_conv)
  define w3 where "w3 = snd (sys k (Malloc (bfsize (prm w2))) w2)"
  have "prm w3 = prm w2"
    by (simp add: w3_def)
  then obtain w where w: "loop fuel k (- 1) (w3\<lparr>buf := take (nat (bfsize (prm w2))) junk_buf\<rparr>) = Some w" "destroy_pool k w = Some w'"
    using assms w1 ok w2 l
    by (auto simp: event_loop_def bind_eq_Some_conv split_beta Let_def w3_def[symmetric] split: if_split_asm)
  obtain n i where "n \<le> fuel" "reach k (- 1, w3\<lparr>buf := take (nat (bfsize (prm w2))) junk_buf\<rparr>) n (i, w)"
    using loop_reach[OF w(1)] by blast
  then show ?thesis
    using w1 ok w2 l w(2) unfolding w3_def
    by (intro exI[of _ w1] exI[of _ l'] exI[of _ w2] exI[of _ n] exI[of _ i] exI[of _ w]) simp
qed

text \<open>
  A system with one client: the listening socket 5 is reported readable, one connection is
  accepted, then the socket is shut down.
\<close>

fun one_client :: kernel where
  "one_client h (Epoll_wait n) =
     (if watched h 5 = Some 0
      then (ok_reply 1)\<lparr>evs := [(0, if list_ex (\<lambda>(c, r). case c of Accept f \<Rightarrow> True | _ \<Rightarrow> False) h then POLLHUP else POLLIN)]\<rparr>
      else ok_reply 0)"
| "one_client h (Accept f) =
     (if list_ex (\<lambda>(c, r). case c of Accept f \<Rightarrow> True | _ \<Rightarrow> False) h then fail_reply EAGAIN
      else (ok_reply 9)\<lparr>out := replicate 28 0\<rparr>)"
| "one_client h (Epoll_create n) = ok_reply 3"
| "one_client h (Malloc n) = ok_reply 1"
| "one_client h c = ok_reply 0"

definition client_world :: world where
  "client_world = start_world (default_params\<lparr>max_open := 2, bfsize := 4\<rparr>)"

lemma one_client_epoll: "epoll_contract one_client"
  by (auto simp: epoll_contract_def ok_reply_def intro: ranI)

lemma one_client_run: "\<exists>w'. event_loop 6 one_client (replicate 5 empty_eval) (replicate 4 0) 5 client_world = Some (0, w')"
proof -
  have "map_option fst (event_loop 6 one_client (replicate 5 empty_eval) (replicate 4 0) 5 client_world) = Some 0"
    by code_simp
  then show ?thesis
    by auto
qed

text \<open>
  C2. Whatever the clients, the servers and the kernel do, in every state that the event loop
  reaches from its start the table of connections is in order: the listening socket is live,
  every \<open>pair\<close> pointer of a live connection leads to another live connection that is not the
  listening socket, both sides of a TCP tunnel point to each other, and the next event that is
  handed to a handler is one of a live connection, never of a closed or reused slot. This is
  shown for the first 2^32 - 2 rounds, after which the iteration counter wraps around.
\<close>

theorem event_loop_safe:
  assumes "init_pool k junk count w0 = Some (True, w1)" and "add_event k EV_ACCEPT srvfd POLLIN w1 = Some (Some l, w2)"
    and "watched (hist w0) = Map.empty" and "nat count \<le> length junk" and "epoll_contract k"
    and "reach k (- 1, (snd (sys k (Malloc m) w2))\<lparr>buf := b\<rparr>) n (i, w)" and "n < 2 ^ 32 - 1"
  shows "pool_inv (pool w) \<and> l \<in> live (pool w)
     \<and> (\<forall>v \<in> live (pool w). \<forall>q. pair (item (pool w) v) = Some q \<longrightarrow> q \<in> live (pool w) \<and> q \<noteq> v \<and> q \<noteq> l)
     \<and> (\<forall>v \<in> live (pool w). tcp (etype (item (pool w) v)) \<longrightarrow> (\<exists>q. duo (pool w) v q))
     \<and> (\<forall>v ev i' w'. next_event (nat (i + 3)) k i w = Some (Some (v, ev), i', w') \<longrightarrow> v \<in> live (pool w'))"
proof -
  define w3 where "w3 = (snd (sys k (Malloc m) w2))\<lparr>buf := b\<rparr>"
  have "pool w3 = pool w2"
    by (simp add: w3_def)
  moreover have "tbl X l E it pe p w2 \<Longrightarrow> tbl X l E it pe p w3" for X E it pe p
    unfolding w3_def by (intro ct.I_buf ct.I_sys) (simp_all add: calm_def)
  ultimately have "loop_inv l (- 1) w3" "iters (pool w3) = 0"
    using start_inv[OF assms(1-4)] by (simp_all add: loop_inv_def)
  then have inv: "loop_inv l i w" "unat (iters (pool w)) \<le> n"
    using reach_inv[OF assms(6)[folded w3_def] assms(5)] assms(7) by auto
  then have it: "iters (pool w) \<noteq> - 1"
    using unat_max assms(7) by auto
  have p: "pinv {} l (pool w)"
    using inv(1) by (simp add: loop_inv_def tbl_def)
  then have "q \<in> live (pool w) \<and> q \<noteq> v \<and> q \<noteq> l" if "v \<in> live (pool w)" "pair (item (pool w) v) = Some q" for v q
    using ringsD(1)[of "{}" "pool w" v q] that by (auto simp: pinv_def listener_def)
  moreover have "\<exists>q. duo (pool w) v q" if "v \<in> live (pool w)" "tcp (etype (item (pool w) v))" for v
    using p ringsD(3)[of "{}" "pool w" v] that by (simp add: pinv_def)
  moreover have "v \<in> live (pool w')" if "next_event (nat (i + 3)) k i w = Some (Some (v, ev), i', w')" for v ev i' w'
    using next_event_inv[OF assms(5) inv(1) it that] by blast
  moreover have "pool_inv (pool w)" "l \<in> live (pool w)"
    using p by (simp_all add: pinv_def listener_def)
  ultimately show ?thesis
    by blast
qed

theorem event_loop_safe_witness:
  "\<exists>w1 l w2 n i w. init_pool one_client (replicate 5 empty_eval) 5 client_world = Some (True, w1)
     \<and> add_event one_client EV_ACCEPT 5 POLLIN w1 = Some (Some l, w2)
     \<and> reach one_client (- 1, (snd (sys one_client (Malloc (bfsize (prm w2))) w2))\<lparr>buf := take (nat (bfsize (prm w2))) (replicate 4 0)\<rparr>) n (i, w)
     \<and> pool_inv (pool w) \<and> l \<in> live (pool w)
     \<and> (\<forall>v \<in> live (pool w). \<forall>q. pair (item (pool w) v) = Some q \<longrightarrow> q \<in> live (pool w) \<and> q \<noteq> v \<and> q \<noteq> l)
     \<and> (\<forall>v \<in> live (pool w). tcp (etype (item (pool w) v)) \<longrightarrow> (\<exists>q. duo (pool w) v q))
     \<and> (\<forall>v ev i' w'. next_event (nat (i + 3)) one_client i w = Some (Some (v, ev), i', w') \<longrightarrow> v \<in> live (pool w'))"
proof -
  have m: "max_open (prm client_world) * 2 + 1 = 5"
    by (simp add: client_world_def start_world_def)
  obtain w' where "event_loop 6 one_client (replicate 5 empty_eval) (replicate 4 0) 5 client_world = Some (0, w')"
    using one_client_run by blast
  then obtain w1 l w2 n i w where r: "init_pool one_client (replicate 5 empty_eval) 5 client_world = Some (True, w1)"
    "add_event one_client EV_ACCEPT 5 POLLIN w1 = Some (Some l, w2)" "n \<le> 6"
    "reach one_client (- 1, (snd (sys one_client (Malloc (bfsize (prm w2))) w2))\<lparr>buf := take (nat (bfsize (prm w2))) (replicate 4 0)\<rparr>) n (i, w)"
    using event_loop_run[of 6 one_client "replicate 5 empty_eval" "replicate 4 0" 5 client_world] unfolding m by blast
  have n: "n < 2 ^ 32 - 1"
    using r(3) by simp
  have h: "watched (hist client_world) = Map.empty" "nat 5 \<le> length (replicate 5 empty_eval)"
    by (simp_all add: client_world_def start_world_def watched_def)
  show ?thesis
    using r(1,2,4) event_loop_safe[OF r(1,2) h one_client_epoll r(4) n] by blast
qed

end
