(* ===== verification/Taskio.thy ===== *)
theory Taskio
  imports Prelude
begin

text \<open>
  The socket I/O the tunnel does inside its tasks: the retry loops of
  \<open>hev-task-system/src/lib/io/socket/hev-task-io-socket.c\<close> and the yielder of
  \<open>hev-socks5-misc.c\<close> they call when a socket would block.

  A task runs against an environment it cannot control: how many bytes a call moves, whether it
  fails, how long the task sleeps. All of that is a list of \<open>tick\<close>s, one per call of the
  kernel, so that a statement for every list of ticks is one for every behaviour of the
  environment. When the list is empty the task is never resumed: the model returns \<open>None\<close>.
  The lemmas show that the loops move exactly the bytes asked for, in order, however the
  kernel cuts them, and that they do return.
\<close>

section \<open>The environment of a task\<close>

text \<open>
  \<open>Wait t l\<close>: the call would block; \<open>self->timeout\<close> is \<open>t\<close> at that moment (another task
  may have changed it) and \<open>hev_task_sleep\<close> returns \<open>l\<close>. \<open>Fail\<close>: the call fails for
  another reason. \<open>Move n\<close>: the call goes through; on a stream it moves at most \<open>Suc n\<close>
  bytes.
\<close>

datatype tick = Wait int int | Fail | Move nat

datatype yield_type = HEV_TASK_YIELD | HEV_TASK_WAITIO

text \<open>
  A socket: for a stream, the bytes its peer will have sent before it closes; for a datagram
  socket, the datagrams that will arrive; and one entry per call that sent something.
\<close>

record sock =
  sk_dgram :: bool
  sk_in :: bytes
  sk_dg :: "bytes list"
  sk_out :: "bytes list"
  sk_ticks :: "tick list"

definition task_io_yielder :: "yield_type \<Rightarrow> int \<Rightarrow> int \<Rightarrow> int" where
  "task_io_yielder type timeout left =
     (if type = HEV_TASK_YIELD then 0
      else if timeout < 0 then 0
      else if left \<le> 0 then - 1
      else 0)"

section \<open>The calls of the kernel\<close>

text \<open>
  \<open>recv\<close> on a stream returns what there is, at most what was asked for and nothing at the
  end; on a datagram socket it returns one datagram and drops what does not fit.
\<close>

definition k_recv :: "nat \<Rightarrow> nat \<Rightarrow> sock \<Rightarrow> (bytes \<times> sock) option" where
  "k_recv n len s =
     (if sk_dgram s then
        (case sk_dg s of [] \<Rightarrow> None | d # ds \<Rightarrow> Some (take len d, s\<lparr>sk_dg := ds\<rparr>))
      else let m = min (Suc n) len in Some (take m (sk_in s), s\<lparr>sk_in := drop m (sk_in s)\<rparr>))"

definition k_send :: "nat \<Rightarrow> bytes \<Rightarrow> sock \<Rightarrow> nat \<times> sock" where
  "k_send n d s =
     (let m = (if sk_dgram s then length d else min (Suc n) (length d))
      in (m, s\<lparr>sk_out := sk_out s @ [take m d]\<rparr>))"

section \<open>The retry loops\<close>

text \<open>
  What a loop does with the result of the call it has just made: without \<open>MSG_WAITALL\<close>, or
  when nothing was moved, it returns. A failed call is \<open>- 1\<close>.
\<close>

definition io_return :: "bool \<Rightarrow> nat \<Rightarrow> int \<Rightarrow> int option" where
  "io_return waitall sz s =
     (if \<not> waitall then Some s
      else if s \<le> 0 then Some (if sz \<noteq> 0 then int sz else s)
      else None)"

text \<open>\<open>recv\<close> into the object \<open>b\<close> from position \<open>at\<close> on.\<close>

fun recv_loop ::
  "bool \<Rightarrow> bytes \<Rightarrow> nat \<Rightarrow> nat \<Rightarrow> nat \<Rightarrow> sock \<Rightarrow> tick list \<Rightarrow> (int \<times> bytes \<times> sock) option" where
  "recv_loop wa b at len sz s [] = None"
| "recv_loop wa b at len sz s (Wait t l # ts) =
     (if task_io_yielder HEV_TASK_WAITIO t l \<noteq> 0 then Some (- 2, b, s\<lparr>sk_ticks := ts\<rparr>)
      else recv_loop wa b at len sz s ts)"
| "recv_loop wa b at len sz s (Fail # ts) =
     Some (if wa \<and> sz \<noteq> 0 then int sz else - 1, b, s\<lparr>sk_ticks := ts\<rparr>)"
| "recv_loop wa b at len sz s (Move n # ts) = do {
     (d, s) \<leftarrow> k_recv n (len - sz) s;
     b \<leftarrow> wrn b (int (at + sz)) d;
     case io_return wa sz (int (length d)) of
       Some r \<Rightarrow> Some (r, b, s\<lparr>sk_ticks := ts\<rparr>)
     | None \<Rightarrow>
         if sz + length d < len then recv_loop wa b at len (sz + length d) s ts
         else Some (int (sz + length d), b, s\<lparr>sk_ticks := ts\<rparr>)
   }"

definition hev_task_io_socket_recv ::
  "bytes \<Rightarrow> nat \<Rightarrow> nat \<Rightarrow> bool \<Rightarrow> sock \<Rightarrow> (int \<times> bytes \<times> sock) option" where
  "hev_task_io_socket_recv b at len waitall s = recv_loop waitall b at len 0 s (sk_ticks s)"

fun send_loop :: "bool \<Rightarrow> bytes \<Rightarrow> nat \<Rightarrow> sock \<Rightarrow> tick list \<Rightarrow> (int \<times> sock) option" where
  "send_loop wa d sz s [] = None"
| "send_loop wa d sz s (Wait t l # ts) =
     (if task_io_yielder HEV_TASK_WAITIO t l \<noteq> 0 then Some (- 2, s\<lparr>sk_ticks := ts\<rparr>)
      else send_loop wa d sz s ts)"
| "send_loop wa d sz s (Fail # ts) =
     Some (if wa \<and> sz \<noteq> 0 then int sz else - 1, s\<lparr>sk_ticks := ts\<rparr>)"
| "send_loop wa d sz s (Move n # ts) =
     (let (m, s) = k_send n (drop sz d) s in
      case io_return wa sz (int m) of
        Some r \<Rightarrow> Some (r, s\<lparr>sk_ticks := ts\<rparr>)
      | None \<Rightarrow>
          if sz + m < length d then send_loop wa d (sz + m) s ts
          else Some (int (sz + m), s\<lparr>sk_ticks := ts\<rparr>))"

definition hev_task_io_socket_send :: "bytes \<Rightarrow> bool \<Rightarrow> sock \<Rightarrow> (int \<times> sock) option" where
  "hev_task_io_socket_send d waitall s = send_loop waitall d 0 s (sk_ticks s)"

text \<open>
  The vectors of \<open>sendmsg\<close> are the bytes they point to. After a short count the loop steps
  over the vectors that are done and shortens the first one that is not.
\<close>

fun iov_advance :: "bytes list \<Rightarrow> nat \<Rightarrow> bytes list" where
  "iov_advance [] s = []"
| "iov_advance (v # vs) s = (if s < length v then drop s v # vs else iov_advance vs (s - length v))"

fun sendmsg_loop ::
  "bool \<Rightarrow> nat \<Rightarrow> bytes list \<Rightarrow> nat \<Rightarrow> sock \<Rightarrow> tick list \<Rightarrow> (int \<times> sock) option" where
  "sendmsg_loop wa len iov sz s [] = None"
| "sendmsg_loop wa len iov sz s (Wait t l # ts) =
     (if task_io_yielder HEV_TASK_WAITIO t l \<noteq> 0 then Some (- 2, s\<lparr>sk_ticks := ts\<rparr>)
      else sendmsg_loop wa len iov sz s ts)"
| "sendmsg_loop wa len iov sz s (Fail # ts) =
     Some (if wa \<and> sz \<noteq> 0 then int sz else - 1, s\<lparr>sk_ticks := ts\<rparr>)"
| "sendmsg_loop wa len iov sz s (Move n # ts) =
     (let (m, s) = k_send n (concat iov) s in
      case io_return wa sz (int m) of
        Some r \<Rightarrow> Some (r, s\<lparr>sk_ticks := ts\<rparr>)
      | None \<Rightarrow>
          if sz + m < len then sendmsg_loop wa len (iov_advance iov m) (sz + m) s ts
          else Some (int (sz + m), s\<lparr>sk_ticks := ts\<rparr>))"

definition hev_task_io_socket_sendmsg :: "bytes list \<Rightarrow> bool \<Rightarrow> sock \<Rightarrow> (int \<times> sock) option" where
  "hev_task_io_socket_sendmsg iov waitall s =
     sendmsg_loop waitall (sum_list (map length iov)) iov 0 s (sk_ticks s)"

text \<open>
  The vectors of \<open>recvmsg\<close> are positions and lengths in the objects \<open>m\<close> of the caller, and
  the kernel fills them in order. A total that does not fit \<open>ssize_t\<close> is refused.
\<close>

type_synonym iovec = "nat \<times> int \<times> nat"

fun scatter :: "bytes list \<Rightarrow> iovec list \<Rightarrow> bytes \<Rightarrow> bytes list option" where
  "scatter m [] d = (if d = [] then Some m else None)"
| "scatter m ((o', i, n) # vs) d =
     (if length m \<le> o' then None
      else do { b \<leftarrow> wrn (m ! o') i (take n d); scatter (m[o' := b]) vs (drop n d) })"

fun riov_advance :: "iovec list \<Rightarrow> nat \<Rightarrow> iovec list" where
  "riov_advance [] s = []"
| "riov_advance ((o', i, n) # vs) s =
     (if s < n then (o', i + int s, n - s) # vs else riov_advance vs (s - n))"

definition iov_total :: "iovec list \<Rightarrow> nat" where
  "iov_total vs = sum_list (map (\<lambda>(o', i, n). n) vs)"

fun recvmsg_loop ::
  "bool \<Rightarrow> nat \<Rightarrow> bytes list \<Rightarrow> iovec list \<Rightarrow> nat \<Rightarrow> sock \<Rightarrow> tick list \<Rightarrow> (int \<times> bytes list \<times> sock) option" where
  "recvmsg_loop wa len m iov sz s [] = None"
| "recvmsg_loop wa len m iov sz s (Wait t l # ts) =
     (if task_io_yielder HEV_TASK_WAITIO t l \<noteq> 0 then Some (- 2, m, s\<lparr>sk_ticks := ts\<rparr>)
      else recvmsg_loop wa len m iov sz s ts)"
| "recvmsg_loop wa len m iov sz s (Fail # ts) =
     Some (if wa \<and> sz \<noteq> 0 then int sz else - 1, m, s\<lparr>sk_ticks := ts\<rparr>)"
| "recvmsg_loop wa len m iov sz s (Move n # ts) =
     (if 2 ^ 63 \<le> iov_total iov
      then Some (if wa \<and> sz \<noteq> 0 then int sz else - 1, m, s\<lparr>sk_ticks := ts\<rparr>)
      else do {
        (d, s) \<leftarrow> k_recv n (iov_total iov) s;
        m \<leftarrow> scatter m iov d;
        case io_return wa sz (int (length d)) of
          Some r \<Rightarrow> Some (r, m, s\<lparr>sk_ticks := ts\<rparr>)
        | None \<Rightarrow>
            if sz + length d < len
            then recvmsg_loop wa len m (riov_advance iov (length d)) (sz + length d) s ts
            else Some (int (sz + length d), m, s\<lparr>sk_ticks := ts\<rparr>)
      })"

definition hev_task_io_socket_recvmsg ::
  "bytes list \<Rightarrow> iovec list \<Rightarrow> bool \<Rightarrow> sock \<Rightarrow> (int \<times> bytes list \<times> sock) option" where
  "hev_task_io_socket_recvmsg m iov waitall s =
     recvmsg_loop waitall (iov_total iov mod 2 ^ 64) m iov 0 s (sk_ticks s)"

text \<open>\<open>recvfrom\<close> differs from \<open>recv\<close> only in the address it asks for.\<close>

definition hev_task_io_socket_recvfrom ::
  "bytes \<Rightarrow> nat \<Rightarrow> nat \<Rightarrow> bool \<Rightarrow> sock \<Rightarrow> (int \<times> bytes \<times> sock) option" where
  "hev_task_io_socket_recvfrom b at len waitall s = recv_loop waitall b at len 0 s (sk_ticks s)"

section \<open>Runs that are not cut short\<close>

text \<open>
  \<open>steady\<close> ticks neither fail nor time out, and \<open>moves\<close> counts the calls that go through.
  \<open>ran i o s s'\<close> says that a run from \<open>s\<close> to \<open>s'\<close> took exactly \<open>i\<close> from the peer and
  sent exactly \<open>o\<close>, using at most one call per byte.
\<close>

fun steady_tick :: "tick \<Rightarrow> bool" where
  "steady_tick (Wait t l) \<longleftrightarrow> task_io_yielder HEV_TASK_WAITIO t l = 0"
| "steady_tick Fail \<longleftrightarrow> False"
| "steady_tick (Move n) \<longleftrightarrow> True"

definition moves :: "tick list \<Rightarrow> nat" where
  "moves ts = length (filter (\<lambda>t. \<exists>n. t = Move n) ts)"

lemma moves_simps [simp]:
  "moves [] = 0" "moves (Wait t l # ts) = moves ts" "moves (Fail # ts) = moves ts"
  "moves (Move n # ts) = Suc (moves ts)"
  by (simp_all add: moves_def)

definition steady :: "nat \<Rightarrow> sock \<Rightarrow> bool" where
  "steady n s \<longleftrightarrow> \<not> sk_dgram s \<and> list_all steady_tick (sk_ticks s) \<and> n \<le> moves (sk_ticks s)"

definition ran :: "bytes \<Rightarrow> bytes \<Rightarrow> sock \<Rightarrow> sock \<Rightarrow> bool" where
  "ran i out s s' \<longleftrightarrow>
     \<not> sk_dgram s \<and> \<not> sk_dgram s' \<and> sk_dg s' = sk_dg s \<and>
     sk_in s = i @ sk_in s' \<and> concat (sk_out s') = concat (sk_out s) @ out \<and>
     (list_all steady_tick (sk_ticks s) \<longrightarrow> list_all steady_tick (sk_ticks s')) \<and>
     moves (sk_ticks s) \<le> moves (sk_ticks s') + length i + length out"

lemma ran_refl: "\<not> sk_dgram s \<Longrightarrow> ran [] [] s s"
  by (simp add: ran_def)

lemma ran_trans [trans]: "ran i p s t \<Longrightarrow> ran j q t u \<Longrightarrow> ran (i @ j) (p @ q) s u"
  by (auto simp: ran_def)

lemma ran_in: "ran i p s t \<Longrightarrow> sk_in s = i @ sk_in t"
  by (simp add: ran_def)

lemma ran_out: "ran i p s t \<Longrightarrow> concat (sk_out t) = concat (sk_out s) @ p"
  by (simp add: ran_def)

lemma ran_steady: "ran i p s t \<Longrightarrow> steady (length i + length p + n) s \<Longrightarrow> steady n t"
  by (auto simp: ran_def steady_def)

lemma steady_mono: "steady n s \<Longrightarrow> m \<le> n \<Longrightarrow> steady m s"
  by (simp add: steady_def)

text \<open>One call of \<open>recv\<close> or \<open>send\<close> on a stream.\<close>

lemma take_min_length: "take (min n (length xs)) xs = take n xs"
  by (cases "n \<le> length xs") (auto simp: min_def)

lemma k_recv_stream:
  "\<not> sk_dgram s \<Longrightarrow> k_recv n len s =
   Some (take (min (Suc n) len) (sk_in s), s\<lparr>sk_in := drop (min (Suc n) len) (sk_in s)\<rparr>)"
  by (simp add: k_recv_def Let_def)

lemma k_send_stream:
  "\<not> sk_dgram s \<Longrightarrow> k_send n d s =
   (min (Suc n) (length d), s\<lparr>sk_out := sk_out s @ [take (min (Suc n) (length d)) d]\<rparr>)"
  by (simp add: k_send_def Let_def)

lemma io_return_more: "0 < m \<Longrightarrow> io_return True sz (int m) = None"
  by (simp add: io_return_def)

text \<open>The state after a call that moved some bytes but not all of them.\<close>

lemma ran_more_in:
  assumes "ran j p (s\<lparr>sk_in := drop m (sk_in s), sk_ticks := ts\<rparr>) s'" "0 < m" "m \<le> length (sk_in s)"
  shows "ran (take m (sk_in s) @ j) p (s\<lparr>sk_ticks := Move n # ts\<rparr>) s'"
proof -
  have "drop m (sk_in s) = j @ sk_in s'" using assms(1) by (simp add: ran_def)
  then have "sk_in s = take m (sk_in s) @ j @ sk_in s'"
    by (metis append_take_drop_id)
  then show ?thesis using assms by (auto simp: ran_def)
qed

lemma ran_more_out:
  assumes "ran i p (s\<lparr>sk_out := sk_out s @ [d], sk_ticks := ts\<rparr>) s'" "d \<noteq> []"
  shows "ran i (d @ p) (s\<lparr>sk_ticks := Move n # ts\<rparr>) s'"
  using assms by (cases d) (auto simp: ran_def)

lemma recv_loop_ok:
  assumes "\<not> sk_dgram s" "list_all steady_tick ts" "sz < len" "len - sz \<le> length (sk_in s)"
    "len - sz \<le> moves ts" "at + len \<le> length b"
  shows "\<exists>s'. recv_loop True b at len sz s ts =
      Some (int len, take (at + sz) b @ take (len - sz) (sk_in s) @ drop (at + len) b, s') \<and>
      ran (take (len - sz) (sk_in s)) [] (s\<lparr>sk_ticks := ts\<rparr>) s'"
  using assms
proof (induction ts arbitrary: b sz s)
  case Nil
  then show ?case by simp
next
  case (Cons t ts)
  show ?case
  proof (cases t)
    case (Wait x l)
    then obtain s' where "recv_loop True b at len sz s ts =
        Some (int len, take (at + sz) b @ take (len - sz) (sk_in s) @ drop (at + len) b, s')"
      "ran (take (len - sz) (sk_in s)) [] (s\<lparr>sk_ticks := ts\<rparr>) s'"
      using Cons.IH[of s sz b] Cons.prems by auto
    then show ?thesis using Wait Cons.prems by (auto simp: ran_def)
  next
    case Fail
    then show ?thesis using Cons.prems by simp
  next
    case (Move n)
    define m where "m = min (Suc n) (len - sz)"
    define d where "d = take m (sk_in s)"
    define s1 where "s1 = s\<lparr>sk_in := drop m (sk_in s)\<rparr>"
    define b1 where "b1 = take (at + sz) b @ d @ drop (at + sz + m) b"
    have m: "0 < m" "m \<le> len - sz" "length d = m" "m \<le> length (sk_in s)"
      using Cons.prems by (auto simp: m_def d_def)
    have k: "k_recv n (len - sz) s = Some (d, s1)"
      using Cons.prems by (simp add: k_recv_stream m_def d_def s1_def)
    have w: "wrn b (int at + int sz) d = Some b1"
      using wrn_nat[of "at + sz" d b] m Cons.prems by (simp add: b1_def)
    have step: "recv_loop True b at len sz s (Move n # ts) =
        (if sz + m < len then recv_loop True b1 at len (sz + m) s1 ts
         else Some (int (sz + m), b1, s1\<lparr>sk_ticks := ts\<rparr>))"
      using k w io_return_more[OF m(1)] m(3) by simp
    show ?thesis
    proof (cases "sz + m < len")
      case True
      have "at + len \<le> length b1" "len - (sz + m) \<le> moves ts"
        "len - (sz + m) \<le> length (sk_in s) - m"
        using Cons.prems m Move by (auto simp: b1_def)
      then obtain s' where s': "recv_loop True b1 at len (sz + m) s1 ts = Some (int len,
          take (at + (sz + m)) b1 @ take (len - (sz + m)) (sk_in s1) @ drop (at + len) b1, s')"
        and r: "ran (take (len - (sz + m)) (sk_in s1)) [] (s1\<lparr>sk_ticks := ts\<rparr>) s'"
        using Cons.IH[of s1 "sz + m" b1] Cons.prems True by (auto simp: s1_def)
      have t: "take (len - sz) (sk_in s) = d @ take (len - (sz + m)) (sk_in s1)"
        using take_add[of m "len - (sz + m)" "sk_in s"] True m by (simp add: d_def s1_def)
      have "take (at + (sz + m)) b1 = take (at + sz) b @ d" "drop (at + len) b1 = drop (at + len) b"
        using m True Cons.prems(6) by (auto simp: b1_def add.commute)
      moreover have "ran (take (len - sz) (sk_in s)) [] (s\<lparr>sk_ticks := Move n # ts\<rparr>) s'"
        unfolding t d_def by (rule ran_more_in) (use r m in \<open>simp_all add: s1_def\<close>)
      ultimately show ?thesis
        unfolding Move step using True s' t by simp
    next
      case False
      then have "m = len - sz" using m by simp
      then show ?thesis
        unfolding Move step using False m Cons.prems by (auto simp: b1_def d_def s1_def ran_def)
    qed
  qed
qed

lemma recv_ok:
  assumes "steady len s" "0 < len" "len \<le> length (sk_in s)" "at + len \<le> length b"
  shows "\<exists>s'. hev_task_io_socket_recv b at len True s =
      Some (int len, take at b @ take len (sk_in s) @ drop (at + len) b, s') \<and>
      ran (take len (sk_in s)) [] s s'"
  using recv_loop_ok[of s "sk_ticks s" 0 len at b] assms
  by (simp add: steady_def hev_task_io_socket_recv_def)

lemma send_loop_ok:
  assumes "\<not> sk_dgram s" "list_all steady_tick ts" "sz < length d" "length d - sz \<le> moves ts"
  shows "\<exists>s'. send_loop True d sz s ts = Some (int (length d), s') \<and>
      ran [] (drop sz d) (s\<lparr>sk_ticks := ts\<rparr>) s'"
  using assms
proof (induction ts arbitrary: sz s)
  case Nil
  then show ?case by simp
next
  case (Cons t ts)
  show ?case
  proof (cases t)
    case (Wait x l)
    then obtain s' where "send_loop True d sz s ts = Some (int (length d), s')"
      "ran [] (drop sz d) (s\<lparr>sk_ticks := ts\<rparr>) s'"
      using Cons.IH[of s sz] Cons.prems by auto
    then show ?thesis using Wait Cons.prems by (auto simp: ran_def)
  next
    case Fail
    then show ?thesis using Cons.prems by simp
  next
    case (Move n)
    define m where "m = min (Suc n) (length d - sz)"
    define x where "x = take m (drop sz d)"
    define s1 where "s1 = s\<lparr>sk_out := sk_out s @ [x]\<rparr>"
    have m: "0 < m" "m \<le> length d - sz" and x: "x \<noteq> []" "length x = m"
      using Cons.prems by (auto simp: m_def x_def)
    have k: "k_send n (drop sz d) s = (m, s1)"
      using Cons.prems by (simp add: k_send_stream m_def x_def s1_def)
    have step: "send_loop True d sz s (Move n # ts) =
        (if sz + m < length d then send_loop True d (sz + m) s1 ts
         else Some (int (sz + m), s1\<lparr>sk_ticks := ts\<rparr>))"
      using k io_return_more[OF m(1)] by simp
    show ?thesis
    proof (cases "sz + m < length d")
      case True
      have "length d - (sz + m) \<le> moves ts" using Cons.prems m Move by auto
      then obtain s' where s': "send_loop True d (sz + m) s1 ts = Some (int (length d), s')"
        and r: "ran [] (drop (sz + m) d) (s1\<lparr>sk_ticks := ts\<rparr>) s'"
        using Cons.IH[of s1 "sz + m"] Cons.prems True by (auto simp: s1_def)
      have "drop sz d = x @ drop (sz + m) d"
        by (metis x_def append_take_drop_id drop_drop add.commute)
      then have "ran [] (drop sz d) (s\<lparr>sk_ticks := Move n # ts\<rparr>) s'"
        using ran_more_out[where d = x and p = "drop (sz + m) d" and i = "[]" and n = n] r x by (simp add: s1_def)
      then show ?thesis unfolding Move step using s' True by simp
    next
      case False
      then have "x = drop sz d" using m x_def by simp
      then show ?thesis
        unfolding Move step using False m x Cons.prems by (auto simp: s1_def ran_def)
    qed
  qed
qed

lemma send_ok:
  assumes "steady (length d) s" "d \<noteq> []"
  shows "\<exists>s'. hev_task_io_socket_send d True s = Some (int (length d), s') \<and> ran [] d s s'"
  using send_loop_ok[of s "sk_ticks s" 0 d] assms
  by (simp add: steady_def hev_task_io_socket_send_def)

section \<open>Vectors\<close>

text \<open>
  Stepping over vectors is dropping bytes of their concatenation, so \<open>sendmsg\<close> behaves as
  \<open>send\<close> of the concatenated vectors, whatever the environment does.
\<close>

lemma concat_iov_advance: "concat (iov_advance iov m) = drop m (concat iov)"
  by (induction iov m rule: iov_advance.induct) auto

lemma sendmsg_loop_send:
  "concat iov = drop sz d \<Longrightarrow> sz \<le> length d \<Longrightarrow>
   sendmsg_loop wa (length d) iov sz s ts = send_loop wa d sz s ts"
proof (induction ts arbitrary: iov sz s)
  case Nil
  then show ?case by simp
next
  case (Cons t ts)
  have m: "sz + fst (k_send n (drop sz d) s) \<le> length d" for n
    using Cons.prems(2) by (auto simp: k_send_def Let_def)
  show ?case
    using Cons m
    by (cases t) (auto simp: concat_iov_advance add.commute split: option.splits prod.splits)
qed

lemma sendmsg_is_send:
  "hev_task_io_socket_sendmsg iov wa s = hev_task_io_socket_send (concat iov) wa s"
  using sendmsg_loop_send[of iov 0 "concat iov" wa s "sk_ticks s"]
  by (simp add: hev_task_io_socket_sendmsg_def hev_task_io_socket_send_def length_concat)

lemma sendmsg_ok:
  assumes "steady (length (concat iov)) s" "concat iov \<noteq> []"
  shows "\<exists>s'. hev_task_io_socket_sendmsg iov True s = Some (int (length (concat iov)), s') \<and>
      ran [] (concat iov) s s'"
  using send_ok[OF assms] by (simp add: sendmsg_is_send)

text \<open>Filling vectors in two calls is filling them in one.\<close>

definition iov_ok :: "bytes list \<Rightarrow> iovec list \<Rightarrow> bool" where
  "iov_ok m vs \<longleftrightarrow>
     (\<forall>(o', i, n) \<in> set vs. o' < length m \<and> 0 \<le> i \<and> i + int n \<le> int (length (m ! o')))"

lemma iov_ok_Cons:
  "iov_ok m ((o', i, n) # vs) \<longleftrightarrow>
   o' < length m \<and> 0 \<le> i \<and> i + int n \<le> int (length (m ! o')) \<and> iov_ok m vs"
  by (auto simp: iov_ok_def)

lemma iov_total_simps [simp]: "iov_total [] = 0" "iov_total ((o', i, n) # vs) = n + iov_total vs"
  by (simp_all add: iov_total_def)

lemma iov_ok_update: "iov_ok m vs \<Longrightarrow> length b = length (m ! o') \<Longrightarrow> iov_ok (m[o' := b]) vs"
  by (cases "o' < length m") (fastforce simp: iov_ok_def nth_list_update)+

lemma wrn_Nil: "0 \<le> i \<Longrightarrow> i \<le> int (length b) \<Longrightarrow> wrn b i [] = Some b"
  by (simp add: wrn_def)

lemma scatter_Nil: "iov_ok m vs \<Longrightarrow> scatter m vs [] = Some m"
  by (induction vs) (auto simp: iov_ok_Cons wrn_Nil)

lemma wrn_Some: "0 \<le> i \<Longrightarrow> i + int (length d) \<le> int (length b) \<Longrightarrow>
    \<exists>b'. wrn b i d = Some b' \<and> length b' = length b"
  by (auto simp: wrn_def)

lemma wrn_wrn:
  assumes "wrn b i d = Some b'" "i + int (length d) + int (length e) \<le> int (length b)"
  shows "wrn b' (i + int (length d)) e = wrn b i (d @ e)"
proof -
  obtain j where i: "i = int j" using assms(1) by (auto simp: wrn_def split: if_splits intro: that[of "nat i"])
  then have b': "b' = take j b @ d @ drop (j + length d) b" and l: "j + length d + length e \<le> length b"
    using assms by (auto simp: wrn_def split: if_splits)
  then have "wrn b' (int (j + length d)) e = Some (take (j + length d) b' @ e @ drop (j + length d + length e) b')"
    by (intro wrn_nat) auto
  moreover have "wrn b (int j) (d @ e) = Some (take j b @ (d @ e) @ drop (j + length (d @ e)) b)"
    using l by (intro wrn_nat) auto
  ultimately show ?thesis using l by (simp add: i b' ac_simps)
qed

lemma scatter_split:
  assumes "iov_ok m vs" "length d + length e \<le> iov_total vs"
  shows "\<exists>m1. scatter m vs d = Some m1 \<and> iov_ok m1 (riov_advance vs (length d)) \<and>
      scatter m1 (riov_advance vs (length d)) e = scatter m vs (d @ e) \<and>
      iov_total (riov_advance vs (length d)) = iov_total vs - length d"
  using assms
proof (induction vs arbitrary: m d)
  case Nil
  then show ?case by (simp add: iov_ok_def)
next
  case (Cons v vs)
  obtain o' i n where v: "v = (o', i, n)" by (cases v)
  have ok: "o' < length m" "0 \<le> i" "i + int n \<le> int (length (m ! o'))" "iov_ok m vs"
    using Cons.prems(1) by (auto simp: v iov_ok_Cons)
  have "i + int (length (take n d)) \<le> int (length (m ! o'))" using ok(3) by simp
  then obtain b where b: "wrn (m ! o') i (take n d) = Some b" "length b = length (m ! o')"
    using wrn_Some[of i "take n d" "m ! o'"] ok(2) by blast
  have okb: "iov_ok (m[o' := b]) vs" using ok b iov_ok_update by blast
  show ?case
  proof (cases "length d < n")
    case True
    have "wrn b (i + int (length d)) (take (n - length d) e) = wrn (m ! o') i (d @ take (n - length d) e)"
      using wrn_wrn[of "m ! o'" i d b "take (n - length d) e"] b ok True by simp
    then show ?thesis
      using ok b okb True by (auto simp: v scatter_Nil iov_ok_Cons)
  next
    case False
    have "length (drop n d) + length e \<le> iov_total vs" using Cons.prems(2) False by (simp add: v)
    then obtain m1 where m1: "scatter (m[o' := b]) vs (drop n d) = Some m1"
      "iov_ok m1 (riov_advance vs (length (drop n d)))"
      "scatter m1 (riov_advance vs (length (drop n d))) e = scatter (m[o' := b]) vs (drop n d @ e)"
      "iov_total (riov_advance vs (length (drop n d))) = iov_total vs - length (drop n d)"
      using Cons.IH[OF okb, of "drop n d"] by blast
    then show ?thesis using ok b False by (auto simp: v)
  qed
qed

lemma recvmsg_loop_ok:
  assumes "\<not> sk_dgram s" "list_all steady_tick ts" "sz < len" "len - sz \<le> length (sk_in s)"
    "len - sz \<le> moves ts" "iov_ok m vs" "iov_total vs = len - sz" "len < 2 ^ 63"
  shows "\<exists>m' s'. recvmsg_loop True len m vs sz s ts = Some (int len, m', s') \<and>
      scatter m vs (take (len - sz) (sk_in s)) = Some m' \<and>
      ran (take (len - sz) (sk_in s)) [] (s\<lparr>sk_ticks := ts\<rparr>) s'"
  using assms
proof (induction ts arbitrary: m vs sz s)
  case Nil
  then show ?case by simp
next
  case (Cons t ts)
  show ?case
  proof (cases t)
    case (Wait x l)
    then obtain m' s' where "recvmsg_loop True len m vs sz s ts = Some (int len, m', s')"
      "scatter m vs (take (len - sz) (sk_in s)) = Some m'"
      "ran (take (len - sz) (sk_in s)) [] (s\<lparr>sk_ticks := ts\<rparr>) s'"
      using Cons.IH[of s sz m vs] Cons.prems by auto
    then show ?thesis using Wait Cons.prems by (auto simp: ran_def)
  next
    case Fail
    then show ?thesis using Cons.prems by simp
  next
    case (Move n)
    define k where "k = min (Suc n) (len - sz)"
    define d where "d = take k (sk_in s)"
    define e where "e = take (len - (sz + k)) (drop k (sk_in s))"
    define s1 where "s1 = s\<lparr>sk_in := drop k (sk_in s)\<rparr>"
    have k: "0 < k" "k \<le> len - sz" "length d = k" "k \<le> length (sk_in s)"
      using Cons.prems by (auto simp: k_def d_def)
    have de: "take (len - sz) (sk_in s) = d @ e"
      using take_add[of k "len - (sz + k)" "sk_in s"] k by (simp add: d_def e_def)
    have "length d + length e \<le> iov_total vs" using k Cons.prems(7) by (simp add: e_def)
    then obtain m1 where m1: "scatter m vs d = Some m1" "iov_ok m1 (riov_advance vs k)"
      "scatter m1 (riov_advance vs k) e = scatter m vs (d @ e)"
      "iov_total (riov_advance vs k) = len - (sz + k)"
      using scatter_split[OF Cons.prems(6), of d e] k Cons.prems(7) by auto
    have rk: "k_recv n (iov_total vs) s = Some (d, s1)"
      using Cons.prems by (simp add: k_recv_stream k_def d_def s1_def)
    have "\<not> 2 ^ 63 \<le> iov_total vs" using Cons.prems(7,8) by linarith
    then have step: "recvmsg_loop True len m vs sz s (Move n # ts) =
        (if sz + k < len then recvmsg_loop True len m1 (riov_advance vs k) (sz + k) s1 ts
         else Some (int (sz + k), m1, s1\<lparr>sk_ticks := ts\<rparr>))"
      using rk m1(1) io_return_more[OF k(1)] k(3) by simp
    show ?thesis
    proof (cases "sz + k < len")
      case True
      have "len - (sz + k) \<le> moves ts" "len - (sz + k) \<le> length (sk_in s) - k"
        using Cons.prems k Move by auto
      then obtain m' s' where s': "recvmsg_loop True len m1 (riov_advance vs k) (sz + k) s1 ts = Some (int len, m', s')"
        "scatter m1 (riov_advance vs k) e = Some m'"
        and r: "ran e [] (s1\<lparr>sk_ticks := ts\<rparr>) s'"
        using Cons.IH[of s1 "sz + k" m1 "riov_advance vs k"] Cons.prems True m1 by (auto simp: s1_def e_def)
      have "ran (d @ e) [] (s\<lparr>sk_ticks := Move n # ts\<rparr>) s'"
        unfolding d_def by (rule ran_more_in) (use r k in \<open>simp_all add: s1_def\<close>)
      then show ?thesis
        unfolding Move step de using True s' m1(3) by auto
    next
      case False
      then have "e = []" "k = len - sz" using k by (auto simp: e_def)
      then show ?thesis
        unfolding Move step de using False k m1(1) Cons.prems by (auto simp: d_def s1_def ran_def)
    qed
  qed
qed

lemma recvmsg_ok:
  assumes "steady (iov_total vs) s" "0 < iov_total vs" "iov_total vs \<le> length (sk_in s)"
    "iov_ok m vs" "iov_total vs < 2 ^ 63"
  shows "\<exists>m' s'. hev_task_io_socket_recvmsg m vs True s = Some (int (iov_total vs), m', s') \<and>
      scatter m vs (take (iov_total vs) (sk_in s)) = Some m' \<and>
      ran (take (iov_total vs) (sk_in s)) [] s s'"
  using recvmsg_loop_ok[of s "sk_ticks s" 0 "iov_total vs" m vs] assms
  by (simp add: steady_def hev_task_io_socket_recvmsg_def)

section \<open>Runs of every kind\<close>

text \<open>
  With as many calls going through as there are bytes asked for, a loop returns, whatever the
  peer sent, however short it is cut, and whether or not a call fails or times out before; it
  stays inside the object and uses no more calls than that.
\<close>

lemma recv_loop_total:
  assumes "\<not> sk_dgram s" "sz < len" "len - sz \<le> moves ts" "at + len \<le> length b"
  shows "\<exists>r b' s'. recv_loop True b at len sz s ts = Some (r, b', s') \<and> r \<le> int len \<and>
    length b' = length b \<and> \<not> sk_dgram s' \<and> moves ts \<le> moves (sk_ticks s') + (len - sz)"
  using assms
proof (induction ts arbitrary: b sz s)
  case Nil
  then show ?case by simp
next
  case (Cons t ts)
  show ?case
  proof (cases t)
    case (Wait x l)
    then show ?thesis using Cons.IH[of s sz b] Cons.prems by auto
  next
    case Fail
    then show ?thesis using Cons.prems by auto
  next
    case (Move n)
    define d where "d = take (min (Suc n) (len - sz)) (sk_in s)"
    define s1 where "s1 = s\<lparr>sk_in := drop (min (Suc n) (len - sz)) (sk_in s)\<rparr>"
    have k: "k_recv n (len - sz) s = Some (d, s1)"
      using Cons.prems by (simp add: k_recv_stream d_def s1_def)
    have ld: "length d \<le> len - sz" by (simp add: d_def)
    then have "int at + int sz + int (length d) \<le> int (length b)" using Cons.prems(2,4) by linarith
    then obtain b1 where w: "wrn b (int at + int sz) d = Some b1" and lb: "length b1 = length b"
      using wrn_Some[of "int at + int sz" d b] by auto
    have dg: "\<not> sk_dgram s1" using Cons.prems(1) by (simp add: s1_def)
    show ?thesis
    proof (cases "d = []")
      case True
      then show ?thesis
        using Move k w lb dg Cons.prems by (auto simp: io_return_def)
    next
      case False
      then have step: "recv_loop True b at len sz s (Move n # ts) =
        (if sz + length d < len then recv_loop True b1 at len (sz + length d) s1 ts
         else Some (int (sz + length d), b1, s1\<lparr>sk_ticks := ts\<rparr>))"
        using k w io_return_more[of "length d" sz] by simp
      show ?thesis
      proof (cases "sz + length d < len")
        case True
        have pos: "0 < length d" using False by simp
        have m: "len - sz \<le> Suc (moves ts)" using Cons.prems(3) Move by simp
        have "len - (sz + length d) \<le> moves ts" using m pos by linarith
        moreover have "at + len \<le> length b1" using Cons.prems(4) lb by simp
        ultimately obtain r b' s' where r: "recv_loop True b1 at len (sz + length d) s1 ts = Some (r, b', s')"
          "r \<le> int len" "length b' = length b1" "\<not> sk_dgram s'"
          "moves ts \<le> moves (sk_ticks s') + (len - (sz + length d))"
          using Cons.IH[OF dg True] by blast
        have "moves (t # ts) \<le> moves (sk_ticks s') + (len - sz)"
          using r(5) pos True Move by (simp del: length_greater_0_conv)
        then show ?thesis using r lb True unfolding Move step by simp
      next
        case False
        then show ?thesis unfolding Move step using lb ld dg Cons.prems by auto
      qed
    qed
  qed
qed

lemma recv_total:
  assumes "\<not> sk_dgram s" "0 < len" "len \<le> moves (sk_ticks s)" "at + len \<le> length b"
  shows "\<exists>r b' s'. hev_task_io_socket_recv b at len True s = Some (r, b', s') \<and> r \<le> int len \<and>
    length b' = length b \<and> \<not> sk_dgram s' \<and> moves (sk_ticks s) \<le> moves (sk_ticks s') + len"
  using recv_loop_total[of s 0 len "sk_ticks s" at b] assms by (auto simp: hev_task_io_socket_recv_def)

lemma scatter_lengths:
  "scatter m vs d = Some m' \<Longrightarrow> map length m' = map length m"
proof (induction m vs d arbitrary: m' rule: scatter.induct)
  case (1 m d)
  then show ?case by (simp split: if_splits)
next
  case (2 m o' i n vs d)
  then obtain b where b: "wrn (m ! o') i (take n d) = Some b" "scatter (m[o' := b]) vs (drop n d) = Some m'" "o' < length m"
    by (auto simp: bind_eq_Some_conv split: if_splits)
  have "map length (m[o' := b]) = map length m"
    using length_wrn[OF b(1)] b(3) by (simp add: map_update) (metis length_map list_update_id nth_map)
  moreover have "map length m' = map length (m[o' := b])"
    using 2(1)[of b m'] b by simp
  ultimately show ?case by simp
qed

lemma recvmsg_loop_total:
  assumes "\<not> sk_dgram s" "sz < len" "len - sz \<le> moves ts" "iov_ok m vs" "iov_total vs = len - sz"
  shows "\<exists>r m' s'. recvmsg_loop True len m vs sz s ts = Some (r, m', s') \<and>
    map length m' = map length m \<and> \<not> sk_dgram s'"
  using assms
proof (induction ts arbitrary: m vs sz s)
  case Nil
  then show ?case by simp
next
  case (Cons t ts)
  show ?case
  proof (cases t)
    case (Wait x l)
    then show ?thesis using Cons.IH[of s sz m vs] Cons.prems by auto
  next
    case Fail
    then show ?thesis using Cons.prems by auto
  next
    case (Move n)
    show ?thesis
    proof (cases "2 ^ 63 \<le> iov_total vs")
      case True
      then show ?thesis using Move Cons.prems by auto
    next
      case nb: False
      define d where "d = take (min (Suc n) (iov_total vs)) (sk_in s)"
      define s1 where "s1 = s\<lparr>sk_in := drop (min (Suc n) (iov_total vs)) (sk_in s)\<rparr>"
      have k: "k_recv n (iov_total vs) s = Some (d, s1)"
        using Cons.prems by (simp add: k_recv_stream d_def s1_def)
      have dg: "\<not> sk_dgram s1" using Cons.prems(1) by (simp add: s1_def)
      have "length d + length ([] :: bytes) \<le> iov_total vs" by (simp add: d_def)
      then obtain m1 where m1: "scatter m vs d = Some m1" "iov_ok m1 (riov_advance vs (length d))"
        "iov_total (riov_advance vs (length d)) = iov_total vs - length d"
        using scatter_split[OF Cons.prems(4), of d "[]"] by auto
      have l: "map length m1 = map length m" using scatter_lengths[OF m1(1)] .
      show ?thesis
      proof (cases "d = []")
        case True
        then show ?thesis using Move k m1 l dg nb by (auto simp: io_return_def)
      next
        case False
        then have step: "recvmsg_loop True len m vs sz s (Move n # ts) =
          (if sz + length d < len then recvmsg_loop True len m1 (riov_advance vs (length d)) (sz + length d) s1 ts
           else Some (int (sz + length d), m1, s1\<lparr>sk_ticks := ts\<rparr>))"
          using k m1(1) io_return_more[of "length d" sz] nb by simp
        show ?thesis
        proof (cases "sz + length d < len")
          case True
          have "len - sz \<le> Suc (moves ts)" "0 < length d" using Cons.prems(3) Move False by simp_all
          then have "len - (sz + length d) \<le> moves ts" by linarith
          then show ?thesis
            using Cons.IH[OF dg True _ m1(2)] m1(3) Cons.prems(5) l unfolding Move step using True by auto
        next
          case False
          then show ?thesis unfolding Move step using l dg by auto
        qed
      qed
    qed
  qed
qed

end
