(* ===== verification/Hevaddr.thy ===== *)
theory Hevaddr
  imports Socks Taskio
begin

text \<open>
  The addresses of the tunnel's SOCKS5 code, \<open>hev-socks5-misc.c\<close>: a \<open>HevSocks5Addr\<close> is the
  bytes of a SOCKS5 address as they go over the wire (type, address, port), a
  \<open>struct sockaddr\<close> the 28 bytes the proxy's theories use. The lemmas show that writing an
  address and reading it back is the identity up to the v4-mapped form, and that the proxy's
  own parser reads the same address from it.
\<close>

section \<open>Constants of \<open>hev-socks5-proto.h\<close>\<close>

abbreviation (input) HEV_SOCKS5_VERSION_5 :: byte where "HEV_SOCKS5_VERSION_5 \<equiv> 5"
abbreviation (input) HEV_SOCKS5_AUTH_METHOD_NONE :: byte where "HEV_SOCKS5_AUTH_METHOD_NONE \<equiv> 0"
abbreviation (input) HEV_SOCKS5_AUTH_METHOD_USER :: byte where "HEV_SOCKS5_AUTH_METHOD_USER \<equiv> 2"
abbreviation (input) HEV_SOCKS5_AUTH_VERSION_1 :: byte where "HEV_SOCKS5_AUTH_VERSION_1 \<equiv> 1"
abbreviation (input) HEV_SOCKS5_REQ_CMD_CONNECT :: byte where "HEV_SOCKS5_REQ_CMD_CONNECT \<equiv> 1"
abbreviation (input) HEV_SOCKS5_REQ_CMD_UDP_ASC :: byte where "HEV_SOCKS5_REQ_CMD_UDP_ASC \<equiv> 3"
abbreviation (input) HEV_SOCKS5_REQ_CMD_FWD_UDP :: byte where "HEV_SOCKS5_REQ_CMD_FWD_UDP \<equiv> 5"
abbreviation (input) HEV_SOCKS5_RES_REP_SUCC :: byte where "HEV_SOCKS5_RES_REP_SUCC \<equiv> 0"
abbreviation (input) HEV_SOCKS5_ADDR_TYPE_IPV4 :: byte where "HEV_SOCKS5_ADDR_TYPE_IPV4 \<equiv> 1"
abbreviation (input) HEV_SOCKS5_ADDR_TYPE_NAME :: byte where "HEV_SOCKS5_ADDR_TYPE_NAME \<equiv> 3"
abbreviation (input) HEV_SOCKS5_ADDR_TYPE_IPV6 :: byte where "HEV_SOCKS5_ADDR_TYPE_IPV6 \<equiv> 4"

section \<open>The codec\<close>

text \<open>
  Offsets in \<open>HevSocks5Addr\<close>: \<open>atype\<close> 0; \<open>ipv4.addr\<close> 1, \<open>ipv4.port\<close> 5; \<open>ipv6.addr\<close> 1,
  \<open>ipv6.port\<close> 17; \<open>domain.len\<close> 1, \<open>domain.addr\<close> 2.
\<close>

definition sin_port :: "bytes \<Rightarrow> bytes" where
  "sin_port a = take 2 (drop 2 a)"

definition mapped4 :: "bytes \<Rightarrow> bytes" where
  "mapped4 a = replicate 10 0 @ [0xff, 0xff] @ a"

definition hev_socks5_addr_to_sockaddr4 :: "bytes \<Rightarrow> bytes \<Rightarrow> (int \<times> bytes) option" where
  "hev_socks5_addr_to_sockaddr4 addr saddr = do {
     t \<leftarrow> rd addr 0;
     if t = HEV_SOCKS5_ADDR_TYPE_IPV4 then do {
       p \<leftarrow> rdn addr 5 2;
       a \<leftarrow> rdn addr 1 4;
       Some (16, set_sin_addr a (set_port (p ! 0) (p ! 1) (set_family AF_INET saddr)))
     }
     else Some (- 1, saddr)
   }"

definition hev_socks5_addr_to_sockaddr6 :: "bytes \<Rightarrow> bytes \<Rightarrow> (int \<times> bytes) option" where
  "hev_socks5_addr_to_sockaddr6 addr saddr = do {
     t \<leftarrow> rd addr 0;
     if t = HEV_SOCKS5_ADDR_TYPE_IPV4 then do {
       p \<leftarrow> rdn addr 5 2;
       a \<leftarrow> rdn addr 1 4;
       Some (28, set_sin6_addr (mapped4 a) (set_port (p ! 0) (p ! 1) (set_family AF_INET6 saddr)))
     }
     else if t = HEV_SOCKS5_ADDR_TYPE_IPV6 then do {
       p \<leftarrow> rdn addr 17 2;
       a \<leftarrow> rdn addr 1 16;
       Some (28, set_sin6_addr a (set_port (p ! 0) (p ! 1) (set_family AF_INET6 saddr)))
     }
     else Some (- 1, saddr)
   }"

definition hev_socks5_addr_to_sockaddr :: "bytes \<Rightarrow> bytes \<Rightarrow> (int \<times> bytes) option" where
  "hev_socks5_addr_to_sockaddr addr saddr =
     (if sa_family saddr = AF_INET then hev_socks5_addr_to_sockaddr4 addr saddr
      else hev_socks5_addr_to_sockaddr6 addr saddr)"

definition hev_socks5_addr_from_sockaddr :: "bytes \<Rightarrow> bytes \<Rightarrow> (int \<times> bytes) option" where
  "hev_socks5_addr_from_sockaddr addr saddr =
     (if sa_family saddr = AF_INET then do {
        addr \<leftarrow> wr addr 0 HEV_SOCKS5_ADDR_TYPE_IPV4;
        addr \<leftarrow> wrn addr 5 (sin_port saddr);
        addr \<leftarrow> wrn addr 1 (sin_addr saddr);
        Some (7, addr)
      }
      else if sa_family saddr = AF_INET6 then
        (if take 12 (sin6_addr saddr) = mapped4 [] then do {
           addr \<leftarrow> wr addr 0 HEV_SOCKS5_ADDR_TYPE_IPV4;
           addr \<leftarrow> wrn addr 5 (sin_port saddr);
           addr \<leftarrow> wrn addr 1 (drop 12 (sin6_addr saddr));
           Some (7, addr)
         }
         else do {
           addr \<leftarrow> wr addr 0 HEV_SOCKS5_ADDR_TYPE_IPV6;
           addr \<leftarrow> wrn addr 17 (sin_port saddr);
           addr \<leftarrow> wrn addr 1 (sin6_addr saddr);
           Some (19, addr)
         })
      else Some (- 1, addr))"

section \<open>Names\<close>

text \<open>
  \<open>inet_pton\<close> and the resolver are parameters: \<open>pton4\<close> and \<open>pton6\<close> give the address a
  text denotes, if it is one, and \<open>dns\<close> the first result for a name. A port that does not fit
  16 bits is cut by \<open>htons\<close>.
\<close>

definition htons_bytes :: "int \<Rightarrow> byte \<times> byte" where
  "htons_bytes p = (word_of_int (p div 256), word_of_int p)"

definition hev_socks5_resolve_ip ::
  "(bytes \<Rightarrow> bytes option) \<Rightarrow> (bytes \<Rightarrow> bytes option) \<Rightarrow> bytes \<Rightarrow> int \<Rightarrow> int \<times> bytes" where
  "hev_socks5_resolve_ip pton4 pton6 name port =
     (let saddr = set_port (fst (htons_bytes port)) (snd (htons_bytes port))
                    (set_family AF_INET6 (replicate 28 0))
      in case pton4 name of
           Some a \<Rightarrow> (0, set_sin6_addr (mapped4 a) saddr)
         | None \<Rightarrow> (case pton6 name of
             Some a \<Rightarrow> (0, set_sin6_addr a saddr)
           | None \<Rightarrow> (- 1, saddr)))"

definition hev_socks5_resolve_to_sockaddr6 ::
  "(bytes \<Rightarrow> bytes option) \<Rightarrow> (bytes \<Rightarrow> bytes option) \<Rightarrow> (bytes \<Rightarrow> int \<Rightarrow> bytes option) \<Rightarrow>
   bytes \<Rightarrow> int \<Rightarrow> int \<Rightarrow> int \<times> bytes" where
  "hev_socks5_resolve_to_sockaddr6 pton4 pton6 dns name port addr_type =
     (let (res, saddr) = hev_socks5_resolve_ip pton4 pton6 name port in
      if res = 0 then (0, saddr)
      else case dns name addr_type of
        None \<Rightarrow> (- 1, saddr)
      | Some sa \<Rightarrow>
          let (res, saddr) =
            (if sa_family sa = AF_INET
             then (0, set_sin6_addr (mapped4 (sin_addr sa)) (set_family AF_INET6 saddr))
             else if sa_family sa = AF_INET6 then (0, take 28 sa)
             else (- 1, saddr))
          in (res, set_port (fst (htons_bytes port)) (snd (htons_bytes port)) saddr))"

section \<open>The wire form of an address\<close>

definition wire :: "bytes \<Rightarrow> bytes" where
  "wire sa =
     (if sa_family sa = AF_INET then HEV_SOCKS5_ADDR_TYPE_IPV4 # sin_addr sa @ sin_port sa
      else if take 12 (sin6_addr sa) = mapped4 [] then
        HEV_SOCKS5_ADDR_TYPE_IPV4 # drop 12 (sin6_addr sa) @ sin_port sa
      else HEV_SOCKS5_ADDR_TYPE_IPV6 # sin6_addr sa @ sin_port sa)"

definition inet_addr :: "bytes \<Rightarrow> bool" where
  "inet_addr sa \<longleftrightarrow> sockaddr_ok sa \<and> (sa_family sa = AF_INET \<or> sa_family sa = AF_INET6)"

lemma sin_port_simps [simp]:
  assumes "sockaddr_ok a"
  shows "length (sin_port a) = 2"
    and "sin_port (set_port p q a) = [p, q]" "sin_port (set_family f a) = sin_port a"
    and "length x = 4 \<Longrightarrow> sin_port (set_sin_addr x a) = sin_port a"
    and "length y = 16 \<Longrightarrow> sin_port (set_sin6_addr y a) = sin_port a"
  using assms by (simp_all add: sin_port_def) (simp_all add: sockaddr_ok_def)

lemma length_mapped4 [simp]: "length (mapped4 a) = 12 + length a"
  by (simp add: mapped4_def)

lemma mapped4_parts: "take 12 a = mapped4 [] \<Longrightarrow> a = mapped4 (drop 12 a)"
proof -
  assume "take 12 a = mapped4 []"
  then have "a = mapped4 [] @ drop 12 a" by (metis append_take_drop_id)
  then show ?thesis by (simp add: mapped4_def)
qed

lemma length_wire: "inet_addr sa \<Longrightarrow> length (wire sa) = 7 \<or> length (wire sa) = 19"
  by (auto simp: wire_def inet_addr_def)

lemma list7_cases:
  assumes "7 \<le> length b"
  obtains b0 b1 b2 b3 b4 b5 b6 bs where "b = [b0, b1, b2, b3, b4, b5, b6] @ bs"
  using assms by (auto simp: Suc_le_length_iff numeral_eq_Suc)

lemma from_sockaddr_wire:
  assumes "inet_addr sa" "length (wire sa) \<le> length b"
  shows "hev_socks5_addr_from_sockaddr b sa =
    Some (int (length (wire sa)), wire sa @ drop (length (wire sa)) b)"
proof -
  have ok: "sockaddr_ok sa" using assms(1) by (simp add: inet_addr_def)
  have w: "\<exists>b1 b2. wr b 0 t = Some b1 \<and> wrn b1 (1 + int n) (sin_port sa) = Some b2 \<and>
      wrn b2 1 x = Some ((t # x @ sin_port sa) @ drop (n + 3) b)"
    if "length x = n" "n + 3 \<le> length b" for t x n
  proof -
    have b: "b \<noteq> []" using that by auto
    let ?b1 = "b[0 := t]"
    have "wrn ?b1 (int (Suc n)) (sin_port sa) =
      Some (take (Suc n) ?b1 @ sin_port sa @ drop (Suc n + 2) ?b1)"
      using wrn_nat[of "Suc n" "sin_port sa" ?b1] that ok by simp
    moreover have "wrn (take (Suc n) ?b1 @ sin_port sa @ drop (Suc n + 2) ?b1) (int 1) x =
      Some (take 1 (take (Suc n) ?b1 @ sin_port sa @ drop (Suc n + 2) ?b1) @ x @
            drop (1 + length x) (take (Suc n) ?b1 @ sin_port sa @ drop (Suc n + 2) ?b1))"
      using that ok by (intro wrn_nat) simp
    moreover have "take 1 (take (Suc n) ?b1 @ sin_port sa @ drop (Suc n + 2) ?b1) = [t]"
      using b by (cases b) auto
    ultimately show ?thesis
      using that ok b by (auto simp: wr_Some numeral_3_eq_3)
  qed
  show ?thesis
  proof (cases "sa_family sa = AF_INET")
    case True
    then show ?thesis
      using w[of "sin_addr sa" 4 1] assms(2) ok
      by (auto simp: hev_socks5_addr_from_sockaddr_def wire_def)
  next
    case False
    then have f: "sa_family sa = AF_INET6" using assms(1) by (simp add: inet_addr_def)
    show ?thesis
    proof (cases "take 12 (sin6_addr sa) = mapped4 []")
      case True
      then show ?thesis
        using w[of "drop 12 (sin6_addr sa)" 4 1] assms(2) ok f
        by (auto simp: hev_socks5_addr_from_sockaddr_def wire_def)
    next
      case False
      then show ?thesis
        using w[of "sin6_addr sa" 16 4] assms(2) ok f
        by (auto simp: hev_socks5_addr_from_sockaddr_def wire_def)
    qed
  qed
qed

lemma from_sockaddr_other:
  "sa_family sa \<noteq> AF_INET \<Longrightarrow> sa_family sa \<noteq> AF_INET6 \<Longrightarrow> hev_socks5_addr_from_sockaddr b sa = Some (- 1, b)"
  by (simp add: hev_socks5_addr_from_sockaddr_def)

text \<open>What a reader gets from the wire form, into a \<open>sockaddr\<close> of either family.\<close>

definition ip6_of :: "bytes \<Rightarrow> bytes" where
  "ip6_of sa = (if sa_family sa = AF_INET then mapped4 (sin_addr sa) else sin6_addr sa)"

lemma rdn_at: "length x = i \<Longrightarrow> length y = n \<Longrightarrow> rdn (x @ y @ z) (int i) (int n) = Some y"
  by (simp add: rdn_def)

lemma rdn_cons: "0 < i \<Longrightarrow> rdn (x # b) i n = rdn b (i - 1) n"
  by (auto simp: rdn_def nat_diff_distrib drop_Cons' split: if_splits)

lemma rdn_first: "length y = nat n \<Longrightarrow> 0 \<le> n \<Longrightarrow> rdn (y @ z) 0 n = Some y"
  by (auto simp: rdn_def)

lemma rdn_two: "rdn (p # q # z) 0 2 = Some [p, q]"
  by (simp add: rdn_def)

lemma rdn_skip: "i = int (length x) + j \<Longrightarrow> 0 \<le> j \<Longrightarrow> rdn (x @ b) i n = rdn b j n"
  by (auto simp: rdn_def nat_add_distrib)

lemma to_sockaddr6_wire:
  assumes sa: "inet_addr sa" and dst: "sockaddr_ok dst" "sa_family dst \<noteq> AF_INET"
  shows "\<exists>o'. hev_socks5_addr_to_sockaddr (wire sa @ z) dst = Some (28, o') \<and> sockaddr_ok o' \<and>
    sa_family o' = AF_INET6 \<and> sin6_addr o' = ip6_of sa \<and> sin_port o' = sin_port sa"
proof -
  have ok: "sockaddr_ok sa" using sa by (simp add: inet_addr_def)
  obtain p q where p: "sin_port sa = [p, q]"
    using sin_port_simps(1)[OF ok] by (rule list2_cases)
  have l: "2 \<le> length dst" using dst by (simp add: sockaddr_ok_def)
  have r4: "\<exists>o'. hev_socks5_addr_to_sockaddr6 ((1 # x @ sin_port sa) @ z) dst = Some (28, o') \<and> sockaddr_ok o' \<and>
      sa_family o' = AF_INET6 \<and> sin6_addr o' = mapped4 x \<and> sin_port o' = sin_port sa"
    if "length x = 4" for x
    using that dst l
    by (auto simp: hev_socks5_addr_to_sockaddr6_def rd_def rdn_cons rdn_first rdn_skip[of 4 x 0] rdn_two p)
  have r6: "\<exists>o'. hev_socks5_addr_to_sockaddr6 ((4 # x @ sin_port sa) @ z) dst = Some (28, o') \<and> sockaddr_ok o' \<and>
      sa_family o' = AF_INET6 \<and> sin6_addr o' = x \<and> sin_port o' = sin_port sa"
    if "length x = 16" for x
    using that dst l
    by (auto simp: hev_socks5_addr_to_sockaddr6_def rd_def rdn_cons rdn_first rdn_skip[of 16 x 0] rdn_two p)
  show ?thesis
    using r4[of "sin_addr sa"] r4[of "drop 12 (sin6_addr sa)"] r6[of "sin6_addr sa"] dst ok
      mapped4_parts[of "sin6_addr sa"]
    by (auto simp: wire_def hev_socks5_addr_to_sockaddr_def ip6_of_def)
qed

lemma to_sockaddr4_wire:
  assumes sa: "inet_addr sa" and dst: "sockaddr_ok dst" "sa_family dst = AF_INET"
    and v4: "take 12 (ip6_of sa) = mapped4 []"
  shows "\<exists>o'. hev_socks5_addr_to_sockaddr (wire sa @ z) dst = Some (16, o') \<and> sockaddr_ok o' \<and>
    sa_family o' = AF_INET \<and> mapped4 (sin_addr o') = ip6_of sa \<and> sin_port o' = sin_port sa"
proof -
  have ok: "sockaddr_ok sa" using sa by (simp add: inet_addr_def)
  obtain p q where p: "sin_port sa = [p, q]"
    using sin_port_simps(1)[OF ok] by (rule list2_cases)
  have l: "2 \<le> length dst" using dst by (simp add: sockaddr_ok_def)
  have r4: "\<exists>o'. hev_socks5_addr_to_sockaddr4 ((1 # x @ sin_port sa) @ z) dst = Some (16, o') \<and> sockaddr_ok o' \<and>
      sa_family o' = AF_INET \<and> sin_addr o' = x \<and> sin_port o' = sin_port sa"
    if "length x = 4" for x
    using that dst l
    by (auto simp: hev_socks5_addr_to_sockaddr4_def rd_def rdn_cons rdn_first rdn_skip[of 4 x 0] rdn_two p)
  show ?thesis
    using r4[of "sin_addr sa"] r4[of "drop 12 (sin6_addr sa)"] dst ok v4 mapped4_parts[of "sin6_addr sa"]
    by (auto simp: wire_def hev_socks5_addr_to_sockaddr_def ip6_of_def)
qed

text \<open>
  Which addresses a reader can take: one that asks for IPv4 only those with an IPv4 address, plain
  or mapped. The others are refused.
\<close>

definition readable :: "bytes \<Rightarrow> bytes \<Rightarrow> bool" where
  "readable sa dst \<longleftrightarrow> sa_family dst \<noteq> AF_INET \<or> take 12 (ip6_of sa) = mapped4 []"

lemma to_sockaddr_wire:
  assumes sa: "inet_addr sa" and dst: "sockaddr_ok dst"
  shows "\<exists>r o'. hev_socks5_addr_to_sockaddr (wire sa @ z) dst = Some (r, o') \<and>
    (if readable sa dst then 0 < r \<and> sockaddr_ok o' \<and> ip6_of o' = ip6_of sa \<and> sin_port o' = sin_port sa \<and>
       sa_family o' = (if sa_family dst = AF_INET then AF_INET else AF_INET6) else r = - 1)"
proof -
  consider "sa_family dst \<noteq> AF_INET" | "sa_family dst = AF_INET" "take 12 (ip6_of sa) = mapped4 []"
    | "sa_family dst = AF_INET" "take 12 (ip6_of sa) \<noteq> mapped4 []" by blast
  then show ?thesis
  proof cases
    case 1
    then obtain o' where "hev_socks5_addr_to_sockaddr (wire sa @ z) dst = Some (28, o')" "sockaddr_ok o'"
      "sa_family o' = AF_INET6" "sin6_addr o' = ip6_of sa" "sin_port o' = sin_port sa"
      using to_sockaddr6_wire[OF sa dst 1, of z] by blast
    then show ?thesis
      using 1 by (intro exI[of _ 28] exI[of _ o']) (simp add: readable_def ip6_of_def)
  next
    case 2
    then obtain o' where "hev_socks5_addr_to_sockaddr (wire sa @ z) dst = Some (16, o')" "sockaddr_ok o'"
      "sa_family o' = AF_INET" "mapped4 (sin_addr o') = ip6_of sa" "sin_port o' = sin_port sa"
      using to_sockaddr4_wire[OF sa dst 2, of z] by blast
    then show ?thesis
      using 2 by (intro exI[of _ 16] exI[of _ o']) (simp add: readable_def ip6_of_def)
  next
    case 3
    have "take 12 (mapped4 x) = mapped4 []" for x
      by (simp add: mapped4_def)
    then have "\<exists>xs. wire sa = HEV_SOCKS5_ADDR_TYPE_IPV6 # xs"
      using 3(2) by (auto simp: wire_def ip6_of_def split: if_splits)
    then show ?thesis
      using 3 by (auto simp: readable_def hev_socks5_addr_to_sockaddr_def hev_socks5_addr_to_sockaddr4_def rd_def)
  qed
qed

section \<open>The proxy reads the same address\<close>

text \<open>
  The tunnel talks to the proxy of this program, so what it writes is what
  \<open>s5_get_addr\<close> of \<open>byedpi/proxy.c\<close> must read.
\<close>

lemma s5_size_wire:
  assumes "inet_addr sa"
  shows "s5_size (take 5 ([a, b, c] @ wire sa @ z)) = 3 + int (length (wire sa))"
proof -
  have "take 5 ([a, b, c] @ wire sa @ z) ! 3 = hd (wire sa)"
    using length_wire[OF assms] by (cases "wire sa") auto
  moreover have "hd (wire sa) = (if length (wire sa) = 7 then S_ATP_I4 else S_ATP_I6)"
    using assms by (auto simp: wire_def inet_addr_def)
  ultimately show ?thesis
    using length_wire[OF assms] by (auto simp: s5_size_def)
qed

lemma s5_get_addr_wire:
  assumes sa: "inet_addr sa" and dst: "sockaddr_ok dst" and n: "3 + int (length (wire sa)) \<le> n"
    and v6: "length (wire sa) = 19 \<longrightarrow> ipv6 (prm w)"
  shows "\<exists>o'. s5_get_addr k ([a, b, c] @ wire sa @ z) 0 n dst ty w = Some (3 + int (length (wire sa)), o', w) \<and>
    inet_addr o' \<and> ip6_of o' = ip6_of sa \<and> sin_port o' = sin_port sa"
proof -
  define B where "B = [a, b, c] @ wire sa @ z"
  have ok: "sockaddr_ok sa" and l: "2 \<le> length dst" using sa dst by (auto simp: inet_addr_def sockaddr_ok_def)
  obtain p q where p: "sin_port sa = [p, q]"
    using sin_port_simps(1)[OF ok] by (rule list2_cases)
  have hdr: "rdn B 0 5 = Some (take 5 B)"
    using length_wire[OF sa] by (auto simp: B_def rdn_def)
  have sz: "s5_size (take 5 B) = 3 + int (length (wire sa))"
    unfolding B_def by (rule s5_size_wire[OF sa])
  have "\<exists>x. (length x = 4 \<and> wire sa = S_ATP_I4 # x @ [p, q] \<and> mapped4 x = ip6_of sa)
     \<or> (length x = 16 \<and> wire sa = S_ATP_I6 # x @ [p, q] \<and> x = ip6_of sa)"
    using ok sa p mapped4_parts[of "sin6_addr sa"]
    by (auto simp: wire_def ip6_of_def inet_addr_def)
  then obtain x where "(length x = 4 \<and> wire sa = S_ATP_I4 # x @ [p, q] \<and> mapped4 x = ip6_of sa)
     \<or> (length x = 16 \<and> wire sa = S_ATP_I6 # x @ [p, q] \<and> x = ip6_of sa)" by blast
  then show ?thesis
  proof (elim disjE conjE)
    assume x: "length x = 4" "wire sa = S_ATP_I4 # x @ [p, q]" "mapped4 x = ip6_of sa"
    have "take 5 B ! 3 = S_ATP_I4" "rdn B 4 4 = Some x" "rdn B 8 2 = Some [p, q]"
      using x(1) by (simp_all add: B_def x(2) rdn_cons rdn_first rdn_skip[of 4 x 0] rdn_two)
    then have "s5_get_addr k B 0 n dst ty w =
        Some (10, set_port p q (set_sin_addr x (set_family AF_INET dst)), w)"
      using n hdr sz x(1,2) by (simp add: s5_get_addr_def)
    then show ?thesis
      using x dst l p by (auto simp: B_def inet_addr_def ip6_of_def)
  next
    assume x: "length x = 16" "wire sa = S_ATP_I6 # x @ [p, q]" "x = ip6_of sa"
    have "take 5 B ! 3 = S_ATP_I6" "rdn B 4 16 = Some x" "rdn B 20 2 = Some [p, q]"
      using x(1) by (simp_all add: B_def x(2) rdn_cons rdn_first rdn_skip[of 16 x 0] rdn_two)
    then have "s5_get_addr k B 0 n dst ty w =
        Some (22, set_port p q (set_sin6_addr x (set_family AF_INET6 dst)), w)"
      using n hdr sz x(1,2) v6 by (simp add: s5_get_addr_def)
    then show ?thesis
      using x dst l p by (auto simp: B_def inet_addr_def ip6_of_def)
  qed
qed

section \<open>Round trip\<close>

text \<open>
  C15. An address that the tunnel writes into a SOCKS5 message fits the space for it and is read
  back from the message unchanged, whatever follows it: the same port and the same address, an
  IPv4 address as its v4-mapped form when it is read as IPv6, and in its own form when the
  reader asks for IPv4.
\<close>

theorem hev_addr_round_trip:
  assumes "inet_addr sa" and "19 \<le> length b" and "sockaddr_ok dst"
  shows "\<exists>n b'. hev_socks5_addr_from_sockaddr b sa = Some (n, b') \<and> (n = 7 \<or> n = 19) \<and> length b' = length b \<and>
    (sa_family dst \<noteq> AF_INET \<longrightarrow>
       (\<exists>o'. hev_socks5_addr_to_sockaddr (take (nat n) b' @ z) dst = Some (28, o') \<and>
          sa_family o' = AF_INET6 \<and> sin6_addr o' = ip6_of sa \<and> sin_port o' = sin_port sa)) \<and>
    (sa_family dst = AF_INET \<and> sa_family sa = AF_INET \<longrightarrow>
       (\<exists>o'. hev_socks5_addr_to_sockaddr (take (nat n) b' @ z) dst = Some (16, o') \<and>
          sa_family o' = AF_INET \<and> sin_addr o' = sin_addr sa \<and> sin_port o' = sin_port sa))"
proof -
  let ?b = "wire sa @ drop (length (wire sa)) b"
  have l: "length (wire sa) \<le> length b" using length_wire[OF assms(1)] assms(2) by auto
  have f: "hev_socks5_addr_from_sockaddr b sa = Some (int (length (wire sa)), ?b)"
    using from_sockaddr_wire[OF assms(1) l] .
  have v: "take 12 (ip6_of sa) = mapped4 []" if "sa_family sa = AF_INET"
    using that by (simp add: ip6_of_def mapped4_def)
  show ?thesis
    using f l length_wire[OF assms(1)] to_sockaddr6_wire[OF assms(1,3), of z]
      to_sockaddr4_wire[OF assms(1,3) _ v, of z]
    by (intro exI[of _ "int (length (wire sa))"] exI[of _ ?b]) (auto simp: ip6_of_def mapped4_def)
qed

theorem hev_addr_round_trip_witness:
  "inet_addr demo_v4 \<and> (\<exists>b' o'. hev_socks5_addr_from_sockaddr (replicate 260 0) demo_v4 = Some (7, b')
     \<and> hev_socks5_addr_to_sockaddr (take 7 b' @ []) demo_v4 = Some (16, o') \<and> sin_addr o' = sin_addr demo_v4)"
proof -
  have i: "inet_addr demo_v4" using demo_v4_simps by (simp add: inet_addr_def)
  have "hev_socks5_addr_from_sockaddr (replicate 260 0) demo_v4 =
      Some (int (length (wire demo_v4)), wire demo_v4 @ drop (length (wire demo_v4)) (replicate 260 0))"
    using i length_wire[OF i] by (intro from_sockaddr_wire) auto
  moreover have "length (wire demo_v4) = 7" using demo_v4_simps by (simp add: wire_def)
  ultimately show ?thesis
    using i hev_addr_round_trip[OF i, of "replicate 260 0" demo_v4 "[]"] demo_v4_simps by auto
qed

end
