(* ===== verification/Hevclient.thy ===== *)
theory Hevclient
  imports Hevaddr
begin

text \<open>
  The SOCKS5 client of the tunnel: \<open>hev-socks5-client.c\<close> with its two classes
  \<open>hev-socks5-client-tcp.c\<close> and \<open>hev-socks5-client-udp.c\<close>. A client is a record of the
  fields its functions use; the methods of its class are chosen by its type, as the
  constructors do. Buffers on the stack start with unknown bytes, the argument \<open>stk\<close>.

  The lemmas show what the handshake sends and what it takes from the server, for every way the
  network cuts the messages, and that the pipelined handshake sends the same bytes.
\<close>

section \<open>The client\<close>

datatype hev_type = HEV_SOCKS5_TYPE_NONE | HEV_SOCKS5_TYPE_TCP | HEV_SOCKS5_TYPE_UDP_IN_TCP
  | HEV_SOCKS5_TYPE_UDP_IN_UDP

text \<open>
  \<open>hc_addr\<close> is the address object of a TCP client, \<open>hc_fd\<close> the datagram socket of a UDP
  client and \<open>hc_peer\<close> the address that socket is connected to.
\<close>

record hclient =
  hc_type :: hev_type
  hc_user :: "bytes option"
  hc_pass :: "bytes option"
  hc_addr :: "bytes option"
  hc_fd :: int
  hc_peer :: "bytes option"

text \<open>
  What the system answers to the calls the client makes besides reading and writing: whether an
  allocation succeeds, the datagram socket, the result of the binder and of \<open>connect\<close>.
\<close>

record hev_env =
  e_mem :: bool
  e_sock :: int
  e_bind :: int
  e_connect :: int

definition new_client :: "hev_type \<Rightarrow> hclient" where
  "new_client t = \<lparr>hc_type = t, hc_user = None, hc_pass = None, hc_addr = None, hc_fd = - 1, hc_peer = None\<rparr>"

definition hev_socks5_client_set_auth :: "bytes option \<Rightarrow> bytes option \<Rightarrow> hclient \<Rightarrow> hclient" where
  "hev_socks5_client_set_auth user pass c = c\<lparr>hc_user := user, hc_pass := pass\<rparr>"

text \<open>
  When an address cannot be written its object is freed, and the caller frees the client.
  The allocated object of 19 bytes (\<open>4 + addrlen\<close> for a name) has the unknown contents \<open>m\<close>.
  The length byte of a name is the low byte of its length.
\<close>

definition hev_socks5_client_tcp_construct_ip ::
  "hev_env \<Rightarrow> bytes \<Rightarrow> bytes \<Rightarrow> (int \<times> hclient) option" where
  "hev_socks5_client_tcp_construct_ip e m addr =
     (let c = new_client HEV_SOCKS5_TYPE_TCP in
      if \<not> e_mem e then Some (- 1, c)
      else do {
        (res, a) \<leftarrow> hev_socks5_addr_from_sockaddr (take 19 m) addr;
        if res \<le> 0 then Some (- 1, c\<lparr>hc_addr := Some a\<rparr>)
        else Some (0, c\<lparr>hc_addr := Some a\<rparr>)
      })"

definition hev_socks5_client_tcp_construct :: "hev_env \<Rightarrow> bytes \<Rightarrow> int \<Rightarrow> int \<times> hclient" where
  "hev_socks5_client_tcp_construct e name port =
     (let c = new_client HEV_SOCKS5_TYPE_TCP in
      if \<not> e_mem e then (- 1, c)
      else let (p0, p1) = htons_bytes port
           in (0, c\<lparr>hc_addr := Some ([HEV_SOCKS5_ADDR_TYPE_NAME, word_of_nat (length name)] @ name @ [p0, p1])\<rparr>))"

definition hev_socks5_client_udp_construct :: "hev_type \<Rightarrow> int \<times> hclient" where
  "hev_socks5_client_udp_construct t = (0, new_client t)"

section \<open>The methods of the two classes\<close>

text \<open>The address of the request; a null pointer is \<open>None\<close> inside.\<close>

definition get_upstream_addr :: "hev_env \<Rightarrow> hclient \<Rightarrow> bytes option \<times> hclient" where
  "get_upstream_addr e c =
     (if hc_type c = HEV_SOCKS5_TYPE_TCP then (hc_addr c, c\<lparr>hc_addr := None\<rparr>)
      else if e_mem e then (Some (HEV_SOCKS5_ADDR_TYPE_IPV4 # replicate 6 0), c)
      else (None, c))"

definition hev_socks5_client_udp_set_upstream_addr ::
  "hev_env \<Rightarrow> bytes \<Rightarrow> bytes \<Rightarrow> hclient \<Rightarrow> (int \<times> hclient) option" where
  "hev_socks5_client_udp_set_upstream_addr e stk addr c =
     (if hc_type c \<noteq> HEV_SOCKS5_TYPE_UDP_IN_UDP then Some (0, c)
      else do {
        let saddr = set_family AF_INET6 (take 28 stk);
        (res, saddr) \<leftarrow> hev_socks5_addr_to_sockaddr addr saddr;
        if res < 0 then Some (- 1, c)
        else if e_sock e < 0 then Some (- 1, c)
        else if e_bind e < 0 then Some (- 1, c)
        else if e_connect e < 0 then Some (- 1, c)
        else Some (0, c\<lparr>hc_fd := e_sock e, hc_peer := Some saddr\<rparr>)
      })"

definition set_upstream_addr :: "hev_env \<Rightarrow> bytes \<Rightarrow> bytes \<Rightarrow> hclient \<Rightarrow> (int \<times> hclient) option" where
  "set_upstream_addr e stk addr c =
     (if hc_type c = HEV_SOCKS5_TYPE_TCP then Some (0, c)
      else hev_socks5_client_udp_set_upstream_addr e stk addr c)"

section \<open>Connecting\<close>

text \<open>
  The descriptor and the address the client is connected to. The socket, the binder and
  \<open>connect\<close> answer as the environment says; a socket that is not used is closed again.
\<close>

definition hev_socks5_client_connect_server ::
  "(bytes \<Rightarrow> bytes option) \<Rightarrow> (bytes \<Rightarrow> bytes option) \<Rightarrow> (bytes \<Rightarrow> int \<Rightarrow> bytes option) \<Rightarrow>
   hev_env \<Rightarrow> bytes \<Rightarrow> int \<Rightarrow> int \<Rightarrow> int \<times> (int \<times> bytes) option" where
  "hev_socks5_client_connect_server pton4 pton6 dns e name port addr_type =
     (let (res, saddr) = hev_socks5_resolve_to_sockaddr6 pton4 pton6 dns name port addr_type in
      if res < 0 then (- 1, None)
      else if e_sock e < 0 then (- 1, None)
      else if e_bind e < 0 then (- 1, None)
      else if e_connect e < 0 then (- 1, None)
      else (0, Some (e_sock e, saddr)))"

section \<open>Writing\<close>

definition has_creds :: "hclient \<Rightarrow> bool" where
  "has_creds c \<longleftrightarrow> hc_user c \<noteq> None \<and> hc_pass c \<noteq> None"

definition auth_method :: "hclient \<Rightarrow> byte" where
  "auth_method c = (if has_creds c then HEV_SOCKS5_AUTH_METHOD_USER else HEV_SOCKS5_AUTH_METHOD_NONE)"

definition hev_socks5_client_write_auth_methods :: "hclient \<Rightarrow> sock \<Rightarrow> (int \<times> sock) option" where
  "hev_socks5_client_write_auth_methods c s = do {
     (res, s) \<leftarrow> hev_task_io_socket_send [HEV_SOCKS5_VERSION_5, 1, auth_method c] True s;
     Some (if res \<le> 0 then - 1 else 0, s)
   }"

text \<open>The lengths go into one byte each, and so many bytes of the strings are sent.\<close>

definition hev_socks5_client_write_auth_creds :: "hclient \<Rightarrow> sock \<Rightarrow> (int \<times> sock) option" where
  "hev_socks5_client_write_auth_creds c s =
     (case (hc_user c, hc_pass c) of
        (Some user, Some pass) \<Rightarrow> do {
          let ub1 = (word_of_nat (length user) :: byte);
          let ub2 = (word_of_nat (length pass) :: byte);
          (res, s) \<leftarrow> hev_task_io_socket_sendmsg
            [[HEV_SOCKS5_AUTH_VERSION_1, ub1], take (unat ub1) user, [ub2], take (unat ub2) pass] True s;
          Some (if res \<le> 0 then - 1 else 0, s)
        }
      | _ \<Rightarrow> Some (0, s))"

definition req_cmd :: "hev_type \<Rightarrow> byte option" where
  "req_cmd t = (case t of
     HEV_SOCKS5_TYPE_TCP \<Rightarrow> Some HEV_SOCKS5_REQ_CMD_CONNECT
   | HEV_SOCKS5_TYPE_UDP_IN_TCP \<Rightarrow> Some HEV_SOCKS5_REQ_CMD_FWD_UDP
   | HEV_SOCKS5_TYPE_UDP_IN_UDP \<Rightarrow> Some HEV_SOCKS5_REQ_CMD_UDP_ASC
   | HEV_SOCKS5_TYPE_NONE \<Rightarrow> None)"

definition hev_socks5_client_write_request ::
  "hev_env \<Rightarrow> hclient \<Rightarrow> sock \<Rightarrow> (int \<times> hclient \<times> sock) option" where
  "hev_socks5_client_write_request e c s =
     (case req_cmd (hc_type c) of
        None \<Rightarrow> Some (- 1, c, s)
      | Some cmd \<Rightarrow> do {
          let (a, c) = get_upstream_addr e c;
          addr \<leftarrow> a;
          t \<leftarrow> rd addr 0;
          n \<leftarrow> (if t = HEV_SOCKS5_ADDR_TYPE_IPV4 then Some 7
               else if t = HEV_SOCKS5_ADDR_TYPE_IPV6 then Some 19
               else if t = HEV_SOCKS5_ADDR_TYPE_NAME then do { l \<leftarrow> rd addr 1; Some (4 + uint l) }
               else Some (- 1));
          if n < 0 then Some (- 1, c, s)
          else do {
            bs \<leftarrow> rdn addr 0 n;
            (ret, s) \<leftarrow> hev_task_io_socket_sendmsg [[HEV_SOCKS5_VERSION_5, cmd, 0], bs] True s;
            Some (if ret \<le> 0 then - 1 else 0, c, s)
          }
        })"

section \<open>Reading\<close>

definition hev_socks5_client_read_auth_method :: "bytes \<Rightarrow> sock \<Rightarrow> (int \<times> sock) option" where
  "hev_socks5_client_read_auth_method stk s = do {
     (res, b, s) \<leftarrow> hev_task_io_socket_recv (take 258 stk) 0 2 True s;
     if res \<le> 0 then Some (- 1, s)
     else do {
       ver \<leftarrow> rd b 0;
       m \<leftarrow> rd b 1;
       Some (if ver \<noteq> HEV_SOCKS5_VERSION_5 then - 1 else uint m, s)
     }
   }"

definition hev_socks5_client_read_auth_creds :: "bytes \<Rightarrow> sock \<Rightarrow> (int \<times> sock) option" where
  "hev_socks5_client_read_auth_creds stk s = do {
     (ret, b, s) \<leftarrow> hev_task_io_socket_recv (take 263 stk) 0 2 True s;
     if ret \<le> 0 then Some (- 1, s)
     else do {
       ver \<leftarrow> rd b 0;
       rep \<leftarrow> rd b 1;
       Some (if ver \<noteq> HEV_SOCKS5_AUTH_VERSION_1 then - 1
             else if rep \<noteq> HEV_SOCKS5_RES_REP_SUCC then - 1 else 0, s)
     }
   }"

text \<open>\<open>res.addr\<close> starts at byte 3 of the response and \<open>res.addr.ipv4\<close> at byte 4.\<close>

definition hev_socks5_client_read_response ::
  "hev_env \<Rightarrow> bytes \<Rightarrow> hclient \<Rightarrow> sock \<Rightarrow> (int \<times> hclient \<times> sock) option" where
  "hev_socks5_client_read_response e stk c s = do {
     (ret, b, s) \<leftarrow> hev_task_io_socket_recv (take 263 stk) 0 4 True s;
     if ret \<le> 0 then Some (- 1, c, s)
     else do {
       h \<leftarrow> rdn b 0 4;
       if h ! 0 \<noteq> HEV_SOCKS5_VERSION_5 then Some (- 1, c, s)
       else if h ! 1 \<noteq> HEV_SOCKS5_RES_REP_SUCC then Some (- 1, c, s)
       else do {
         let addrlen = (if h ! 3 = HEV_SOCKS5_ADDR_TYPE_IPV4 then 6
                        else if h ! 3 = HEV_SOCKS5_ADDR_TYPE_IPV6 then 18 else 0);
         if addrlen = 0 then Some (- 1, c, s)
         else do {
           (ret, b, s) \<leftarrow> hev_task_io_socket_recv b 4 addrlen True s;
           if ret \<le> 0 then Some (- 1, c, s)
           else do {
             (ret, c) \<leftarrow> set_upstream_addr e stk (drop 3 b) c;
             Some (if ret < 0 then - 1 else 0, c, s)
           }
         }
       }
     }
   }"

section \<open>The handshake\<close>

text \<open>What each handshake does once it knows the method \<open>m\<close> of the server.\<close>

definition auth_standard :: "bytes \<Rightarrow> hclient \<Rightarrow> int \<Rightarrow> sock \<Rightarrow> (int \<times> sock) option" where
  "auth_standard stk c m s =
     (if m = uint (HEV_SOCKS5_AUTH_METHOD_USER :: byte) then do {
        (res, s) \<leftarrow> hev_socks5_client_write_auth_creds c s;
        if res < 0 then Some (- 1, s)
        else do {
          (res, s) \<leftarrow> hev_socks5_client_read_auth_creds stk s;
          Some (if res < 0 then - 1 else 0, s)
        }
      }
      else Some (if m \<noteq> uint (HEV_SOCKS5_AUTH_METHOD_NONE :: byte) then - 1 else 0, s))"

definition auth_pipeline :: "bytes \<Rightarrow> int \<Rightarrow> sock \<Rightarrow> (int \<times> sock) option" where
  "auth_pipeline stk m s =
     (if m = uint (HEV_SOCKS5_AUTH_METHOD_USER :: byte) then do {
        (res, s) \<leftarrow> hev_socks5_client_read_auth_creds stk s;
        Some (if res < 0 then - 1 else 0, s)
      }
      else Some (if m \<noteq> uint (HEV_SOCKS5_AUTH_METHOD_NONE :: byte) then - 1 else 0, s))"

definition hev_socks5_client_handshake_standard ::
  "hev_env \<Rightarrow> bytes \<Rightarrow> hclient \<Rightarrow> sock \<Rightarrow> (int \<times> hclient \<times> sock) option" where
  "hev_socks5_client_handshake_standard e stk c s = do {
     (res, s) \<leftarrow> hev_socks5_client_write_auth_methods c s;
     if res < 0 then Some (- 1, c, s)
     else do {
       (res, s) \<leftarrow> hev_socks5_client_read_auth_method stk s;
       if res < 0 then Some (- 1, c, s)
       else do {
         (res, s) \<leftarrow> auth_standard stk c res s;
         if res < 0 then Some (- 1, c, s)
         else do {
           (res, c, s) \<leftarrow> hev_socks5_client_write_request e c s;
           if res < 0 then Some (- 1, c, s)
           else do {
             (res, c, s) \<leftarrow> hev_socks5_client_read_response e stk c s;
             Some (if res < 0 then - 1 else 0, c, s)
           }
         }
       }
     }
   }"

definition hev_socks5_client_handshake_pipeline ::
  "hev_env \<Rightarrow> bytes \<Rightarrow> hclient \<Rightarrow> sock \<Rightarrow> (int \<times> hclient \<times> sock) option" where
  "hev_socks5_client_handshake_pipeline e stk c s = do {
     (res, s) \<leftarrow> hev_socks5_client_write_auth_methods c s;
     if res < 0 then Some (- 1, c, s)
     else do {
       (res, s) \<leftarrow> hev_socks5_client_write_auth_creds c s;
       if res < 0 then Some (- 1, c, s)
       else do {
         (res, c, s) \<leftarrow> hev_socks5_client_write_request e c s;
         if res < 0 then Some (- 1, c, s)
         else do {
           (res, s) \<leftarrow> hev_socks5_client_read_auth_method stk s;
           if res < 0 then Some (- 1, c, s)
           else do {
             (res, s) \<leftarrow> auth_pipeline stk res s;
             if res < 0 then Some (- 1, c, s)
             else do {
               (res, c, s) \<leftarrow> hev_socks5_client_read_response e stk c s;
               Some (if res < 0 then - 1 else 0, c, s)
             }
           }
         }
       }
     }
   }"

definition hev_socks5_client_handshake ::
  "hev_env \<Rightarrow> bytes \<Rightarrow> bool \<Rightarrow> hclient \<Rightarrow> sock \<Rightarrow> (int \<times> hclient \<times> sock) option" where
  "hev_socks5_client_handshake e stk pipeline c s =
     (if pipeline then hev_socks5_client_handshake_pipeline e stk c s
      else hev_socks5_client_handshake_standard e stk c s)"

section \<open>What a handshake sends and takes\<close>

text \<open>The messages, as the bytes of the stream.\<close>

definition creds_msg :: "hclient \<Rightarrow> bytes" where
  "creds_msg c = (case (hc_user c, hc_pass c) of
     (Some u, Some p) \<Rightarrow>
       [1, word_of_nat (length u)] @ take (length u mod 256) u @
       [word_of_nat (length p)] @ take (length p mod 256) p
   | _ \<Rightarrow> [])"

definition request_msg :: "hev_env \<Rightarrow> hclient \<Rightarrow> bytes \<Rightarrow> bool" where
  "request_msg e c m \<longleftrightarrow> (\<exists>cmd addr z.
     req_cmd (hc_type c) = Some cmd \<and> fst (get_upstream_addr e c) = Some (addr @ z) \<and> m = [5, cmd, 0] @ addr \<and>
     (length addr = 7 \<and> hd addr = HEV_SOCKS5_ADDR_TYPE_IPV4 \<or>
      length addr = 19 \<and> hd addr = HEV_SOCKS5_ADDR_TYPE_IPV6))"

named_theorems hs \<open>the messages of a handshake\<close>

lemma write_auth_methods_ok [hs]:
  assumes "steady (3 + n) s"
  shows "\<exists>s'. hev_socks5_client_write_auth_methods c s = Some (0, s') \<and>
    ran [] [5, 1, auth_method c] s s' \<and> steady n s'"
proof -
  obtain s' where s': "hev_task_io_socket_send [5, 1, auth_method c] True s = Some (3, s')"
    "ran [] [5, 1, auth_method c] s s'"
    using send_ok[of "[5, 1, auth_method c]" s] steady_mono[OF assms] by auto
  then show ?thesis
    using ran_steady[OF s'(2), of n] assms
    by (auto simp: hev_socks5_client_write_auth_methods_def numeral_3_eq_3)
qed

lemma creds_msg_Nil: "creds_msg c = [] \<longleftrightarrow> \<not> has_creds c"
  by (auto simp: creds_msg_def has_creds_def split: option.splits)

lemma write_auth_creds_ok [hs]:
  assumes "steady (length (creds_msg c) + n) s"
  shows "\<exists>s'. hev_socks5_client_write_auth_creds c s = Some (0, s') \<and> ran [] (creds_msg c) s s' \<and> steady n s'"
proof (cases "hc_user c = None \<or> hc_pass c = None")
  case True
  then have "creds_msg c = []" by (auto simp: creds_msg_def split: option.splits)
  moreover have "hev_socks5_client_write_auth_creds c s = Some (0, s)"
    using True by (auto simp: hev_socks5_client_write_auth_creds_def split: option.splits)
  ultimately show ?thesis
    using assms ran_refl[of s] by (auto simp: steady_def)
next
  case False
  then obtain u p where up: "hc_user c = Some u" "hc_pass c = Some p" by auto
  let ?v = "[[1, word_of_nat (length u)], take (unat (word_of_nat (length u) :: byte)) u,
    [word_of_nat (length p)], take (unat (word_of_nat (length p) :: byte)) p]"
  have m: "concat ?v = creds_msg c"
    by (simp add: creds_msg_def up unat_of_nat)
  then have ne: "concat ?v \<noteq> []" using creds_msg_Nil[of c] by (simp add: has_creds_def up)
  obtain s' where s': "hev_task_io_socket_sendmsg ?v True s = Some (int (length (creds_msg c)), s')"
    "ran [] (creds_msg c) s s'"
    using sendmsg_ok[of ?v s] steady_mono[OF assms] ne unfolding m by auto
  have "\<not> int (length (creds_msg c)) \<le> 0" using ne unfolding m by simp
  then have "hev_socks5_client_write_auth_creds c s = Some (0, s')"
    using s'(1) by (simp add: hev_socks5_client_write_auth_creds_def up del: concat.simps)
  then show ?thesis
    using s'(2) ran_steady[OF s'(2), of n] assms by simp
qed

lemma write_request_ok [hs]:
  assumes "request_msg e c m" "steady (length m + n) s"
  shows "\<exists>s'. hev_socks5_client_write_request e c s = Some (0, snd (get_upstream_addr e c), s') \<and>
    ran [] m s s' \<and> steady n s'"
proof -
  obtain cmd addr z where a: "req_cmd (hc_type c) = Some cmd" "fst (get_upstream_addr e c) = Some (addr @ z)"
    "m = [5, cmd, 0] @ addr"
    "length addr = 7 \<and> hd addr = HEV_SOCKS5_ADDR_TYPE_IPV4 \<or>
     length addr = 19 \<and> hd addr = HEV_SOCKS5_ADDR_TYPE_IPV6"
    using assms(1) unfolding request_msg_def by blast
  have g: "get_upstream_addr e c = (Some (addr @ z), snd (get_upstream_addr e c))"
    using a(2) by (metis prod.collapse)
  obtain s' where s': "hev_task_io_socket_sendmsg [[5, cmd, 0], addr] True s = Some (int (length m), s')"
    "ran [] m s s'"
    using sendmsg_ok[of "[[5, cmd, 0], addr]" s] steady_mono[OF assms(2)] a(3) by auto
  have r: "rd (addr @ z) 0 = Some (hd addr)"
    using a(4) by (cases addr) (auto simp: rd_def)
  have n: "rdn (addr @ z) 0 (int (length addr)) = Some addr"
    using rdn_first[of addr "int (length addr)" z] by simp
  have "hev_socks5_client_write_request e c s = Some (0, snd (get_upstream_addr e c), s')"
    using a(4) s'(1) r n unfolding hev_socks5_client_write_request_def a(1) option.case
    by (subst g) (auto simp: a(3))
  then show ?thesis
    using s'(2) ran_steady[OF s'(2), of n] assms(2) by auto
qed

lemma read_auth_method_ok [hs]:
  assumes "sk_in s = [5, m] @ z" "steady (2 + n) s" "258 \<le> length stk"
  shows "\<exists>s'. hev_socks5_client_read_auth_method stk s = Some (uint m, s') \<and> ran [5, m] [] s s' \<and> steady n s'"
proof -
  obtain s' where s': "hev_task_io_socket_recv (take 258 stk) 0 2 True s =
      Some (2, [5, m] @ drop 2 (take 258 stk), s')" "ran [5, m] [] s s'"
    using recv_ok[of 2 s 0 "take 258 stk"] steady_mono[OF assms(2), of 2] assms(1,3) by (auto simp: numeral_2_eq_2)
  then show ?thesis
    using ran_steady[OF s'(2), of n] assms(2)
    by (auto simp: hev_socks5_client_read_auth_method_def rd_def)
qed

lemma read_auth_creds_ok [hs]:
  assumes "sk_in s = [1, r] @ z" "steady (2 + n) s" "263 \<le> length stk"
  shows "\<exists>s'. hev_socks5_client_read_auth_creds stk s = Some (if r = 0 then 0 else - 1, s') \<and>
    ran [1, r] [] s s' \<and> steady n s'"
proof -
  obtain s' where s': "hev_task_io_socket_recv (take 263 stk) 0 2 True s =
      Some (2, [1, r] @ drop 2 (take 263 stk), s')" "ran [1, r] [] s s'"
    using recv_ok[of 2 s 0 "take 263 stk"] steady_mono[OF assms(2), of 2] assms(1,3) by (auto simp: numeral_2_eq_2)
  then show ?thesis
    using ran_steady[OF s'(2), of n] assms(2)
    by (auto simp: hev_socks5_client_read_auth_creds_def rd_def)
qed

text \<open>
  The reply of the server with the address it is bound to. The client of a UDP association over
  UDP opens its datagram socket to that address.
\<close>

definition reply_msg :: "byte \<Rightarrow> bytes \<Rightarrow> bytes" where
  "reply_msg r bnd = [5, 0, r] @ wire bnd"

definition env_ok :: "hev_env \<Rightarrow> bool" where
  "env_ok e \<longleftrightarrow> e_mem e \<and> 0 \<le> e_sock e \<and> 0 \<le> e_bind e \<and> 0 \<le> e_connect e"

definition bound_to :: "hclient \<Rightarrow> bytes \<Rightarrow> hclient \<Rightarrow> bool" where
  "bound_to c bnd c' \<longleftrightarrow>
     (if hc_type c = HEV_SOCKS5_TYPE_UDP_IN_UDP
      then \<exists>fd sa. c' = c\<lparr>hc_fd := fd, hc_peer := Some sa\<rparr> \<and> 0 \<le> fd \<and>
             sa_family sa = AF_INET6 \<and> sin6_addr sa = ip6_of bnd \<and> sin_port sa = sin_port bnd
      else c' = c)"

lemma set_upstream_addr_ok:
  assumes "inet_addr bnd" "env_ok e" "263 \<le> length stk"
  shows "\<exists>c'. set_upstream_addr e stk (wire bnd @ z) c = Some (0, c') \<and> bound_to c bnd c'"
proof -
  have "sockaddr_ok (set_family AF_INET6 (take 28 stk))" "sa_family (set_family AF_INET6 (take 28 stk)) \<noteq> AF_INET"
    using assms(3) by (auto simp: sockaddr_ok_def set_family_def) (auto simp: sa_family_def)
  then obtain sa where sa: "hev_socks5_addr_to_sockaddr (wire bnd @ z) (set_family AF_INET6 (take 28 stk)) = Some (28, sa)"
    "sa_family sa = AF_INET6" "sin6_addr sa = ip6_of bnd" "sin_port sa = sin_port bnd"
    using to_sockaddr6_wire[OF assms(1)] by blast
  then show ?thesis
    using assms(2)
    by (auto simp: set_upstream_addr_def hev_socks5_client_udp_set_upstream_addr_def bound_to_def env_ok_def)
qed

lemma wire_Cons:
  assumes "inet_addr bnd"
  obtains t xs where "wire bnd = t # xs" "t = 1 \<and> length xs = 6 \<or> t = 4 \<and> length xs = 18"
  using assms
  by (cases "take 12 (sin6_addr bnd) = mapped4 []") (auto simp: wire_def inet_addr_def)

lemma read_response_ok [hs]:
  assumes "sk_in s = reply_msg r bnd @ z" "steady (length (reply_msg r bnd) + n) s" "263 \<le> length stk"
    "inet_addr bnd" "env_ok e"
  shows "\<exists>s' c'. hev_socks5_client_read_response e stk c s = Some (0, c', s') \<and> bound_to c bnd c' \<and>
    ran (reply_msg r bnd) [] s s' \<and> steady n s'"
proof -
  obtain t xs where w: "wire bnd = t # xs" and t: "t = 1 \<and> length xs = 6 \<or> t = 4 \<and> length xs = 18"
    using wire_Cons[OF assms(4)] .
  define b where "b = [5, 0, r, t] @ drop 4 (take 263 stk)"
  have i: "sk_in s = [5, 0, r, t] @ xs @ z" using assms(1) by (simp add: reply_msg_def w)
  have st: "steady (4 + (length xs + n)) s"
    using assms(2) by (rule steady_mono) (simp add: reply_msg_def w)
  obtain s1 where s1: "hev_task_io_socket_recv (take 263 stk) 0 4 True s = Some (4, b, s1)"
    and r1: "ran [5, 0, r, t] [] s s1"
    using recv_ok[of 4 s 0 "take 263 stk"] steady_mono[OF st, of 4] assms(3) i
    by (auto simp: b_def numeral_eq_Suc)
  have i1: "sk_in s1 = xs @ z" using ran_in[OF r1] i by simp
  have st1: "steady (length xs + n) s1"
    using ran_steady[OF r1, of "length xs + n"] st by (simp add: numeral_eq_Suc)
  define b2 where "b2 = take 4 b @ xs @ drop (4 + length xs) b"
  have lb: "length b = 263" using assms(3) by (simp add: b_def)
  obtain s2 where s2: "hev_task_io_socket_recv b 4 (length xs) True s1 = Some (int (length xs), b2, s2)"
    and r2: "ran xs [] s1 s2"
    using recv_ok[of "length xs" s1 4 b] steady_mono[OF st1, of "length xs"] t lb i1
    by (cases xs) (auto simp: b2_def)
  have "drop 3 b2 = wire bnd @ drop (4 + length xs) b"
    by (simp add: b2_def b_def w numeral_eq_Suc)
  then obtain c' where c': "set_upstream_addr e stk (drop 3 b2) c = Some (0, c')" "bound_to c bnd c'"
    using set_upstream_addr_ok[OF assms(4,5,3)] by metis
  have "rdn b 0 4 = Some [5, 0, r, t]" using lb by (simp add: rdn_def b_def)
  then have "hev_socks5_client_read_response e stk c s = Some (0, c', s2)"
    using s1 s2 t c'(1) by (auto simp: hev_socks5_client_read_response_def Let_def)
  moreover have "ran (reply_msg r bnd) [] s s2"
    using ran_trans[OF r1 r2] by (simp add: reply_msg_def w)
  ultimately show ?thesis
    using c'(2) ran_steady[OF r2, of n] st1 by auto
qed

text \<open>
  Both handshakes against a server that picks the method \<open>m\<close>: what it sends after the greeting
  is the result of the check of the credentials, if that is the method, and its reply.
\<close>

definition server_msgs :: "byte \<Rightarrow> byte \<Rightarrow> bytes \<Rightarrow> bytes" where
  "server_msgs m r bnd = [5, m] @ (if m = HEV_SOCKS5_AUTH_METHOD_USER then [1, 0] else []) @ reply_msg r bnd"

lemma auth_pipeline_ok:
  assumes "sk_in s = (if m = 2 then [1, 0] else []) @ z" "m = 0 \<or> m = 2"
    "steady (length (if m = 2 then [1, 0] else [] :: bytes) + n) s" "263 \<le> length stk"
  shows "\<exists>s'. auth_pipeline stk (uint (m :: byte)) s = Some (0, s') \<and>
    ran (if m = 2 then [1, 0] else []) [] s s' \<and> steady n s'"
proof (cases "m = 2")
  case True
  then have "sk_in s = [1, 0] @ z" "steady (2 + n) s" using assms(1,3) by simp_all
  then obtain s' where "hev_socks5_client_read_auth_creds stk s = Some (0, s')" "ran [1, 0] [] s s'" "steady n s'"
    using read_auth_creds_ok[of s 0 z n stk] assms(4) by auto
  then show ?thesis using True by (simp add: auth_pipeline_def)
next
  case False
  then show ?thesis
    using assms ran_refl[of s] by (auto simp: auth_pipeline_def steady_def)
qed

lemma auth_standard_ok:
  assumes "sk_in s = (if has_creds c then [1, 0] else []) @ z"
    "steady (length (creds_msg c) + (length (if has_creds c then [1, 0] else [] :: bytes) + n)) s" "263 \<le> length stk"
  shows "\<exists>s'. auth_standard stk c (uint (auth_method c)) s = Some (0, s') \<and>
    ran (if has_creds c then [1, 0] else []) (creds_msg c) s s' \<and> steady n s'"
proof (cases "has_creds c")
  case True
  obtain t where t: "hev_socks5_client_write_auth_creds c s = Some (0, t)" "ran [] (creds_msg c) s t" "steady (2 + n) t"
    using write_auth_creds_ok[OF assms(2)] True by auto
  have "sk_in t = [1, 0] @ z" using ran_in[OF t(2)] assms(1) True by simp
  then obtain s' where "hev_socks5_client_read_auth_creds stk t = Some (0, s')" "ran [1, 0] [] t s'" "steady n s'"
    using read_auth_creds_ok[of t 0 z n stk] t(3) assms(3) by auto
  then show ?thesis
    using True t ran_trans[OF t(2)] by (force simp: auth_standard_def auth_method_def)
next
  case False
  then have "creds_msg c = []" by (simp add: creds_msg_Nil)
  then show ?thesis
    using assms False ran_refl[of s] by (auto simp: auth_standard_def auth_method_def steady_def)
qed

lemma server_msgs_method:
  "server_msgs (auth_method c) r bnd =
   [5, auth_method c] @ (if has_creds c then [1, 0] else []) @ reply_msg r bnd"
  by (simp add: server_msgs_def auth_method_def)

lemma handshake_standard_ok:
  assumes i: "sk_in s = server_msgs (auth_method c) r bnd @ z"
    and st: "steady (length (server_msgs (auth_method c) r bnd) + length (creds_msg c) + length req + 3) s"
    and env: "263 \<le> length stk" "inet_addr bnd" "env_ok e" "request_msg e c req"
  shows "\<exists>c' s'. hev_socks5_client_handshake_standard e stk c s = Some (0, c', s') \<and>
    bound_to (snd (get_upstream_addr e c)) bnd c' \<and>
    ran (server_msgs (auth_method c) r bnd) ([5, 1, auth_method c] @ creds_msg c @ req) s s'"
proof -
  define R where "R = length (reply_msg r bnd)"
  define A where "A = (if has_creds c then [1, 0] else [] :: bytes)"
  define c1 where "c1 = snd (get_upstream_addr e c)"
  have "steady (3 + (2 + (length (creds_msg c) + (length A + (length req + R))))) s"
    using st by (rule steady_mono) (simp add: R_def A_def server_msgs_method)
  then obtain s1 where s1: "hev_socks5_client_write_auth_methods c s = Some (0, s1)"
    "ran [] [5, 1, auth_method c] s s1" "steady (2 + (length (creds_msg c) + (length A + (length req + R)))) s1"
    using write_auth_methods_ok by blast
  have i1: "sk_in s1 = [5, auth_method c] @ A @ reply_msg r bnd @ z"
    using ran_in[OF s1(2)] i by (simp add: server_msgs_method A_def)
  have l: "258 \<le> length stk" using env(1) by simp
  obtain s2 where s2: "hev_socks5_client_read_auth_method stk s1 = Some (uint (auth_method c), s2)"
    "ran [5, auth_method c] [] s1 s2" "steady (length (creds_msg c) + (length A + (length req + R))) s2"
    using read_auth_method_ok[OF i1 s1(3) l] by blast
  have i2: "sk_in s2 = A @ reply_msg r bnd @ z" using ran_in[OF s2(2)] i1 by simp
  obtain s3 where s3: "auth_standard stk c (uint (auth_method c)) s2 = Some (0, s3)"
    "ran A (creds_msg c) s2 s3" "steady (length req + R) s3"
    using auth_standard_ok[OF i2[unfolded A_def] s2(3)[unfolded A_def] env(1)] unfolding A_def by blast
  obtain s4 where s4: "hev_socks5_client_write_request e c s3 = Some (0, c1, s4)" "ran [] req s3 s4" "steady R s4"
    using write_request_ok[OF env(4) s3(3)] unfolding c1_def by blast
  have i4: "sk_in s4 = reply_msg r bnd @ z" using ran_in[OF s3(2)] ran_in[OF s4(2)] i2 by simp
  have st4: "steady (length (reply_msg r bnd) + 0) s4" using s4(3) by (simp add: R_def)
  obtain s5 c' where s5: "hev_socks5_client_read_response e stk c1 s4 = Some (0, c', s5)" "bound_to c1 bnd c'"
    "ran (reply_msg r bnd) [] s4 s5"
    using read_response_ok[OF i4 st4 env(1-3)] by blast
  have "hev_socks5_client_handshake_standard e stk c s = Some (0, c', s5)"
    unfolding hev_socks5_client_handshake_standard_def using s1(1) s2(1) s3(1) s4(1) s5(1) by simp
  moreover have "ran (server_msgs (auth_method c) r bnd) ([5, 1, auth_method c] @ creds_msg c @ req) s s5"
    using ran_trans[OF s1(2) ran_trans[OF s2(2) ran_trans[OF s3(2) ran_trans[OF s4(2) s5(3)]]]]
    by (simp add: server_msgs_method A_def)
  ultimately show ?thesis using s5(2) by (auto simp: c1_def)
qed

lemma handshake_pipeline_ok:
  assumes i: "sk_in s = server_msgs (auth_method c) r bnd @ z"
    and st: "steady (length (server_msgs (auth_method c) r bnd) + length (creds_msg c) + length req + 3) s"
    and env: "263 \<le> length stk" "inet_addr bnd" "env_ok e" "request_msg e c req"
  shows "\<exists>c' s'. hev_socks5_client_handshake_pipeline e stk c s = Some (0, c', s') \<and>
    bound_to (snd (get_upstream_addr e c)) bnd c' \<and>
    ran (server_msgs (auth_method c) r bnd) ([5, 1, auth_method c] @ creds_msg c @ req) s s'"
proof -
  define R where "R = length (reply_msg r bnd)"
  define A where "A = (if auth_method c = 2 then [1, 0] else [] :: bytes)"
  define c1 where "c1 = snd (get_upstream_addr e c)"
  have "steady (3 + (length (creds_msg c) + (length req + (2 + (length A + R))))) s"
    using st by (rule steady_mono) (simp add: R_def A_def server_msgs_def)
  then obtain s1 where s1: "hev_socks5_client_write_auth_methods c s = Some (0, s1)"
    "ran [] [5, 1, auth_method c] s s1" "steady (length (creds_msg c) + (length req + (2 + (length A + R)))) s1"
    using write_auth_methods_ok by blast
  obtain s2 where s2: "hev_socks5_client_write_auth_creds c s1 = Some (0, s2)" "ran [] (creds_msg c) s1 s2"
    "steady (length req + (2 + (length A + R))) s2"
    using write_auth_creds_ok[OF s1(3)] by blast
  obtain s3 where s3: "hev_socks5_client_write_request e c s2 = Some (0, c1, s3)" "ran [] req s2 s3"
    "steady (2 + (length A + R)) s3"
    using write_request_ok[OF env(4) s2(3)] unfolding c1_def by blast
  have i3: "sk_in s3 = [5, auth_method c] @ A @ reply_msg r bnd @ z"
    using ran_in[OF s1(2)] ran_in[OF s2(2)] ran_in[OF s3(2)] i by (simp add: server_msgs_def A_def)
  have l: "258 \<le> length stk" using env(1) by simp
  obtain s4 where s4: "hev_socks5_client_read_auth_method stk s3 = Some (uint (auth_method c), s4)"
    "ran [5, auth_method c] [] s3 s4" "steady (length A + R) s4"
    using read_auth_method_ok[OF i3 s3(3) l] by blast
  have i4: "sk_in s4 = A @ reply_msg r bnd @ z" using ran_in[OF s4(2)] i3 by simp
  have m: "auth_method c = 0 \<or> auth_method c = 2" by (simp add: auth_method_def)
  obtain s5 where s5: "auth_pipeline stk (uint (auth_method c)) s4 = Some (0, s5)" "ran A [] s4 s5" "steady R s5"
    using auth_pipeline_ok[OF i4[unfolded A_def] m s4(3)[unfolded A_def] env(1)] unfolding A_def by blast
  have i5: "sk_in s5 = reply_msg r bnd @ z" using ran_in[OF s5(2)] i4 by simp
  have st5: "steady (length (reply_msg r bnd) + 0) s5" using s5(3) by (simp add: R_def)
  obtain s6 c' where s6: "hev_socks5_client_read_response e stk c1 s5 = Some (0, c', s6)" "bound_to c1 bnd c'"
    "ran (reply_msg r bnd) [] s5 s6"
    using read_response_ok[OF i5 st5 env(1-3)] by blast
  have "hev_socks5_client_handshake_pipeline e stk c s = Some (0, c', s6)"
    unfolding hev_socks5_client_handshake_pipeline_def using s1(1) s2(1) s3(1) s4(1) s5(1) s6(1) by simp
  moreover have "ran (server_msgs (auth_method c) r bnd) ([5, 1, auth_method c] @ creds_msg c @ req) s s6"
    using ran_trans[OF s1(2) ran_trans[OF s2(2) ran_trans[OF s3(2) ran_trans[OF s4(2) ran_trans[OF s5(2) s6(3)]]]]]
    by (simp add: server_msgs_def A_def)
  ultimately show ?thesis using s6(2) by (auto simp: c1_def)
qed

lemma handshake_ok:
  assumes "sk_in s = server_msgs (auth_method c) r bnd @ z"
    "steady (length (server_msgs (auth_method c) r bnd) + length (creds_msg c) + length req + 3) s"
    "263 \<le> length stk" "inet_addr bnd" "env_ok e" "request_msg e c req"
  shows "\<exists>c' s'. hev_socks5_client_handshake e stk pl c s = Some (0, c', s') \<and>
    bound_to (snd (get_upstream_addr e c)) bnd c' \<and>
    ran (server_msgs (auth_method c) r bnd) ([5, 1, auth_method c] @ creds_msg c @ req) s s'"
  using handshake_standard_ok[OF assms] handshake_pipeline_ok[OF assms]
  by (simp add: hev_socks5_client_handshake_def)

end
