(* ===== verification/Hevudp.thy ===== *)
theory Hevudp
  imports Hevclient
begin

text \<open>
  The datagrams of the tunnel, \<open>hev-socks5-udp.c\<close>: a datagram goes to the server either inside
  the TCP stream, behind a header with its lengths, or as a datagram of its own behind a SOCKS5
  UDP header. The lemmas show that the two readers get back what the writer sent, and what they
  make of messages nobody of this program writes.
\<close>

section \<open>Writing\<close>

text \<open>
  The header on the stack is \<open>stk\<close>, 263 bytes: \<open>datlen\<close> at 0, \<open>hdrlen\<close> at 2, the address at 3.
  The socket is the one of the client's type, its stream or its datagram socket.
\<close>

definition hev_socks5_udp_sendto ::
  "bytes \<Rightarrow> hev_type \<Rightarrow> bytes \<Rightarrow> nat \<Rightarrow> bytes \<Rightarrow> sock \<Rightarrow> (int \<times> sock) option" where
  "hev_socks5_udp_sendto stk type ubuf len addr s = do {
     (addrlen, a) \<leftarrow> hev_socks5_addr_from_sockaddr (drop 3 (take 263 stk)) addr;
     if addrlen \<le> 0 then Some (- 1, s)
     else if type \<noteq> HEV_SOCKS5_TYPE_UDP_IN_TCP \<and> type \<noteq> HEV_SOCKS5_TYPE_UDP_IN_UDP then Some (- 1, s)
     else do {
       let hdr = (if type = HEV_SOCKS5_TYPE_UDP_IN_TCP
                  then [fst (htons_bytes (int len)), snd (htons_bytes (int len)), word_of_int (3 + addrlen)]
                  else [0, 0, 0]);
       h \<leftarrow> rdn (hdr @ a) 0 (3 + addrlen);
       d \<leftarrow> rdn ubuf 0 (int len);
       hev_task_io_socket_sendmsg [h, d] True s
     }
   }"

section \<open>Reading\<close>

text \<open>
  The vectors of the second read are the rest of the header, whose length is converted to
  \<open>size_t\<close>, and the buffer of the caller.
\<close>

definition hev_socks5_udp_recvfrom_tcp ::
  "bytes \<Rightarrow> bytes \<Rightarrow> nat \<Rightarrow> bytes \<Rightarrow> sock \<Rightarrow> (int \<times> bytes \<times> bytes \<times> sock) option" where
  "hev_socks5_udp_recvfrom_tcp stk ubuf len addr s = do {
     (res, udp, s) \<leftarrow> hev_task_io_socket_recv (take 263 stk) 0 4 True s;
     if res \<le> 0 then Some (res, ubuf, addr, s)
     else do {
       h \<leftarrow> rdn udp 0 4;
       let datlen = uint (h ! 0) * 256 + uint (h ! 1);
       if int len < datlen then Some (- 1, ubuf, addr, s)
       else do {
         (res, m, s) \<leftarrow> hev_task_io_socket_recvmsg [udp, ubuf]
            [(0, 4, nat (c_size (uint (h ! 2) - 4))), (1, 0, nat datlen)] True s;
         let udp = m ! 0;
         let ubuf = m ! 1;
         if res \<le> 0 then Some (res, ubuf, addr, s)
         else do {
           (res, addr) \<leftarrow> hev_socks5_addr_to_sockaddr (drop 3 udp) addr;
           Some (if res < 0 then - 1 else datlen, ubuf, addr, s)
         }
       }
     }
   }"

definition hev_socks5_udp_recvfrom_udp ::
  "bytes \<Rightarrow> bytes \<Rightarrow> nat \<Rightarrow> bytes \<Rightarrow> sock \<Rightarrow> (int \<times> bytes \<times> bytes \<times> sock) option" where
  "hev_socks5_udp_recvfrom_udp stk ubuf len addr s = do {
     (rlen, rbuf, s) \<leftarrow> hev_task_io_socket_recvfrom (take 1500 stk) 0 1500 False s;
     if rlen < 4 then Some (rlen, ubuf, addr, s)
     else do {
       t \<leftarrow> rd rbuf 3;
       let doff = (if t = HEV_SOCKS5_ADDR_TYPE_IPV4 then 10
                   else if t = HEV_SOCKS5_ADDR_TYPE_IPV6 then 22 else - 1);
       if doff < 0 then Some (- 1, ubuf, addr, s)
       else if rlen < doff then Some (- 1, ubuf, addr, s)
       else do {
         let rlen = min (int len) (rlen - doff);
         d \<leftarrow> rdn rbuf doff rlen;
         ubuf \<leftarrow> wrn ubuf 0 d;
         (res, addr) \<leftarrow> hev_socks5_addr_to_sockaddr (drop 3 rbuf) addr;
         Some (if res < 0 then - 1 else rlen, ubuf, addr, s)
       }
     }
   }"

definition hev_socks5_udp_recvfrom ::
  "bytes \<Rightarrow> hev_type \<Rightarrow> bytes \<Rightarrow> nat \<Rightarrow> bytes \<Rightarrow> sock \<Rightarrow> (int \<times> bytes \<times> bytes \<times> sock) option" where
  "hev_socks5_udp_recvfrom stk type ubuf len addr s =
     (if type = HEV_SOCKS5_TYPE_UDP_IN_TCP then hev_socks5_udp_recvfrom_tcp stk ubuf len addr s
      else if type = HEV_SOCKS5_TYPE_UDP_IN_UDP then hev_socks5_udp_recvfrom_udp stk ubuf len addr s
      else Some (- 1, ubuf, addr, s))"

section \<open>A frame in the stream\<close>

text \<open>What a datagram looks like in the stream.\<close>

definition frame_msg :: "bytes \<Rightarrow> bytes \<Rightarrow> bytes" where
  "frame_msg sa d =
     [fst (htons_bytes (int (length d))), snd (htons_bytes (int (length d))),
      word_of_nat (3 + length (wire sa))] @ wire sa @ d"

definition udp_msg :: "bytes \<Rightarrow> bytes \<Rightarrow> bytes" where
  "udp_msg sa d = [0, 0, 0] @ wire sa @ d"

lemma htons_round_trip:
  "0 \<le> n \<Longrightarrow> n < 65536 \<Longrightarrow> uint (fst (htons_bytes n)) * 256 + uint (snd (htons_bytes n)) = n"
  by (simp add: htons_bytes_def uint_word_of_int)

lemma udp_sendto_is_send:
  assumes "inet_addr sa" "263 \<le> length stk" "length d \<le> length ubuf" "d = take (length d) ubuf"
  shows "hev_socks5_udp_sendto stk type ubuf (length d) sa s =
    (if type = HEV_SOCKS5_TYPE_UDP_IN_TCP then hev_task_io_socket_send (frame_msg sa d) True s
     else if type = HEV_SOCKS5_TYPE_UDP_IN_UDP then hev_task_io_socket_send (udp_msg sa d) True s
     else Some (- 1, s))"
proof -
  let ?n = "length (wire sa)" and ?x = "drop 3 (take 263 stk)"
  have l: "?n = 7 \<or> ?n = 19" using length_wire[OF assms(1)] .
  have f: "hev_socks5_addr_from_sockaddr ?x sa = Some (int ?n, wire sa @ drop ?n ?x)"
    using from_sockaddr_wire[OF assms(1), of ?x] l assms(2) by auto
  have h: "rdn ([x, y, z] @ wire sa @ q) 0 (3 + int ?n) = Some ([x, y, z] @ wire sa)" for x y z q
    using rdn_first[of "[x, y, z] @ wire sa" "3 + int ?n" q] by (simp add: nat_add_distrib)
  have d: "rdn ubuf 0 (int (length d)) = Some d"
    using assms(3,4) by (simp add: rdn_def)
  have c: "concat [[x, y, z] @ wire sa, d] = [x, y, z] @ wire sa @ d" for x y z by simp
  have p: "\<not> int ?n \<le> 0" using l by auto
  show ?thesis
    unfolding hev_socks5_udp_sendto_def f
    using p d by (auto simp: Let_def h sendmsg_is_send c frame_msg_def udp_msg_def
        simp del: concat.simps append_Cons)
qed

lemma frame_length: "length (frame_msg sa d) = 3 + length (wire sa) + length d"
  by (simp add: frame_msg_def)

lemma scatter_two:
  assumes "wrn a i x = Some a'" "wrn b j y = Some b'" "length x = n" "length y = m"
  shows "scatter [a, b] [(0, i, n), (1, j, m)] (x @ y) = Some [a', b']"
  using assms by simp

lemma recvfrom_tcp_frame:
  assumes sa: "inet_addr sa" and i: "sk_in s = frame_msg sa d @ z" and st: "steady (length (frame_msg sa d) + n) s"
    and d: "length d \<le> len" "len \<le> length ubuf" "length d < 65536" and stk: "263 \<le> length stk"
    and dst: "sockaddr_ok dst" "readable sa dst"
  shows "\<exists>ubuf' dst' s'. hev_socks5_udp_recvfrom_tcp stk ubuf len dst s = Some (int (length d), ubuf', dst', s') \<and>
    take (length d) ubuf' = d \<and> ip6_of dst' = ip6_of sa \<and> sin_port dst' = sin_port sa \<and>
    sa_family dst' = (if sa_family dst = AF_INET then AF_INET else AF_INET6) \<and>
    ran (frame_msg sa d) [] s s' \<and> steady n s'"
proof -
  obtain t xs where w: "wire sa = t # xs" and t: "t = 1 \<and> length xs = 6 \<or> t = 4 \<and> length xs = 18"
    using wire_Cons[OF sa] .
  let ?h = "htons_bytes (int (length d))" and ?k = "length xs + length d"
  define hd4 where "hd4 = [fst ?h, snd ?h, word_of_nat (4 + length xs), t]"
  define b where "b = hd4 @ drop 4 (take 263 stk)"
  have l4: "length hd4 = 4" by (simp add: hd4_def)
  have f: "frame_msg sa d = hd4 @ xs @ d" by (simp add: frame_msg_def hd4_def w)
  have i0: "sk_in s = hd4 @ xs @ d @ z" using i f by simp
  have st0: "steady (4 + (?k + n)) s" using st by (rule steady_mono) (simp add: f l4)
  obtain s1 where s1: "hev_task_io_socket_recv (take 263 stk) 0 4 True s = Some (4, b, s1)"
    and r1: "ran hd4 [] s s1"
    using recv_ok[of 4 s 0 "take 263 stk"] steady_mono[OF st0, of 4] stk i0 l4 by (auto simp: b_def)
  have i1: "sk_in s1 = (xs @ d) @ z" using ran_in[OF r1] i0 by simp
  have st1: "steady (?k + n) s1" using ran_steady[OF r1, of "?k + n"] st0 l4 by simp
  let ?v = "[(0, 4, length xs), (1, 0, length d)] :: iovec list"
  have lb: "length b = 263" using stk l4 by (simp add: b_def)
  have tot: "iov_total ?v = ?k" by simp
  have ok: "iov_ok [b, ubuf] ?v" using lb t d by (auto simp: iov_ok_def)
  have pre: "steady ?k s1" "0 < ?k" "?k \<le> length (sk_in s1)" "?k < 2 ^ 63"
    using steady_mono[OF st1, of ?k] t i1 d(3) by auto
  have tk: "take ?k (sk_in s1) = xs @ d" using i1 by simp
  obtain m' s2 where s2: "hev_task_io_socket_recvmsg [b, ubuf] ?v True s1 = Some (int ?k, m', s2)"
    and sc: "scatter [b, ubuf] ?v (xs @ d) = Some m'" and r2: "ran (xs @ d) [] s1 s2"
    using recvmsg_ok[of ?v s1 "[b, ubuf]", unfolded tot, OF pre(1-3) ok pre(4), unfolded tk] by blast
  define b2 where "b2 = take 4 b @ xs @ drop (4 + length xs) b"
  define u2 where "u2 = d @ drop (length d) ubuf"
  have wr: "wrn b 4 xs = Some b2" "wrn ubuf 0 d = Some u2"
    using wrn_nat[of 4 xs b] wrn_nat[of 0 d ubuf] lb t d by (auto simp: b2_def u2_def)
  then have m': "m' = [b2, u2]" using sc scatter_two[OF wr refl refl] by simp
  have "drop 3 b2 = wire sa @ drop (4 + length xs) b"
    by (simp add: b2_def b_def hd4_def w numeral_eq_Suc)
  then obtain r dst' where a: "hev_socks5_addr_to_sockaddr (drop 3 b2) dst = Some (r, dst')" "0 < r"
    "ip6_of dst' = ip6_of sa" "sin_port dst' = sin_port sa"
    "sa_family dst' = (if sa_family dst = AF_INET then AF_INET else AF_INET6)"
    using to_sockaddr_wire[OF sa dst(1), of "drop (4 + length xs) b"] dst(2) by auto
  have h: "rdn b 0 4 = Some hd4" using rdn_first[of hd4 4] by (simp add: b_def l4)
  have hd: "uint (hd4 ! 0) * 256 + uint (hd4 ! 1) = int (length d)" "nat (c_size (uint (hd4 ! 2) - 4)) = length xs"
    using htons_round_trip[of "int (length d)"] d(3) t by (auto simp: hd4_def uint_word_of_int)
  have "hev_socks5_udp_recvfrom_tcp stk ubuf len dst s = Some (int (length d), u2, dst', s2)"
    using s1 s2 h hd d(1) a(1,2) t m' by (auto simp: hev_socks5_udp_recvfrom_tcp_def Let_def)
  moreover have "ran (frame_msg sa d) [] s s2"
    using ran_trans[OF r1 r2] by (simp add: f)
  ultimately show ?thesis
    using a ran_steady[OF r2, of n] st1 by (auto simp: u2_def)
qed

text \<open>
  A datagram of any length: the 1500 bytes of the local buffer and the caller's \<open>len\<close> cut the
  payload.
\<close>

definition udp_room :: "bytes \<Rightarrow> nat" where
  "udp_room sa = 1500 - length ([0, 0, 0] @ wire sa)"

lemma udp_room_is:
  assumes "inet_addr sa"
  shows "udp_room sa = (if take 12 (ip6_of sa) = mapped4 [] then 1490 else 1478)"
proof -
  have "take 12 (mapped4 x) = mapped4 []" for x
    by (simp add: mapped4_def)
  then show ?thesis
    using assms by (auto simp: udp_room_def wire_def ip6_of_def inet_addr_def)
qed

lemma udp_msg_cut:
  assumes "inet_addr sa"
  shows "take 1500 (udp_msg sa d) = udp_msg sa (take (udp_room sa) d)"
  using length_wire[OF assms] by (auto simp: udp_msg_def udp_room_def numeral_3_eq_3 take_Cons')

lemma recvfrom_udp_msg:
  assumes sa: "inet_addr sa" and dg: "sk_dgram s" "sk_dg s = udp_msg sa d # ds" "sk_ticks s = Move k # ts"
    and len: "len \<le> length ubuf" and stk: "1500 \<le> length stk" and dst: "sockaddr_ok dst"
  defines "n \<equiv> min len (min (length d) (udp_room sa))"
  shows "\<exists>ubuf' dst' s'. hev_socks5_udp_recvfrom_udp stk ubuf len dst s =
      Some (if readable sa dst then int n else - 1, ubuf', dst', s') \<and>
    take n ubuf' = take n d \<and> (readable sa dst \<longrightarrow> ip6_of dst' = ip6_of sa \<and> sin_port dst' = sin_port sa) \<and>
    sk_dg s' = ds \<and> sk_ticks s' = ts \<and> sk_dgram s'"
proof -
  define e where "e = take (udp_room sa) d"
  have n: "n = min len (length e)" "take n d = take n e" by (auto simp: n_def e_def)
  obtain t xs where w: "wire sa = t # xs" and t: "t = 1 \<and> length xs = 6 \<or> t = 4 \<and> length xs = 18"
    using wire_Cons[OF sa] .
  let ?L = "4 + length xs + length e"
  define b where "b = udp_msg sa e @ drop ?L (take 1500 stk)"
  have l: "length (udp_msg sa e) = ?L" "?L \<le> 1500"
    using t by (auto simp: udp_msg_def w e_def udp_room_def)
  define s1 where "s1 = s\<lparr>sk_dg := ds, sk_ticks := ts\<rparr>"
  have c: "take 1500 (udp_msg sa d) = udp_msg sa e" using udp_msg_cut[OF sa] by (simp add: e_def)
  have r: "hev_task_io_socket_recvfrom (take 1500 stk) 0 1500 False s = Some (int ?L, b, s1)"
    using dg stk wrn_nat[of 0 "udp_msg sa e" "take 1500 stk"] l c
    by (simp add: hev_task_io_socket_recvfrom_def k_recv_def io_return_def b_def s1_def)
  have b: "b = [0, 0, 0] @ wire sa @ e @ drop ?L (take 1500 stk)"
    by (simp add: b_def udp_msg_def)
  have t3: "rd b 3 = Some t" by (simp add: b w rd_def numeral_3_eq_3)
  have "rdn b (4 + int (length xs)) (int n) = rdn (e @ drop ?L (take 1500 stk)) 0 (int n)"
    using rdn_skip[of "4 + int (length xs)" "[0, 0, 0] @ wire sa" 0 "e @ drop ?L (take 1500 stk)" "int n"]
    by (simp add: b w)
  also have "\<dots> = Some (take n e)" by (simp add: rdn_def n(1))
  finally have dd: "rdn b (4 + int (length xs)) (int n) = Some (take n e)" .
  have wr: "wrn ubuf 0 (take n e) = Some (take n e @ drop n ubuf)"
    using wrn_nat[of 0 "take n e" ubuf] len by (simp add: n(1) min_def split: if_splits)
  have "drop 3 b = wire sa @ e @ drop ?L (take 1500 stk)" by (simp add: b numeral_3_eq_3)
  then obtain q dst' where a: "hev_socks5_addr_to_sockaddr (drop 3 b) dst = Some (q, dst')"
    "if readable sa dst then 0 < q \<and> sockaddr_ok dst' \<and> ip6_of dst' = ip6_of sa \<and> sin_port dst' = sin_port sa \<and>
       sa_family dst' = (if sa_family dst = AF_INET then AF_INET else AF_INET6) else q = - 1"
    using to_sockaddr_wire[OF sa dst, of "e @ drop ?L (take 1500 stk)"] by auto
  have m: "min (int len) (int ?L - (4 + int (length xs))) = int n" by (simp add: n(1))
  have "hev_socks5_udp_recvfrom_udp stk ubuf len dst s =
      Some (if q < 0 then - 1 else int n, take n e @ drop n ubuf, dst', s1)"
    unfolding hev_socks5_udp_recvfrom_udp_def r
    using t t3 dd wr a(1) m by (auto simp: Let_def)
  moreover have "take n (take n e @ drop n ubuf) = take n d"
    by (simp add: n(2)) (simp add: n(1))
  ultimately show ?thesis
    using a(2) by (auto simp: s1_def dg split: if_splits)
qed

text \<open>On a datagram socket a send is one message, and it is complete.\<close>

lemma send_dgram:
  assumes "sk_dgram s" "sk_ticks s = Move k # ts" "d \<noteq> []"
  shows "hev_task_io_socket_send d True s = Some (int (length d), s\<lparr>sk_out := sk_out s @ [d], sk_ticks := ts\<rparr>)"
  using assms by (simp add: hev_task_io_socket_send_def k_send_def io_return_def)

section \<open>Messages of any kind\<close>

lemma recvmsg_loop_huge:
  "0 < moves ts \<Longrightarrow> 2 ^ 63 \<le> iov_total vs \<Longrightarrow>
   \<exists>r s'. recvmsg_loop True len m vs 0 s ts = Some (r, m, s') \<and> r < 0"
proof (induction ts)
  case (Cons t ts)
  then show ?case by (cases t) auto
qed simp

lemma recvmsg_loop_zero:
  "0 < moves ts \<Longrightarrow> iov_total vs = 0 \<Longrightarrow> iov_ok m vs \<Longrightarrow> \<not> sk_dgram s \<Longrightarrow>
   \<exists>r s'. recvmsg_loop True len m vs 0 s ts = Some (r, m, s') \<and> r \<le> 0"
proof (induction ts)
  case (Cons t ts)
  then show ?case
    by (cases t) (auto simp: k_recv_stream scatter_Nil io_return_def)
qed simp

lemma recvmsg_total:
  assumes "\<not> sk_dgram s" "iov_total vs < 2 ^ 63 \<Longrightarrow> iov_ok m vs"
    "iov_total vs < 2 ^ 63 \<Longrightarrow> iov_total vs \<le> moves (sk_ticks s)" "0 < moves (sk_ticks s)"
  shows "\<exists>r m' s'. hev_task_io_socket_recvmsg m vs True s = Some (r, m', s') \<and> map length m' = map length m"
proof -
  consider "2 ^ 63 \<le> iov_total vs" | "iov_total vs = 0" | "0 < iov_total vs" "iov_total vs < 2 ^ 63" by linarith
  then show ?thesis
  proof cases
    case 1
    then show ?thesis
      using recvmsg_loop_huge[OF assms(4), of vs] by (fastforce simp: hev_task_io_socket_recvmsg_def)
  next
    case 2
    then show ?thesis
      using recvmsg_loop_zero[OF assms(4), of vs m s] assms(1,2) by (fastforce simp: hev_task_io_socket_recvmsg_def)
  next
    case 3
    then show ?thesis
      using recvmsg_loop_total[OF assms(1), of 0 "iov_total vs" "sk_ticks s" m vs] assms(2,3)
      by (auto simp: hev_task_io_socket_recvmsg_def)
  qed
qed

lemma to_sockaddr_total:
  "19 \<le> length a \<Longrightarrow> \<exists>r o'. hev_socks5_addr_to_sockaddr a dst = Some (r, o')"
  by (cases a) (auto simp: hev_socks5_addr_to_sockaddr_def hev_socks5_addr_to_sockaddr4_def
      hev_socks5_addr_to_sockaddr6_def rd_def rdn_def)

lemma recv_dgram_total:
  assumes "sk_dgram s" "sk_dg s \<noteq> []" "0 < moves ts" "len \<le> length b"
  shows "\<exists>r b' s'. recv_loop False b 0 len 0 s ts = Some (r, b', s') \<and> r \<le> int len \<and> length b' = length b"
  using assms
proof (induction ts)
  case Nil
  then show ?case by simp
next
  case (Cons t ts)
  then obtain d ds where d: "sk_dg s = d # ds" by (cases "sk_dg s") auto
  show ?case
  proof (cases t)
    case (Move n)
    have "wrn b 0 (take len d) = Some (take len d @ drop (length (take len d)) b)"
      using wrn_nat[of 0 "take len d" b] Cons.prems(4) by simp
    then show ?thesis using Move d Cons.prems by (auto simp: k_recv_def io_return_def)
  qed (use Cons in auto)
qed

lemma uint_byte: "0 \<le> uint (x :: byte)" "uint x < 256"
  using uint_lt2p[of x] by simp_all

lemma c_size_negative: "- (2 ^ 64) \<le> i \<Longrightarrow> i < 0 \<Longrightarrow> c_size i = i + 2 ^ 64"
proof -
  assume "- (2 ^ 64) \<le> i" "i < 0"
  then have "(i + 2 ^ 64) mod 2 ^ 64 = i + 2 ^ 64" by (intro mod_pos_pos_trivial) simp_all
  then show ?thesis by (simp add: c_size_def)
qed

lemma header_rest:
  assumes "0 \<le> x" "x < 256" "nat (c_size (x - 4)) < 2 ^ 63"
  shows "nat (c_size (x - 4)) \<le> 251"
proof (cases "4 \<le> x")
  case True
  then show ?thesis using assms by simp
next
  case False
  then have "c_size (x - 4) = x - 4 + 2 ^ 64" using assms by (intro c_size_negative) simp_all
  then show ?thesis using assms by simp
qed

lemma recvfrom_udp_returns:
  assumes s: "sk_dgram s" "sk_dg s \<noteq> []" "0 < moves (sk_ticks s)"
    and "len \<le> length ubuf" and "1500 \<le> length stk"
  shows "\<exists>r ubuf' dst' s'. hev_socks5_udp_recvfrom_udp stk ubuf len dst s = Some (r, ubuf', dst', s') \<and>
    length ubuf' = length ubuf \<and> (r \<le> int len \<or> r < 4 \<and> ubuf' = ubuf \<and> dst' = dst)"
proof -
  have l: "length (take 1500 stk) = 1500" using assms(5) by simp
  obtain rl b s1 where r: "hev_task_io_socket_recvfrom (take 1500 stk) 0 1500 False s = Some (rl, b, s1)"
    "rl \<le> 1500" "length b = 1500"
    using recv_dgram_total[OF s eq_refl[OF l[symmetric]]] unfolding hev_task_io_socket_recvfrom_def l by auto
  have w: "\<exists>d u. rdn b q n = Some d \<and> wrn ubuf 0 d = Some u \<and> length u = length ubuf"
    if "n = min (int len) (rl - q)" "0 \<le> q" "q \<le> rl" for q n
  proof -
    have "0 \<le> n" "q + n \<le> 1500" "nat n \<le> length ubuf" using that r(2) assms(4) by auto
    then have "rdn b q n = Some (take (nat n) (drop (nat q) b))" "length (take (nat n) (drop (nat q) b)) \<le> length ubuf"
      using r(3) that by (auto simp: rdn_def)
    then show ?thesis using wrn_Some[of 0 "take (nat n) (drop (nat q) b)" ubuf] by auto
  qed
  show ?thesis
  proof (cases "rl < 4")
    case True
    then show ?thesis using r(1) by (simp add: hev_socks5_udp_recvfrom_udp_def)
  next
    case False
    define doff where "doff = (if b ! 3 = 1 then 10 else if b ! 3 = 4 then 22 else - 1 :: int)"
    have t3: "rd b 3 = Some (b ! 3)" using r(3) by (simp add: rd_def)
    obtain ra oa where a: "hev_socks5_addr_to_sockaddr (drop 3 b) dst = Some (ra, oa)"
      using to_sockaddr_total[of "drop 3 b" dst] r(3) by auto
    show ?thesis
    proof (cases "doff < 0 \<or> rl < doff")
      case True
      then show ?thesis
        unfolding hev_socks5_udp_recvfrom_udp_def r(1)
        using False t3 by (auto simp: doff_def[symmetric] Let_def)
    next
      case dj: False
      then obtain d u where "rdn b doff (min (int len) (rl - doff)) = Some d" "wrn ubuf 0 d = Some u" "length u = length ubuf"
        using w[OF refl, of doff] by force
      then show ?thesis
        unfolding hev_socks5_udp_recvfrom_udp_def r(1)
        using False t3 dj a by (auto simp: doff_def[symmetric] Let_def)
    qed
  qed
qed

lemma recvfrom_tcp_returns:
  assumes s: "\<not> sk_dgram s" "256 + len \<le> moves (sk_ticks s)"
    and "len \<le> length ubuf" and "1500 \<le> length stk"
  shows "\<exists>r ubuf' dst' s'. hev_socks5_udp_recvfrom_tcp stk ubuf len dst s = Some (r, ubuf', dst', s') \<and>
    length ubuf' = length ubuf \<and> r \<le> int len"
proof -
  obtain r1 b s1 where r: "hev_task_io_socket_recv (take 263 stk) 0 4 True s = Some (r1, b, s1)" "r1 \<le> 4"
    "length b = 263" "\<not> sk_dgram s1" "moves (sk_ticks s) \<le> moves (sk_ticks s1) + 4"
    using recv_total[OF s(1), of 4 0 "take 263 stk"] s(2) assms(4) by auto
  define h where "h = take 4 b"
  have h: "rdn b 0 4 = Some h" using r(3) by (simp add: rdn_def h_def)
  define dl where "dl = uint (h ! 0) * 256 + uint (h ! 1)"
  let ?v = "[(0, 4, nat (c_size (uint (h ! 2) - 4))), (1, 0, nat dl)] :: iovec list"
  have hl: "0 \<le> uint (h ! 2)" "uint (h ! 2) < 256" "0 \<le> dl"
    using uint_byte[of "h ! 2"] uint_byte[of "h ! 0"] uint_byte[of "h ! 1"] by (simp_all add: dl_def)
  show ?thesis
  proof (cases "r1 \<le> 0 \<or> int len < dl")
    case True
    then show ?thesis
      using r(1,2) h unfolding hev_socks5_udp_recvfrom_tcp_def
      by (auto simp: Let_def dl_def)
  next
    case False
    have c: "nat (c_size (uint (h ! 2) - 4)) \<le> 251" if "iov_total ?v < 2 ^ 63"
      by (rule header_rest[OF hl(1,2)]) (use that in simp)
    have ok: "iov_ok [b, ubuf] ?v" "iov_total ?v \<le> moves (sk_ticks s1)" if "iov_total ?v < 2 ^ 63"
      using c[OF that] r(3,5) s(2) False hl assms(3) by (auto simp: iov_ok_def nat_le_iff)
    obtain r2 m' s2 where r2: "hev_task_io_socket_recvmsg [b, ubuf] ?v True s1 = Some (r2, m', s2)"
      "map length m' = [263, length ubuf]"
      using recvmsg_total[OF r(4), of ?v "[b, ubuf]"] ok r(3,5) s(2) by auto
    then obtain b2 u2 where m': "m' = [b2, u2]" "length b2 = 263" "length u2 = length ubuf"
      by (auto simp: map_eq_Cons_conv)
    obtain ra oa where a: "hev_socks5_addr_to_sockaddr (drop 3 b2) dst = Some (ra, oa)"
      using to_sockaddr_total[of "drop 3 b2" dst] m'(2) by auto
    show ?thesis
      using r(1) h r2(1) m' a False unfolding hev_socks5_udp_recvfrom_tcp_def
      by (auto simp: Let_def dl_def)
  qed
qed

text \<open>
  C14. Whatever a server sends the tunnel as a datagram, in the stream or as a datagram of its own,
  reading it ends, with an error or with at most as many bytes as the caller has room for, except
  that a datagram of less than four bytes is reported with its length while the buffer and the
  address stay as they were: no length field makes the code leave the header on its stack or the caller's buffer, not even a
  header length below the four bytes already read, which becomes a huge \<open>size_t\<close>.
\<close>

theorem udp_recv_returns:
  assumes "type = HEV_SOCKS5_TYPE_UDP_IN_TCP \<and> \<not> sk_dgram s \<and> 256 + len \<le> moves (sk_ticks s) \<or>
      type = HEV_SOCKS5_TYPE_UDP_IN_UDP \<and> sk_dgram s \<and> sk_dg s \<noteq> [] \<and> 0 < moves (sk_ticks s)"
    and "len \<le> length ubuf" and "1500 \<le> length stk"
  shows "\<exists>r ubuf' dst' s'. hev_socks5_udp_recvfrom stk type ubuf len dst s = Some (r, ubuf', dst', s') \<and>
    length ubuf' = length ubuf \<and>
    (r \<le> int len \<or> type = HEV_SOCKS5_TYPE_UDP_IN_UDP \<and> r < 4 \<and> ubuf' = ubuf \<and> dst' = dst)"
  using assms recvfrom_udp_returns[of s len ubuf stk dst] recvfrom_tcp_returns[of s len ubuf stk dst]
  by (auto simp: hev_socks5_udp_recvfrom_def)

section \<open>Concrete clients and sockets\<close>

definition demo_client :: hclient where
  "demo_client = (new_client HEV_SOCKS5_TYPE_UDP_IN_UDP)\<lparr>hc_user := Some [117], hc_pass := Some [112, 119]\<rparr>"

definition demo_env :: hev_env where
  "demo_env = \<lparr>e_mem = True, e_sock = 9, e_bind = 0, e_connect = 0\<rparr>"

definition demo_sock :: "bytes \<Rightarrow> sock" where
  "demo_sock i = \<lparr>sk_dgram = False, sk_in = i, sk_dg = [], sk_out = [],
     sk_ticks = concat (replicate 64 [Wait 60000 59000, Move 1])\<rparr>"

lemma demo_sock_simps:
  "sk_in (demo_sock i) = i" "sk_out (demo_sock i) = []" "steady 64 (demo_sock i)"
  by (simp_all add: demo_sock_def steady_def task_io_yielder_def moves_def numeral_eq_Suc)

lemma demo_inet: "inet_addr demo_v4" "length (wire demo_v4) = 7"
  using demo_v4_simps by (simp_all add: inet_addr_def wire_def)

definition demo_v6 :: bytes where
  "demo_v6 = [10, 0, 1, 187, 0, 0, 0, 0, 32, 1, 13, 184] @ replicate 11 0 @ [1, 0, 0, 0, 0]"

lemma demo_v6_simps: "inet_addr demo_v6" "length (wire demo_v6) = 19"
  by code_simp+

theorem udp_recv_returns_witness:
  "\<exists>r ubuf' dst' s'. hev_socks5_udp_recvfrom (replicate 1500 0) HEV_SOCKS5_TYPE_UDP_IN_UDP (replicate 8 0) 8 demo_v4
     \<lparr>sk_dgram = True, sk_in = [], sk_dg = [[1, 2, 3]], sk_out = [], sk_ticks = [Move 0]\<rparr> = Some (r, ubuf', dst', s') \<and>
    length ubuf' = length (replicate 8 (0 :: byte)) \<and>
    (r \<le> int 8 \<or> HEV_SOCKS5_TYPE_UDP_IN_UDP = HEV_SOCKS5_TYPE_UDP_IN_UDP \<and> r < 4 \<and> ubuf' = replicate 8 0 \<and> dst' = demo_v4)"
  by (rule udp_recv_returns) (simp_all del: replicate.simps)

end
