(* ===== verification/Tunnel.thy ===== *)
theory Tunnel
  imports Hevudp
begin

text \<open>
  The tunnel and the proxy together. On the phone the tunnel's SOCKS5 client connects to the
  proxy of the same application, so what one writes the other must read. The properties here
  run the client of \<open>Hevclient\<close> against the messages that the definitions of \<open>Socks\<close> produce
  and consume, and state what the handshake does whatever the network does to it.
\<close>

section \<open>The client alone\<close>

text \<open>
  C11. Whatever way the network cuts the messages, both handshakes of the tunnel's client succeed
  against a server that picks the method the client offered, accepts its credentials and
  replies with an address: they send exactly greeting, credentials and request, take exactly
  the server's messages and not one byte of the data behind them, and a client for UDP over UDP
  ends up connected to the address of the reply. So the pipelined handshake is equivalent to
  the standard one on such servers.
\<close>

theorem handshake_exchanges:
  assumes "sk_in s = server_msgs (auth_method c) r bnd @ z"
    and "steady (length (server_msgs (auth_method c) r bnd) + length (creds_msg c) + length req + 3) s"
    and "263 \<le> length stk" and "inet_addr bnd" and "env_ok e" and "request_msg e c req"
  shows "\<exists>c' s'. hev_socks5_client_handshake e stk pipeline c s = Some (0, c', s') \<and>
    bound_to (snd (get_upstream_addr e c)) bnd c' \<and> sk_in s' = z \<and>
    concat (sk_out s') = concat (sk_out s) @ [5, 1, auth_method c] @ creds_msg c @ req"
proof -
  obtain c' s' where h: "hev_socks5_client_handshake e stk pipeline c s = Some (0, c', s')"
    "bound_to (snd (get_upstream_addr e c)) bnd c'"
    "ran (server_msgs (auth_method c) r bnd) ([5, 1, auth_method c] @ creds_msg c @ req) s s'"
    using handshake_ok[OF assms, of pipeline] by blast
  have "sk_in s' = z" using ran_in[OF h(3)] assms(1) by simp
  then show ?thesis using h ran_out[OF h(3)] by auto
qed

theorem handshake_exchanges_witness:
  "\<exists>c' s'. hev_socks5_client_handshake demo_env (replicate 263 0) True demo_client
     (demo_sock (server_msgs 2 0 demo_v4 @ [1, 2, 3])) = Some (0, c', s') \<and>
    sk_in s' = [1, 2, 3] \<and>
    concat (sk_out s') = [5, 1, 2, 1, 1, 117, 2, 112, 119, 5, 3, 0, 1, 0, 0, 0, 0, 0, 0]"
proof -
  have a: "auth_method demo_client = 2" "creds_msg demo_client = [1, 1, 117, 2, 112, 119]"
    by (simp_all add: demo_client_def new_client_def auth_method_def has_creds_def creds_msg_def)
  have rq: "request_msg demo_env demo_client [5, 3, 0, 1, 0, 0, 0, 0, 0, 0]"
    unfolding request_msg_def
    by (intro exI[of _ 3] exI[of _ "[1, 0, 0, 0, 0, 0, 0]"] exI[of _ "[]"])
       (simp add: demo_client_def new_client_def demo_env_def get_upstream_addr_def req_cmd_def numeral_eq_Suc)
  have st: "steady n (demo_sock i)" if "n \<le> 64" for n i
    using demo_sock_simps(3) that by (rule steady_mono)
  show ?thesis
    using handshake_exchanges[of "demo_sock (server_msgs 2 0 demo_v4 @ [1, 2, 3])" demo_client 0 demo_v4 "[1, 2, 3]"
        "[5, 3, 0, 1, 0, 0, 0, 0, 0, 0]" "replicate 263 0" demo_env True] rq demo_inet
    by (auto simp: a demo_sock_simps st server_msgs_def reply_msg_def env_ok_def demo_env_def)
qed

section \<open>The client and the proxy\<close>

definition no_addr :: bytes where
  "no_addr = set_family AF_INET (replicate 28 0)"

lemma no_addr: "inet_addr no_addr" "wire no_addr = [1, 0, 0, 0, 0, 0, 0]"
proof -
  have f: "sa_family no_addr = AF_INET" by (simp add: no_addr_def)
  show "inet_addr no_addr" using f by (simp add: inet_addr_def) (simp add: no_addr_def sockaddr_ok_def set_family_def)
  show "wire no_addr = [1, 0, 0, 0, 0, 0, 0]"
    using f by (simp add: wire_def) (simp add: no_addr_def set_family_def sin_addr_def sin_port_def numeral_eq_Suc)
qed

lemma rdn_one: "rdn (x # b) 0 1 = Some [x]"
  by (simp add: rdn_def)

text \<open>The client of a TCP connection that came out of the tunnel device.\<close>

lemma construct_ip_ok:
  assumes "inet_addr sa" "19 \<le> length m" "e_mem e"
  shows "\<exists>c. hev_socks5_client_tcp_construct_ip e m sa = Some (0, c) \<and> \<not> has_creds c \<and>
    hc_type c = HEV_SOCKS5_TYPE_TCP \<and> request_msg e c ([5, 1, 0] @ wire sa)"
proof -
  define c where "c = (new_client HEV_SOCKS5_TYPE_TCP)\<lparr>hc_addr := Some (wire sa @ drop (length (wire sa)) (take 19 m))\<rparr>"
  have l: "length (wire sa) \<le> length (take 19 m)" using length_wire[OF assms(1)] assms(2) by auto
  have "hev_socks5_client_tcp_construct_ip e m sa = Some (0, c)"
    using from_sockaddr_wire[OF assms(1) l] length_wire[OF assms(1)] assms(3)
    by (cases "wire sa = []") (auto simp: hev_socks5_client_tcp_construct_ip_def c_def Let_def)
  moreover obtain t xs where "wire sa = t # xs" "t = 1 \<and> length xs = 6 \<or> t = 4 \<and> length xs = 18"
    using wire_Cons[OF assms(1)] .
  then have "request_msg e c ([5, 1, 0] @ wire sa)"
    unfolding request_msg_def
    by (intro exI[of _ 1] exI[of _ "wire sa"] exI[of _ "drop (length (wire sa)) (take 19 m)"])
       (auto simp: c_def new_client_def get_upstream_addr_def req_cmd_def)
  ultimately show ?thesis by (auto simp: c_def new_client_def has_creds_def)
qed

text \<open>
  C4. The tunnel and the proxy of this program understand each other. For every destination the
  tunnel hands over, the client it creates completes its handshake against the messages the
  proxy sends, and the proxy, given what that client sends, answers the greeting with those
  messages and reads from the request the very destination: the same port and address, the
  whole request and nothing more.
\<close>

theorem tunnel_meets_proxy:
  assumes sa: "inet_addr sa" and m: "19 \<le> length m" and e: "env_ok e" and stk: "263 \<le> length stk"
    and st: "steady 64 s" and dst: "sockaddr_ok dst" and v6: "ipv6 (prm w)"
    and i: "sk_in s = [5, 0] @ [5, 0, 0, 1, 0, 0, 0, 0, 0, 0] @ z"
    and snd_ok: "0 \<le> ret (fst (sys k (Send f [5, 0] 0) w))"
  shows "\<exists>c c' s' req. hev_socks5_client_tcp_construct_ip e m sa = Some (0, c) \<and>
      hev_socks5_client_handshake e stk False c s = Some (0, c', s') \<and> sk_in s' = z \<and>
      concat (sk_out s') = concat (sk_out s) @ [5, 1, 0] @ req \<and>
      (\<exists>b. auth_socks5 k f ([5, 1, 0] @ y) 3 w = Some (0, b, snd (sys k (Send f [5, 0] 0) w))) \<and>
      (\<exists>o'. s5_get_addr k (req @ y) 0 (int (length req)) dst SOCK_STREAM w = Some (int (length req), o', w) \<and>
         ip6_of o' = ip6_of sa \<and> sin_port o' = sin_port sa) \<and>
      snd (resp_error k f 0 FLAG_S5 w) = snd (sys k (Send f [5, 0, 0, 1, 0, 0, 0, 0, 0, 0] 0) w)"
proof -
  obtain c where c: "hev_socks5_client_tcp_construct_ip e m sa = Some (0, c)" "\<not> has_creds c"
    "hc_type c = HEV_SOCKS5_TYPE_TCP" "request_msg e c ([5, 1, 0] @ wire sa)"
    using construct_ip_ok[OF sa m, of e] e by (auto simp: env_ok_def)
  have a: "auth_method c = 0" "creds_msg c = []" using c(2) by (simp_all add: auth_method_def creds_msg_Nil)
  have "sk_in s = server_msgs (auth_method c) 0 no_addr @ z"
    using i by (simp add: a server_msgs_def reply_msg_def no_addr)
  moreover have "steady (length (server_msgs (auth_method c) 0 no_addr) + length (creds_msg c) + length ([5, 1, 0] @ wire sa) + 3) s"
    using st by (rule steady_mono) (use length_wire[OF sa] in \<open>auto simp: a server_msgs_def reply_msg_def no_addr\<close>)
  ultimately obtain c' s' where h: "hev_socks5_client_handshake e stk False c s = Some (0, c', s')"
    "ran (server_msgs (auth_method c) 0 no_addr) ([5, 1, auth_method c] @ creds_msg c @ [5, 1, 0] @ wire sa) s s'"
    using handshake_ok[OF _ _ stk no_addr(1) e c(4), of s 0 z False] by blast
  have "auth_socks5 k f ([5, 1, 0] @ y) 3 w = Some (0, [5, 0, 0] @ y, snd (sys k (Send f [5, 0] 0) w))"
    using snd_ok by (simp add: auth_socks5_def rd_def rdn_cons rdn_one rdn_two wr_def split_beta)
  moreover obtain o' where "s5_get_addr k ([5, 1, 0] @ wire sa @ y) 0 (3 + int (length (wire sa))) dst SOCK_STREAM w =
      Some (3 + int (length (wire sa)), o', w)" "ip6_of o' = ip6_of sa" "sin_port o' = sin_port sa"
    using s5_get_addr_wire[OF sa dst order_refl, of w k 5 1 0 y SOCK_STREAM] v6 by blast
  moreover have "snd (resp_error k f 0 FLAG_S5 w) = snd (sys k (Send f [5, 0, 0, 1, 0, 0, 0, 0, 0, 0] 0) w)"
    by (simp add: resp_error_def resp_s5_error_def s5_code_def split_beta)
  ultimately show ?thesis
    using c(1) h(1) ran_in[OF h(2)] ran_out[OF h(2)] i a
    by (intro exI[of _ c] exI[of _ c'] exI[of _ s'] exI[of _ "[5, 1, 0] @ wire sa"])
       (auto simp: server_msgs_def reply_msg_def no_addr)
qed

theorem tunnel_meets_proxy_witness:
  "\<exists>c c' s' req o'. hev_socks5_client_tcp_construct_ip demo_env (replicate 19 0) demo_v6 = Some (0, c) \<and>
     hev_socks5_client_handshake demo_env (replicate 263 0) False c
       (demo_sock ([5, 0] @ [5, 0, 0, 1, 0, 0, 0, 0, 0, 0] @ [7])) = Some (0, c', s') \<and> sk_in s' = [7] \<and>
     s5_get_addr plain_kernel (req @ []) 0 (int (length req)) (replicate 28 0) SOCK_STREAM (start_world default_params) =
       Some (int (length req), o', start_world default_params) \<and> ip6_of o' = ip6_of demo_v6"
proof -
  have "0 \<le> ret (fst (sys plain_kernel (Send 7 [5, 0] 0) (start_world default_params)))" by code_simp
  moreover have "ipv6 (prm (start_world default_params))" by code_simp
  moreover have "env_ok demo_env" "sockaddr_ok (replicate 28 0)"
    by (simp_all add: env_ok_def demo_env_def sockaddr_ok_def)
  moreover have "19 \<le> length (replicate 19 (0 :: byte))" "263 \<le> length (replicate 263 (0 :: byte))"
    by (simp_all only: length_replicate)
  ultimately show ?thesis
    using tunnel_meets_proxy[OF demo_v6_simps(1) _ _ _ demo_sock_simps(3) _ _ demo_sock_simps(1),
        where m = "replicate 19 0" and e = demo_env and stk = "replicate 263 0" and dst = "replicate 28 0"
          and w = "start_world default_params" and k = plain_kernel and f = 7 and y = "[]" and z = "[7]"]
    by fast
qed

text \<open>
  The proxy takes exactly one greeting per read: when the greeting arrives together with
  anything behind it, as the pipelined handshake sends it, \<open>auth_socks5\<close> refuses the connection
  and answers nothing.
\<close>

lemma proxy_refuses_pipelined:
  assumes "xs \<noteq> []"
  shows "auth_socks5 k f ([5, 1, 0] @ xs @ y) (3 + int (length xs)) w = Some (- 1, [5, 1, 0] @ xs @ y, w)"
  using assms by (simp add: auth_socks5_def rd_def)

text \<open>
  A reply that the server cuts short by closing is not refused: \<open>recv\<close> returns the bytes there
  were, and the client reads the rest of the message from what its stack held. Here one byte of
  the method reply arrives, and the method is an old byte of the stack.
\<close>

lemma short_reply_uses_stack:
  assumes "sk_in s = [5]" "\<not> sk_dgram s" "sk_ticks s = Move n # Move n' # ts" "258 \<le> length stk"
  shows "\<exists>s'. hev_socks5_client_read_auth_method stk s = Some (uint (stk ! 1), s')"
proof -
  have w: "wrn (take 258 stk) 0 [5] = Some (5 # drop 1 (take 258 stk))"
    "wrn (5 # drop 1 (take 258 stk)) 1 [] = Some (5 # drop 1 (take 258 stk))"
    using wrn_nat[of 0 "[5]" "take 258 stk"] assms(4) by (simp_all add: wrn_Nil)
  have m: "min (Suc n) 2 = Suc (min n 1)" by simp
  have "hev_task_io_socket_recv (take 258 stk) 0 2 True s =
      Some (1, 5 # drop 1 (take 258 stk), s\<lparr>sk_in := [], sk_ticks := ts\<rparr>)"
    using assms(1-3) w by (simp add: hev_task_io_socket_recv_def k_recv_stream io_return_def m)
  then show ?thesis
    using assms(4) by (simp add: hev_socks5_client_read_auth_method_def rd_def)
qed

section \<open>Datagrams\<close>

text \<open>
  C13. UDP over TCP: a datagram that one end writes into the stream is what the other end reads
  from it, however the network cuts the stream on both sides: the payload, its length, the
  address and the port, and nothing of what follows, so that a sequence of datagrams is read
  back one by one. A reader that asks for an IPv4 address needs an IPv4 sender (\<open>readable\<close>).
\<close>

theorem udp_frame_round_trip:
  assumes sa: "inet_addr sa" and stk: "263 \<le> length stk"
    and w: "d = take (length d) wbuf" "length d \<le> length wbuf" "steady (length (frame_msg sa d)) s"
    and t: "sk_in t = frame_msg sa d @ z" "steady (length (frame_msg sa d)) t"
    and r: "length d \<le> len" "len \<le> length rbuf" "length d < 65536"
    and dst: "sockaddr_ok dst" "readable sa dst"
  shows "(\<exists>n s'. hev_socks5_udp_sendto stk HEV_SOCKS5_TYPE_UDP_IN_TCP wbuf (length d) sa s = Some (n, s') \<and>
      concat (sk_out s') = concat (sk_out s) @ frame_msg sa d) \<and>
    (\<exists>rbuf' dst' t'. hev_socks5_udp_recvfrom stk HEV_SOCKS5_TYPE_UDP_IN_TCP rbuf len dst t =
        Some (int (length d), rbuf', dst', t') \<and>
      take (length d) rbuf' = d \<and> ip6_of dst' = ip6_of sa \<and> sin_port dst' = sin_port sa \<and> sk_in t' = z)"
proof
  have ne: "frame_msg sa d \<noteq> []" by (simp add: frame_msg_def)
  show "\<exists>n s'. hev_socks5_udp_sendto stk HEV_SOCKS5_TYPE_UDP_IN_TCP wbuf (length d) sa s = Some (n, s') \<and>
      concat (sk_out s') = concat (sk_out s) @ frame_msg sa d"
    using udp_sendto_is_send[OF sa stk w(2,1), of HEV_SOCKS5_TYPE_UDP_IN_TCP s] send_ok[OF w(3) ne]
    by (auto simp: ran_def)
  have "steady (length (frame_msg sa d) + 0) t" using t(2) by simp
  then show "\<exists>rbuf' dst' t'. hev_socks5_udp_recvfrom stk HEV_SOCKS5_TYPE_UDP_IN_TCP rbuf len dst t =
        Some (int (length d), rbuf', dst', t') \<and>
      take (length d) rbuf' = d \<and> ip6_of dst' = ip6_of sa \<and> sin_port dst' = sin_port sa \<and> sk_in t' = z"
    using recvfrom_tcp_frame[OF sa t(1) _ r stk dst, of 0] t(1)
    by (auto simp: hev_socks5_udp_recvfrom_def ran_def)
qed

theorem udp_frame_round_trip_witness:
  "(\<exists>n s'. hev_socks5_udp_sendto (replicate 263 0) HEV_SOCKS5_TYPE_UDP_IN_TCP [1, 2, 3] 3 demo_v4 (demo_sock []) = Some (n, s') \<and>
      concat (sk_out s') = frame_msg demo_v4 [1, 2, 3]) \<and>
   (\<exists>rbuf' dst' t'. hev_socks5_udp_recvfrom (replicate 263 0) HEV_SOCKS5_TYPE_UDP_IN_TCP (replicate 8 0) 8 demo_v6
        (demo_sock (frame_msg demo_v4 [1, 2, 3] @ [9])) = Some (3, rbuf', dst', t') \<and>
      take 3 rbuf' = [1, 2, 3] \<and> ip6_of dst' = ip6_of demo_v4 \<and> sk_in t' = [9])"
proof -
  have l: "length (frame_msg demo_v4 [1, 2, 3]) = 13" by (simp add: frame_length demo_inet)
  have st: "steady (length (frame_msg demo_v4 [1, 2, 3])) (demo_sock i)" for i
    using demo_sock_simps(3) by (rule steady_mono) (simp add: l)
  have "sockaddr_ok demo_v6" "readable demo_v4 demo_v6" by code_simp+
  then show ?thesis
    using udp_frame_round_trip[OF demo_inet(1) _ _ _ st[of "[]"] demo_sock_simps(1) st,
        where stk = "replicate 263 0" and wbuf = "[1, 2, 3]" and z = "[9]" and len = 8
          and rbuf = "replicate 8 0" and dst = demo_v6]
    by (auto simp: demo_sock_simps numeral_3_eq_3 simp del: replicate.simps)
qed

text \<open>
  The header the proxy puts before a datagram of a server, in the room it keeps for the largest
  one (\<open>udp_from_server\<close>).
\<close>

lemma proxy_datagram:
  assumes sa: "inet_addr sa" "sa_family sa = AF_INET \<or> take 12 (sin6_addr sa) \<noteq> mapped4 []"
  shows "\<exists>offs b. s5_set_addr (replicate 22 0 @ d @ y) 22 22 sa True = Some (offs, b) \<and>
    offs \<le> 22 \<and> rdn b (22 - offs) (offs + int (length d)) = Some (udp_msg sa d)"
proof -
  have ok: "sockaddr_ok sa" using sa(1) by (simp add: inet_addr_def)
  let ?B = "replicate 22 0 @ d @ y"
  have w: "\<exists>b. wrn ?B (25 - 3 - int n) (wire sa) = Some b \<and>
      rdn b (22 - (3 + int n)) (3 + int n + int (length d)) = Some (udp_msg sa d)"
    if "length (wire sa) = n" "n \<le> 19" for n
  proof -
    let ?b = "replicate (22 - n) 0 @ wire sa @ d @ y"
    have "wrn ?B (int (22 - n)) (wire sa) = Some ?b"
      using wrn_nat[of "22 - n" "wire sa" ?B] that by simp
    moreover have "int (22 - n) = 25 - 3 - int n" "22 - (3 + int n) = int (19 - n)" using that by simp_all
    moreover have "?b = replicate (19 - n) 0 @ udp_msg sa d @ y"
    proof -
      have e: "22 - n = (19 - n) + 3" using that(2) by simp
      have "replicate (22 - n) (0 :: byte) = replicate (19 - n) 0 @ [0, 0, 0]"
        unfolding e replicate_add by (simp add: numeral_3_eq_3)
      then show ?thesis by (simp add: udp_msg_def)
    qed
    moreover have "rdn (replicate (19 - n) 0 @ udp_msg sa d @ y) (int (19 - n)) (int (length (udp_msg sa d))) = Some (udp_msg sa d)"
      by (rule rdn_at) simp_all
    moreover have "int (length (udp_msg sa d)) = 3 + int n + int (length d)"
      using that(1) by (simp add: udp_msg_def)
    ultimately show ?thesis by metis
  qed
  show ?thesis
  proof (cases "sa_family sa = AF_INET")
    case True
    then have "length (wire sa) = 7" using ok by (simp add: wire_def)
    moreover have "wire sa = S_ATP_I4 # sin_addr sa @ take 2 (drop 2 sa)"
      using True by (simp add: wire_def sin_port_def)
    ultimately show ?thesis using w[of 7] True by (auto simp: s5_set_addr_def Let_def)
  next
    case False
    then have "length (wire sa) = 19" using ok sa(2) by (simp add: wire_def)
    moreover have "wire sa = S_ATP_I6 # sin6_addr sa @ take 2 (drop 2 sa)"
      using False sa(2) by (simp add: wire_def sin_port_def)
    ultimately show ?thesis using w[of 19] False by (auto simp: s5_set_addr_def Let_def)
  qed
qed

text \<open>
  C12. UDP over UDP against the proxy of this program, both ways. A datagram the tunnel sends is
  one datagram on its socket, from which the proxy, with IPv6 enabled, reads the destination and,
  behind the address, exactly the payload. The datagram the proxy makes of a server's answer is
  read by the tunnel for every kind of session and every answer: an IPv4 session takes the answers
  of servers with an IPv4 address and refuses the others with -1, an IPv6 session takes all; it
  reports the server's address and port and the answer, of which it keeps as much as the caller has
  room for and as fits behind the header into the 1500 bytes of \<open>rbuf\<close> (\<open>udp_room\<close>: 1490 bytes
  of an IPv4 server, 1478 of an IPv6 one). A longer answer is cut without notice.
\<close>

theorem udp_meets_proxy:
  assumes sa: "inet_addr sa" "sa_family sa = AF_INET \<or> take 12 (sin6_addr sa) \<noteq> mapped4 []"
    and stk: "1500 \<le> length stk" and v6: "ipv6 (prm w)"
    and wb: "d = take (length d) wbuf" "length d \<le> length wbuf"
    and s: "sk_dgram s" "sk_ticks s = Move k # ts"
    and dst: "sockaddr_ok dst" and tdst: "sockaddr_ok tdst" and r: "len \<le> length rbuf"
  shows "(\<exists>n m o'. hev_socks5_udp_sendto stk HEV_SOCKS5_TYPE_UDP_IN_UDP wbuf (length d) sa s =
        Some (n, s\<lparr>sk_out := sk_out s @ [m], sk_ticks := ts\<rparr>) \<and>
      s5_get_addr kn (m @ y) 0 (int (length m)) dst SOCK_DGRAM w = Some (int (length m - length d), o', w) \<and>
      drop (length m - length d) m = d \<and> ip6_of o' = ip6_of sa \<and> sin_port o' = sin_port sa) \<and>
    (\<exists>offs b m. s5_set_addr (replicate 22 0 @ d @ y) 22 22 sa True = Some (offs, b) \<and>
      rdn b (22 - offs) (offs + int (length d)) = Some m \<and>
      (\<forall>t. sk_dgram t \<and> sk_dg t = [m] \<and> sk_ticks t = [Move 0] \<longrightarrow>
        (let n = min len (min (length d) (udp_room sa)) in
         \<exists>rbuf' dst' t'. hev_socks5_udp_recvfrom stk HEV_SOCKS5_TYPE_UDP_IN_UDP rbuf len tdst t =
            Some (if readable sa tdst then int n else - 1, rbuf', dst', t') \<and>
          take n rbuf' = take n d \<and>
          (readable sa tdst \<longrightarrow> ip6_of dst' = ip6_of sa \<and> sin_port dst' = sin_port sa))))"
proof
  have stk': "263 \<le> length stk" using stk by simp
  have l: "length (udp_msg sa d) = 3 + length (wire sa) + length d" by (simp add: udp_msg_def)
  have ne: "udp_msg sa d \<noteq> []" by (simp add: udp_msg_def)
  have "3 + int (length (wire sa)) \<le> int (length (udp_msg sa d))" using l by simp
  then obtain o' where o': "s5_get_addr kn (udp_msg sa d @ y) 0 (int (length (udp_msg sa d))) dst SOCK_DGRAM w =
      Some (3 + int (length (wire sa)), o', w)" "ip6_of o' = ip6_of sa" "sin_port o' = sin_port sa"
    using s5_get_addr_wire[OF sa(1) dst, of "int (length (udp_msg sa d))" w kn 0 0 0 "d @ y" SOCK_DGRAM] v6
    by (auto simp: udp_msg_def)
  have "drop (length (udp_msg sa d) - length d) (udp_msg sa d) = d"
    by (simp add: udp_msg_def numeral_3_eq_3)
  moreover have "hev_socks5_udp_sendto stk HEV_SOCKS5_TYPE_UDP_IN_UDP wbuf (length d) sa s =
        Some (int (length (udp_msg sa d)), s\<lparr>sk_out := sk_out s @ [udp_msg sa d], sk_ticks := ts\<rparr>)"
    using udp_sendto_is_send[OF sa(1) stk' wb(2,1), of HEV_SOCKS5_TYPE_UDP_IN_UDP s] send_dgram[OF s ne] by simp
  ultimately show "\<exists>n m o'. hev_socks5_udp_sendto stk HEV_SOCKS5_TYPE_UDP_IN_UDP wbuf (length d) sa s =
        Some (n, s\<lparr>sk_out := sk_out s @ [m], sk_ticks := ts\<rparr>) \<and>
      s5_get_addr kn (m @ y) 0 (int (length m)) dst SOCK_DGRAM w = Some (int (length m - length d), o', w) \<and>
      drop (length m - length d) m = d \<and> ip6_of o' = ip6_of sa \<and> sin_port o' = sin_port sa"
    using o' l by (intro exI[of _ "int (length (udp_msg sa d))"] exI[of _ "udp_msg sa d"] exI[of _ o']) simp
  obtain offs b where b: "s5_set_addr (replicate 22 0 @ d @ y) 22 22 sa True = Some (offs, b)"
    "rdn b (22 - offs) (offs + int (length d)) = Some (udp_msg sa d)"
    using proxy_datagram[OF sa] by blast
  have "let n = min len (min (length d) (udp_room sa)) in
      \<exists>rbuf' dst' t'. hev_socks5_udp_recvfrom stk HEV_SOCKS5_TYPE_UDP_IN_UDP rbuf len tdst t =
          Some (if readable sa tdst then int n else - 1, rbuf', dst', t') \<and>
        take n rbuf' = take n d \<and> (readable sa tdst \<longrightarrow> ip6_of dst' = ip6_of sa \<and> sin_port dst' = sin_port sa)"
    if "sk_dgram t" "sk_dg t = [udp_msg sa d]" "sk_ticks t = [Move 0]" for t
    using recvfrom_udp_msg[OF sa(1) that(1,2,3) r stk tdst] unfolding Let_def
    by (auto simp: hev_socks5_udp_recvfrom_def)
  then show "\<exists>offs b m. s5_set_addr (replicate 22 0 @ d @ y) 22 22 sa True = Some (offs, b) \<and>
      rdn b (22 - offs) (offs + int (length d)) = Some m \<and>
      (\<forall>t. sk_dgram t \<and> sk_dg t = [m] \<and> sk_ticks t = [Move 0] \<longrightarrow>
        (let n = min len (min (length d) (udp_room sa)) in
         \<exists>rbuf' dst' t'. hev_socks5_udp_recvfrom stk HEV_SOCKS5_TYPE_UDP_IN_UDP rbuf len tdst t =
            Some (if readable sa tdst then int n else - 1, rbuf', dst', t') \<and>
          take n rbuf' = take n d \<and>
          (readable sa tdst \<longrightarrow> ip6_of dst' = ip6_of sa \<and> sin_port dst' = sin_port sa)))"
    using b by blast
qed

theorem udp_meets_proxy_witness:
  "(\<exists>n m o'. hev_socks5_udp_sendto (replicate 1500 0) HEV_SOCKS5_TYPE_UDP_IN_UDP [1, 2] (length [1, 2 :: byte]) demo_v4
       ((demo_sock [])\<lparr>sk_dgram := True, sk_ticks := [Move 0]\<rparr>) =
     Some (n, (demo_sock [])\<lparr>sk_dgram := True, sk_ticks := [Move 0], sk_out := [m], sk_ticks := []\<rparr>) \<and>
   s5_get_addr plain_kernel (m @ []) 0 (int (length m)) (replicate 28 0) SOCK_DGRAM (start_world default_params) =
     Some (int (length m - length [1, 2 :: byte]), o', start_world default_params) \<and> ip6_of o' = ip6_of demo_v4) \<and>
   (\<exists>m. \<forall>t. sk_dgram t \<and> sk_dg t = [m] \<and> sk_ticks t = [Move 0] \<longrightarrow>
     (\<exists>rbuf' dst' t'. hev_socks5_udp_recvfrom (replicate 1500 0) HEV_SOCKS5_TYPE_UDP_IN_UDP (replicate 8 0) 8 demo_v4 t =
        Some (2, rbuf', dst', t') \<and> take 2 rbuf' = [1, 2] \<and> ip6_of dst' = ip6_of demo_v4))"
proof -
  have p: "sockaddr_ok (replicate 28 0)" "sockaddr_ok demo_v4" "ipv6 (prm (start_world default_params))"
    "readable demo_v4 demo_v4" by code_simp+
  have q: "[1, 2] = take (length [1, 2 :: byte]) [1, 2 :: byte]" "length [1, 2 :: byte] \<le> length [1, 2 :: byte]"
    "8 \<le> length (replicate 8 (0 :: byte))" "1500 \<le> length (replicate 1500 (0 :: byte))"
    by (simp_all del: replicate.simps)
  let ?s = "(demo_sock [])\<lparr>sk_dgram := True, sk_ticks := [Move 0]\<rparr>"
  have d: "sk_dgram ?s" "sk_ticks ?s = Move 0 # []" "sk_out ?s = []" by (simp_all add: demo_sock_simps)
  have f: "sa_family demo_v4 = AF_INET \<or> take 12 (sin6_addr demo_v4) \<noteq> mapped4 []"
    using demo_v4_simps by simp
  have n: "min 8 (min (length [1, 2 :: byte]) (udp_room demo_v4)) = 2"
    by (simp add: udp_room_is[OF demo_inet(1)])
  note u = udp_meets_proxy[OF demo_inet(1) f q(4) p(3) q(1,2) d(1,2) p(1,2) q(3), where kn = plain_kernel and y = "[]",
      unfolded d(3) append_Nil Let_def n]
  show ?thesis
    using u[THEN conjunct1] u[THEN conjunct2] p(4) by (intro conjI) (blast, force simp: numeral_2_eq_2)
qed

end
