(* ===== verification/Ringbuf.thy ===== *)
theory Ringbuf
  imports Taskio
begin

text \<open>
  The ring buffer of the tunnel's TCP sessions, \<open>misc/hev-ring-buffer.c\<close>. It holds the bytes
  read from the proxy until the TCP stack has them acknowledged: \<open>use_size\<close> bytes are in it, the
  last \<open>rda_size\<close> of them not yet handed to the stack. The stack is given pointers into the
  buffer and no copy, so the bytes in use must not change.

  The lemmas show that the buffer refines a queue, \<open>content\<close>, of which a suffix is unread.
\<close>

section \<open>The buffer\<close>

text \<open>\<open>size_t\<close> arithmetic.\<close>

definition sz_add :: "nat \<Rightarrow> nat \<Rightarrow> nat" where
  "sz_add a b = (a + b) mod 2 ^ 64"

definition sz_sub :: "nat \<Rightarrow> nat \<Rightarrow> nat" where
  "sz_sub a b = nat (c_size (int a - int b))"

lemma sz_add_id [simp]: "a + b < 2 ^ 64 \<Longrightarrow> sz_add a b = a + b"
  by (simp add: sz_add_def)

lemma sz_sub_id [simp]: "b \<le> a \<Longrightarrow> a < 2 ^ 64 \<Longrightarrow> sz_sub a b = a - b"
  by (simp add: sz_sub_def nat_diff_distrib)

record ring =
  rp :: nat
  wp :: nat
  rda_size :: nat
  use_size :: nat
  max_size :: nat
  rdata :: bytes

text \<open>\<open>hev_ring_buffer_alloca\<close>: memory of the stack, with whatever it holds.\<close>

definition hev_ring_buffer_alloca :: "bytes \<Rightarrow> nat \<Rightarrow> ring" where
  "hev_ring_buffer_alloca stk s =
     \<lparr>rp = 0, wp = 0, rda_size = 0, use_size = 0, max_size = s, rdata = take s stk\<rparr>"

text \<open>The vectors, as positions in the data and lengths.\<close>

definition hev_ring_buffer_reading :: "ring \<Rightarrow> (nat \<times> nat) list" where
  "hev_ring_buffer_reading r =
     (if rda_size r = 0 then []
      else let upper_size = sz_sub (max_size r) (rp r) in
        if rda_size r \<le> upper_size then [(rp r, rda_size r)]
        else [(rp r, upper_size), (0, sz_sub (rda_size r) upper_size)])"

definition hev_ring_buffer_read_finish :: "ring \<Rightarrow> nat \<Rightarrow> ring" where
  "hev_ring_buffer_read_finish r n =
     r\<lparr>rp := sz_add (rp r) n mod max_size r, rda_size := sz_sub (rda_size r) n\<rparr>"

definition hev_ring_buffer_read_release :: "ring \<Rightarrow> nat \<Rightarrow> ring" where
  "hev_ring_buffer_read_release r n =
     (let r = r\<lparr>use_size := sz_sub (use_size r) n\<rparr>
      in if use_size r = 0 then r\<lparr>rp := 0, wp := 0\<rparr> else r)"

definition hev_ring_buffer_writing :: "ring \<Rightarrow> (nat \<times> nat) list" where
  "hev_ring_buffer_writing r =
     (if use_size r = max_size r then []
      else let upper_size = sz_sub (max_size r) (wp r); spc_size = sz_sub (max_size r) (use_size r) in
        if spc_size \<le> upper_size then [(wp r, spc_size)]
        else [(wp r, upper_size), (0, sz_sub spc_size upper_size)])"

definition hev_ring_buffer_write_finish :: "ring \<Rightarrow> nat \<Rightarrow> ring" where
  "hev_ring_buffer_write_finish r n =
     r\<lparr>wp := sz_add (wp r) n mod max_size r, use_size := sz_add (use_size r) n,
       rda_size := sz_add (rda_size r) n\<rparr>"

text \<open>What \<open>readv\<close> does with the vectors for writing, and what the vectors for reading hold.\<close>

fun ring_fill :: "(nat \<times> nat) list \<Rightarrow> bytes \<Rightarrow> bytes \<Rightarrow> bytes option" where
  "ring_fill [] d bs = (if bs = [] then Some d else None)"
| "ring_fill ((i, n) # vs) d bs = do { d \<leftarrow> wrn d (int i) (take n bs); ring_fill vs d (drop n bs) }"

fun ring_gather :: "bytes \<Rightarrow> (nat \<times> nat) list \<Rightarrow> bytes list option" where
  "ring_gather d [] = Some []"
| "ring_gather d ((i, n) # vs) = do {
     x \<leftarrow> rdn d (int i) (int n);
     xs \<leftarrow> ring_gather d vs;
     Some (x # xs)
   }"

section \<open>The queue it holds\<close>

definition circ :: "bytes \<Rightarrow> nat \<Rightarrow> nat \<Rightarrow> bytes" where
  "circ d i n = map (\<lambda>j. d ! ((i + j) mod length d)) [0..<n]"

definition first_used :: "ring \<Rightarrow> nat" where
  "first_used r = (wp r + (max_size r - use_size r)) mod max_size r"

definition content :: "ring \<Rightarrow> bytes" where
  "content r = circ (rdata r) (first_used r) (use_size r)"

definition unread :: "ring \<Rightarrow> bytes" where
  "unread r = drop (use_size r - rda_size r) (content r)"

definition ring_ok :: "ring \<Rightarrow> bool" where
  "ring_ok r \<longleftrightarrow> 0 < max_size r \<and> max_size r < 2 ^ 32 \<and> length (rdata r) = max_size r \<and>
     use_size r \<le> max_size r \<and> rda_size r \<le> use_size r \<and> rp r < max_size r \<and> wp r < max_size r \<and>
     wp r = (rp r + rda_size r) mod max_size r"

lemma length_circ [simp]: "length (circ d i n) = n"
  by (simp add: circ_def)

lemma length_content [simp]: "length (content r) = use_size r"
  by (simp add: content_def)

lemma circ_add: "circ d i (m + n) = circ d i m @ circ d (i + m) n"
proof (rule nth_equalityI)
  fix j assume "j < length (circ d i (m + n))"
  then show "circ d i (m + n) ! j = (circ d i m @ circ d (i + m) n) ! j"
    by (auto simp: circ_def nth_append add.assoc)
qed simp

lemma circ_mod: "circ d (i mod length d) n = circ d i n"
  by (simp add: circ_def mod_add_left_eq)

lemma circ_linear: "i + n \<le> length d \<Longrightarrow> circ d i n = take n (drop i d)"
  by (rule nth_equalityI) (auto simp: circ_def)

lemma circ_drop: "m \<le> n \<Longrightarrow> drop m (circ d i n) = circ d (i + m) (n - m)"
  using circ_add[of d i m "n - m"] by simp

lemma circ_cong: "length d = length e \<Longrightarrow> (\<And>j. j < n \<Longrightarrow> d ! ((i + j) mod length d) = e ! ((i + j) mod length d)) \<Longrightarrow>
    circ d i n = circ e i n"
  by (simp add: circ_def)

definition overlay :: "bytes \<Rightarrow> nat \<Rightarrow> bytes \<Rightarrow> nat \<Rightarrow> byte" where
  "overlay d w bs x =
     (if w \<le> x \<and> x < w + length bs then bs ! (x - w)
      else if x + length d < w + length bs then bs ! (x + length d - w) else d ! x)"

lemma overlay_straight:
  "w + length bs \<le> length d \<Longrightarrow> x < length d \<Longrightarrow>
   (take w d @ bs @ drop (w + length bs) d) ! x = overlay d w bs x"
  by (auto simp: overlay_def nth_append)

lemma nth_append_drop:
  "m \<le> x \<Longrightarrow> x < length zs \<Longrightarrow> length ys = m \<Longrightarrow> (ys @ drop m zs) ! x = zs ! x"
  by (simp add: nth_append)

lemma overlay_wrapped:
  assumes "w \<le> length d" "length d < w + length bs" "length bs \<le> length d" "x < length d"
  shows "(drop (length d - w) bs @ drop (length bs - (length d - w)) (take w d @ take (length d - w) bs)) ! x
    = overlay d w bs x"
proof (cases "x < length bs - (length d - w)")
  case True
  then have "\<not> (w \<le> x \<and> x < w + length bs)" "x + length d < w + length bs" "x + length d - w = length d - w + x"
    using assms by auto
  then show ?thesis using True by (simp add: overlay_def nth_append)
next
  case False
  then have "\<not> x + length d < w + length bs" using assms by simp
  moreover have "(drop (length d - w) bs @ drop (length bs - (length d - w)) (take w d @ take (length d - w) bs)) ! x
      = (take w d @ take (length d - w) bs) ! x"
    using False assms by (intro nth_append_drop) simp_all
  moreover have "(take w d @ take (length d - w) bs) ! x = (if x < w then d ! x else bs ! (x - w))"
    using assms by (simp add: nth_append)
  ultimately show ?thesis using assms by (simp add: overlay_def)
qed

lemma ring_fill_overlay:
  assumes ok: "wp r < max_size r" "length (rdata r) = max_size r" "use_size r < max_size r" "max_size r < 2 ^ 32"
    and bs: "length bs \<le> max_size r - use_size r"
  shows "\<exists>d. ring_fill (hev_ring_buffer_writing r) (rdata r) bs = Some d \<and> length d = max_size r \<and>
    (\<forall>x < max_size r. d ! x = overlay (rdata r) (wp r) bs x)"
proof -
  let ?u = "max_size r - wp r" and ?s = "max_size r - use_size r"
  consider (one) "?s \<le> ?u" | (two) "?u < ?s" "length bs \<le> ?u" | (wrap) "?u < ?s" "?u < length bs" by linarith
  then show ?thesis
  proof cases
    case one
    then have w: "hev_ring_buffer_writing r = [(wp r, ?s)]"
      using ok by (simp add: hev_ring_buffer_writing_def Let_def)
    have l: "wp r + length bs \<le> length (rdata r)" using one bs ok by simp
    show ?thesis
      using wrn_nat[OF l] l bs ok overlay_straight[OF l] by (simp add: w)
  next
    case two
    then have w: "hev_ring_buffer_writing r = [(wp r, ?u), (0, ?s - ?u)]"
      using ok by (simp add: hev_ring_buffer_writing_def Let_def)
    have l: "wp r + length bs \<le> length (rdata r)" using two bs ok by simp
    show ?thesis
      using wrn_nat[OF l] l two ok overlay_straight[OF l] by (simp add: w wrn_Nil)
  next
    case wrap
    then have w: "hev_ring_buffer_writing r = [(wp r, ?u), (0, ?s - ?u)]"
      using ok by (simp add: hev_ring_buffer_writing_def Let_def)
    define d1 where "d1 = take (wp r) (rdata r) @ take ?u bs"
    have 1: "wrn (rdata r) (int (wp r)) (take ?u bs) = Some d1" "length d1 = max_size r"
      using ok wrap wrn_nat[of "wp r" "take ?u bs" "rdata r"] by (simp_all add: d1_def)
    have 2: "wrn d1 0 (drop ?u bs) = Some (drop ?u bs @ drop (length bs - ?u) d1)"
      using wrn_nat[of 0 "drop ?u bs" d1] 1(2) bs by simp
    have "(drop ?u bs @ drop (length bs - ?u) d1) ! x = overlay (rdata r) (wp r) bs x" if "x < max_size r" for x
      using overlay_wrapped[of "wp r" "rdata r" bs x] that ok wrap bs by (simp add: d1_def)
    moreover have "take (?s - ?u) (drop ?u bs) = drop ?u bs" using bs by simp
    ultimately show ?thesis using 1 2 bs wrap by (simp add: w)
  qed
qed

section \<open>The operations refine those of the queue\<close>

lemma first_used_wp:
  assumes "ring_ok r"
  shows "(first_used r + use_size r) mod max_size r = wp r"
proof -
  have "(first_used r + use_size r) mod max_size r = (wp r + (max_size r - use_size r) + use_size r) mod max_size r"
    by (simp add: first_used_def mod_add_left_eq)
  also have "\<dots> = (wp r + max_size r) mod max_size r" using assms by (simp add: ring_ok_def)
  finally show ?thesis using assms by (simp add: ring_ok_def)
qed

lemma overlay_new:
  assumes "w < length d" "length bs \<le> length d" "j < length bs"
  shows "overlay d w bs ((w + j) mod length d) = bs ! j"
proof (cases "w + j < length d")
  case False
  then have "(w + j) mod length d = w + j - length d" using assms by (simp add: mod_if)
  then show ?thesis using False assms by (auto simp: overlay_def)
qed (use assms in \<open>simp add: overlay_def\<close>)

lemma overlay_old:
  assumes "w < length d" "length bs \<le> length d - u" "j < u" "u \<le> length d"
  shows "overlay d w bs ((w + (length d - u) + j) mod length d) = d ! ((w + (length d - u) + j) mod length d)"
proof (cases "w + (length d - u) + j < length d")
  case True
  then show ?thesis using assms by (auto simp: overlay_def)
next
  case False
  then have "(w + (length d - u) + j) mod length d = w + (length d - u) + j - length d"
    using assms by (simp add: mod_if)
  then show ?thesis using False assms by (auto simp: overlay_def)
qed

lemma circ_overlay_new:
  assumes "length e = length d" "\<forall>x < length d. e ! x = overlay d w bs x" "w < length d" "length bs \<le> length d"
  shows "circ e w (length bs) = bs"
proof (rule nth_equalityI)
  fix j assume "j < length (circ e w (length bs))"
  moreover have "(w + j) mod length d < length d" using assms(3) by (intro mod_less_divisor) linarith
  ultimately show "circ e w (length bs) ! j = bs ! j"
    using assms overlay_new[of w d bs j] by (simp add: circ_def)
qed simp

lemma circ_overlay_old:
  assumes "length e = length d" "\<forall>x < length d. e ! x = overlay d w bs x" "w < length d"
    "length bs \<le> length d - u" "u \<le> length d"
  shows "circ e (w + (length d - u)) u = circ d (w + (length d - u)) u"
proof (rule circ_cong)
  fix j assume "j < u"
  moreover have "(w + (length d - u) + j) mod length e < length d"
    using assms(1,3) by (metis mod_less_divisor gr_implies_not0 gr0I)
  ultimately show "e ! ((w + (length d - u) + j) mod length e) = d ! ((w + (length d - u) + j) mod length e)"
    using assms overlay_old[of w d bs u j] by simp
qed (use assms in simp)

text \<open>Filling the space and finishing the write appends to the queue; what is in it stays.\<close>

definition ring_put :: "ring \<Rightarrow> bytes \<Rightarrow> ring option" where
  "ring_put r bs = do {
     d \<leftarrow> ring_fill (hev_ring_buffer_writing r) (rdata r) bs;
     Some (hev_ring_buffer_write_finish (r\<lparr>rdata := d\<rparr>) (length bs))
   }"

lemma ring_put_ok:
  assumes ok: "ring_ok r" and bs: "length bs \<le> max_size r - use_size r" "use_size r < max_size r"
  shows "\<exists>r'. ring_put r bs = Some r' \<and> ring_ok r' \<and> content r' = content r @ bs \<and>
    unread r' = unread r @ bs \<and> max_size r' = max_size r \<and> rda_size r' = rda_size r + length bs"
proof -
  have o: "wp r < max_size r" "length (rdata r) = max_size r" "max_size r < 2 ^ 32" "use_size r \<le> max_size r"
    "rda_size r \<le> use_size r" "rp r < max_size r" "wp r = (rp r + rda_size r) mod max_size r"
    using ok by (auto simp: ring_ok_def)
  obtain d where d: "ring_fill (hev_ring_buffer_writing r) (rdata r) bs = Some d" "length d = max_size r"
    "\<forall>x < max_size r. d ! x = overlay (rdata r) (wp r) bs x"
    using ring_fill_overlay[OF o(1,2) bs(2) o(3) bs(1)] by blast
  let ?l = "length bs"
  have sm: "wp r + ?l < 2 ^ 64" "use_size r + ?l < 2 ^ 64" "rda_size r + ?l < 2 ^ 64"
    using o(1-6) bs by auto
  define r' where "r' = r\<lparr>rdata := d, wp := (wp r + ?l) mod max_size r, use_size := use_size r + ?l,
      rda_size := rda_size r + ?l\<rparr>"
  have p: "ring_put r bs = Some r'"
    using d(1) sm by (simp add: ring_put_def hev_ring_buffer_write_finish_def r'_def)
  have "(wp r + ?l) mod max_size r = (rp r + (rda_size r + ?l)) mod max_size r"
    using o(7) by (metis add.assoc mod_add_left_eq)
  then have ok': "ring_ok r'" using o bs d(2) by (auto simp: ring_ok_def r'_def)
  have "wp r + ?l + (max_size r - (use_size r + ?l)) = wp r + (max_size r - use_size r)"
    using bs by simp
  then have fu: "first_used r' = first_used r"
    by (simp add: first_used_def r'_def mod_add_left_eq) (simp add: add.assoc)
  have "content r' = circ d (first_used r) (use_size r + ?l)"
    using fu by (simp add: content_def r'_def)
  also have "\<dots> = circ d (first_used r) (use_size r) @ circ d (first_used r + use_size r) ?l"
    by (rule circ_add)
  also have "circ d (first_used r) (use_size r) = circ d (wp r + (max_size r - use_size r)) (use_size r)"
    using circ_mod[of d "wp r + (max_size r - use_size r)"] d(2) by (simp add: first_used_def)
  also have "\<dots> = circ (rdata r) (wp r + (max_size r - use_size r)) (use_size r)"
    using circ_overlay_old[of d "rdata r" "wp r" bs "use_size r"] d o bs by simp
  also have "\<dots> = content r"
    using circ_mod[of "rdata r" "wp r + (max_size r - use_size r)"] o(2) by (simp add: content_def first_used_def)
  also have "circ d (first_used r + use_size r) ?l = circ d (wp r) ?l"
    using circ_mod[of d "first_used r + use_size r"] first_used_wp[OF ok] d(2) by simp
  also have "\<dots> = bs"
    using circ_overlay_new[of d "rdata r" "wp r" bs] d o bs by simp
  finally have c: "content r' = content r @ bs" .
  moreover have "unread r' = unread r @ bs"
    using o(5) by (simp add: unread_def c) (simp add: r'_def)
  ultimately show ?thesis using p ok' by (simp add: r'_def)
qed

lemma ring_suffix: "ring_ok r \<Longrightarrow> length (unread r) = rda_size r"
  by (simp add: unread_def ring_ok_def)

text \<open>The vectors for reading hold the unread bytes.\<close>

lemma ring_reading:
  assumes ok: "ring_ok r"
  shows "\<exists>xs. ring_gather (rdata r) (hev_ring_buffer_reading r) = Some xs \<and> concat xs = unread r \<and>
    map length xs = map snd (hev_ring_buffer_reading r)"
proof -
  have o: "length (rdata r) = max_size r" "max_size r < 2 ^ 32" "use_size r \<le> max_size r"
    "rda_size r \<le> use_size r" "rp r < max_size r" "wp r < max_size r" "wp r = (rp r + rda_size r) mod max_size r"
    using ok by (auto simp: ring_ok_def)
  let ?h = "use_size r - rda_size r" and ?M = "max_size r"
  have "(first_used r + ?h + rda_size r) mod ?M = wp r" using first_used_wp[OF ok] o(4) by simp
  then have m: "(first_used r + ?h + rda_size r) mod ?M = (rp r + rda_size r) mod ?M" using o(7) by simp
  have "(first_used r + ?h) mod ?M = rp r mod ?M"
  proof -
    have "int ?M dvd int (first_used r + ?h + rda_size r) - int (rp r + rda_size r)"
      using m by (metis mod_eq_dvd_iff zmod_int)
    then have "int ?M dvd int (first_used r + ?h) - int (rp r)" by simp
    then have "int (first_used r + ?h) mod int ?M = int (rp r) mod int ?M" by (simp add: mod_eq_dvd_iff)
    then show ?thesis by (metis of_nat_eq_iff zmod_int)
  qed
  then have u: "unread r = circ (rdata r) (rp r) (rda_size r)"
    using o(1,4) circ_mod[of "rdata r" "first_used r + ?h"] circ_mod[of "rdata r" "rp r"]
    by (simp add: unread_def content_def circ_drop)
  show ?thesis
  proof (cases "rda_size r \<le> ?M - rp r")
    case True
    then have "rdn (rdata r) (int (rp r)) (int (rda_size r)) = Some (unread r)"
      using rdn_nat[of "rp r" "rda_size r" "rdata r"] circ_linear[of "rp r" "rda_size r" "rdata r"] o u by simp
    then show ?thesis
      using True o ring_suffix[OF ok] by (auto simp: hev_ring_buffer_reading_def Let_def)
  next
    case False
    let ?k = "?M - rp r"
    have "unread r = circ (rdata r) (rp r) ?k @ circ (rdata r) (rp r + ?k) (rda_size r - ?k)"
      using circ_add[of "rdata r" "rp r" ?k "rda_size r - ?k"] False by (simp add: u)
    moreover have "circ (rdata r) (rp r + ?k) (rda_size r - ?k) = circ (rdata r) 0 (rda_size r - ?k)"
      using circ_mod[of "rdata r" "rp r + ?k"] o by simp
    moreover have "rdn (rdata r) (int (rp r)) (int ?k) = Some (circ (rdata r) (rp r) ?k)"
      using rdn_nat[of "rp r" ?k "rdata r"] circ_linear[of "rp r" ?k "rdata r"] o by simp
    moreover have "rdn (rdata r) (int 0) (int (rda_size r - ?k)) = Some (circ (rdata r) 0 (rda_size r - ?k))"
      using rdn_nat[of 0 "rda_size r - ?k" "rdata r"] circ_linear[of 0 "rda_size r - ?k" "rdata r"] o by simp
    ultimately show ?thesis
      using False o by (auto simp: hev_ring_buffer_reading_def Let_def)
  qed
qed

lemma ring_read_finish_ok:
  assumes ok: "ring_ok r" and n: "n \<le> length (unread r)"
  shows "ring_ok (hev_ring_buffer_read_finish r n) \<and> content (hev_ring_buffer_read_finish r n) = content r \<and>
    unread (hev_ring_buffer_read_finish r n) = drop n (unread r) \<and>
    max_size (hev_ring_buffer_read_finish r n) = max_size r"
proof -
  have o: "length (rdata r) = max_size r" "0 < max_size r" "max_size r < 2 ^ 32" "use_size r \<le> max_size r"
    "rda_size r \<le> use_size r" "rp r < max_size r" "wp r < max_size r" "wp r = (rp r + rda_size r) mod max_size r"
    using ok by (auto simp: ring_ok_def)
  have n': "n \<le> rda_size r" using n ring_suffix[OF ok] by simp
  have e: "hev_ring_buffer_read_finish r n = r\<lparr>rp := (rp r + n) mod max_size r, rda_size := rda_size r - n\<rparr>"
    using o(1-7) n' by (simp add: hev_ring_buffer_read_finish_def)
  have "((rp r + n) mod max_size r + (rda_size r - n)) mod max_size r = (rp r + n + (rda_size r - n)) mod max_size r"
    by (rule mod_add_left_eq)
  also have "\<dots> = wp r" using n' o(8) by simp
  finally have "ring_ok (hev_ring_buffer_read_finish r n)"
    unfolding e using o(1-7) n' by (simp add: ring_ok_def)
  moreover have c: "content (hev_ring_buffer_read_finish r n) = content r"
    unfolding e by (simp add: content_def first_used_def)
  ultimately show ?thesis
    using n' o(5) by (simp add: unread_def c) (simp add: e add.commute)
qed

lemma ring_read_release_ok:
  assumes ok: "ring_ok r" and n: "n + length (unread r) \<le> length (content r)"
  shows "ring_ok (hev_ring_buffer_read_release r n) \<and> content (hev_ring_buffer_read_release r n) = drop n (content r) \<and>
    unread (hev_ring_buffer_read_release r n) = unread r \<and> max_size (hev_ring_buffer_read_release r n) = max_size r"
proof -
  have o: "length (rdata r) = max_size r" "0 < max_size r" "max_size r < 2 ^ 32" "use_size r \<le> max_size r"
    "rda_size r \<le> use_size r" "rp r < max_size r" "wp r < max_size r" "wp r = (rp r + rda_size r) mod max_size r"
    using ok by (auto simp: ring_ok_def)
  have n': "n + rda_size r \<le> use_size r" using n ring_suffix[OF ok] by simp
  show ?thesis
  proof (cases "use_size r = n")
    case True
    then have "rda_size r = 0" using n' by simp
    then show ?thesis
      using True o(1-7) by (simp add: hev_ring_buffer_read_release_def Let_def ring_ok_def content_def unread_def circ_def)
  next
    case False
    then have e: "hev_ring_buffer_read_release r n = r\<lparr>use_size := use_size r - n\<rparr>"
      using o(1-7) n' by (simp add: hev_ring_buffer_read_release_def Let_def)
    let ?r = "r\<lparr>use_size := use_size r - n\<rparr>" and ?f = "wp r + (max_size r - use_size r)"
    have "wp r + (max_size r - (use_size r - n)) = ?f + n" using n' o(4) by simp
    then have "content ?r = circ (rdata r) (?f + n) (use_size r - n)"
      using circ_mod[of "rdata r" "?f + n"] o(1) by (simp add: content_def first_used_def add.assoc)
    also have "\<dots> = drop n (circ (rdata r) ?f (use_size r))" using n' by (simp add: circ_drop)
    also have "\<dots> = drop n (content r)"
      using circ_mod[of "rdata r" ?f] o(1) by (simp add: content_def first_used_def)
    finally have c: "content ?r = drop n (content r)" .
    have "n + (use_size r - n - rda_size r) = use_size r - rda_size r" using n' by simp
    then have "unread ?r = unread r" by (simp add: unread_def c add.commute)
    moreover have "use_size r - n \<le> max_size r" "rda_size r \<le> use_size r - n" using n' o(4) by linarith+
    then have "ring_ok ?r" using o by (simp add: ring_ok_def)
    ultimately show ?thesis using c unfolding e by simp
  qed
qed

section \<open>The contract\<close>

text \<open>
  What the session relies on. \<open>put\<close> fills the space, \<open>sent\<close> marks bytes as handed on, \<open>ack\<close>
  gives space back. The lemmas relate the buffer to the stream that goes through it: all that
  was put in, \<open>got\<close>, is what was released followed by the content, and what was handed on
  followed by what is unread.
\<close>

locale fifo_buffer =
  fixes ok :: "'b \<Rightarrow> bool" and cont :: "'b \<Rightarrow> bytes" and todo :: "'b \<Rightarrow> bytes"
    and space :: "'b \<Rightarrow> nat" and put :: "'b \<Rightarrow> bytes \<Rightarrow> 'b option"
    and sent :: "'b \<Rightarrow> nat \<Rightarrow> 'b" and ack :: "'b \<Rightarrow> nat \<Rightarrow> 'b"
  assumes put: "ok b \<Longrightarrow> 0 < space b \<Longrightarrow> length xs \<le> space b \<Longrightarrow>
      \<exists>b'. put b xs = Some b' \<and> ok b' \<and> cont b' = cont b @ xs \<and> todo b' = todo b @ xs"
    and sent: "ok b \<Longrightarrow> n \<le> length (todo b) \<Longrightarrow>
      ok (sent b n) \<and> cont (sent b n) = cont b \<and> todo (sent b n) = drop n (todo b)"
    and ack: "ok b \<Longrightarrow> n + length (todo b) \<le> length (cont b) \<Longrightarrow>
      ok (ack b n) \<and> cont (ack b n) = drop n (cont b) \<and> todo (ack b n) = todo b"
begin

lemma stream_put:
  assumes "ok b" "got = rel @ cont b" "got = given @ todo b" "0 < space b" "length xs \<le> space b"
  shows "\<exists>b'. put b xs = Some b' \<and> ok b' \<and> got @ xs = rel @ cont b' \<and> got @ xs = given @ todo b'"
  using put[OF assms(1,4,5)] assms(2,3) by auto

lemma stream_sent:
  assumes "ok b" "got = rel @ cont b" "got = given @ todo b" "n \<le> length (todo b)"
  shows "ok (sent b n)" "got = rel @ cont (sent b n)" "got = (given @ take n (todo b)) @ todo (sent b n)"
  using sent[OF assms(1,4)] assms(2,3) by simp_all

lemma stream_ack:
  assumes "ok b" "got = rel @ cont b" "got = given @ todo b" "n + length rel \<le> length given"
  shows "ok (ack b n)" "got = (rel @ take n (cont b)) @ cont (ack b n)" "got = given @ todo (ack b n)"
proof -
  have "length rel + length (cont b) = length given + length (todo b)"
    using assms(2,3) by (metis length_append)
  then have n: "n + length (todo b) \<le> length (cont b)" using assms(4) by simp
  show "ok (ack b n)" "got = (rel @ take n (cont b)) @ cont (ack b n)" "got = given @ todo (ack b n)"
    using ack[OF assms(1) n] assms(2,3) by simp_all
qed

text \<open>Bytes given away and not yet released are still in the buffer, at the front.\<close>

lemma stream_kept:
  assumes "got = rel @ cont b" "got = given @ todo b" "length rel \<le> length given"
  shows "take (length given - length rel) (cont b) = drop (length rel) given"
proof -
  have "drop (length rel) got = cont b" using assms(1) by simp
  moreover have "drop (length rel) got = drop (length rel) given @ todo b" using assms(2,3) by simp
  ultimately have "cont b = drop (length rel) given @ todo b" by simp
  then show ?thesis by simp
qed

end

definition ring_space :: "ring \<Rightarrow> nat" where
  "ring_space r = max_size r - use_size r"

interpretation rb: fifo_buffer ring_ok content unread ring_space ring_put
  hev_ring_buffer_read_finish hev_ring_buffer_read_release
proof unfold_locales
  fix b :: ring and xs :: bytes
  assume b: "ring_ok b" and s: "0 < ring_space b" "length xs \<le> ring_space b"
  then show "\<exists>b'. ring_put b xs = Some b' \<and> ring_ok b' \<and> content b' = content b @ xs \<and> unread b' = unread b @ xs"
    using ring_put_ok[OF b, of xs] by (auto simp: ring_space_def)
qed (use ring_read_finish_ok ring_read_release_ok in auto)

lemma ring_alloca_ok:
  assumes "0 < s" "s < 2 ^ 32" "s \<le> length stk"
  shows "ring_ok (hev_ring_buffer_alloca stk s)" "content (hev_ring_buffer_alloca stk s) = []"
    "unread (hev_ring_buffer_alloca stk s) = []" "max_size (hev_ring_buffer_alloca stk s) = s"
  using assms by (simp_all add: ring_ok_def hev_ring_buffer_alloca_def content_def unread_def circ_def)

section \<open>Runs\<close>

text \<open>
  The operations of the session on the buffer, and on a queue that is a list of bytes with a
  count of those unread. \<open>Put\<close> is a read of the socket into the vectors, \<open>Take\<close> hands on bytes.
\<close>

datatype ring_op = Put bytes | Take nat | Release nat

fun ring_step :: "ring_op \<Rightarrow> ring \<Rightarrow> (bytes \<times> ring) option" where
  "ring_step (Put xs) r = do { r \<leftarrow> ring_put r xs; Some ([], r) }"
| "ring_step (Take n) r = do {
     ds \<leftarrow> ring_gather (rdata r) (hev_ring_buffer_reading r);
     Some (take n (concat ds), hev_ring_buffer_read_finish r n)
   }"
| "ring_step (Release n) r = Some ([], hev_ring_buffer_read_release r n)"

fun queue_step :: "nat \<Rightarrow> ring_op \<Rightarrow> bytes \<times> bytes \<Rightarrow> (bytes \<times> bytes \<times> bytes) option" where
  "queue_step cap (Put xs) (c, u) =
     (if length c < cap \<and> length c + length xs \<le> cap then Some ([], c @ xs, u @ xs) else None)"
| "queue_step cap (Take n) (c, u) = (if n \<le> length u then Some (take n u, c, drop n u) else None)"
| "queue_step cap (Release n) (c, u) = (if n + length u \<le> length c then Some ([], drop n c, u) else None)"

fun ring_run :: "ring_op list \<Rightarrow> ring \<Rightarrow> (bytes \<times> ring) option" where
  "ring_run [] r = Some ([], r)"
| "ring_run (x # xs) r = do {
     (a, r) \<leftarrow> ring_step x r;
     (b, r) \<leftarrow> ring_run xs r;
     Some (a @ b, r)
   }"

fun queue_run :: "nat \<Rightarrow> ring_op list \<Rightarrow> bytes \<times> bytes \<Rightarrow> (bytes \<times> bytes \<times> bytes) option" where
  "queue_run cap [] q = Some ([], q)"
| "queue_run cap (x # xs) q = do {
     (a, q) \<leftarrow> queue_step cap x q;
     (b, q) \<leftarrow> queue_run cap xs q;
     Some (a @ b, q)
   }"

lemma ring_step_refines:
  assumes ok: "ring_ok r" and q: "queue_step (max_size r) x (content r, unread r) = Some (a, c, u)"
  shows "\<exists>r'. ring_step x r = Some (a, r') \<and> ring_ok r' \<and> content r' = c \<and> unread r' = u \<and> max_size r' = max_size r"
proof (cases x)
  case (Put xs)
  then have "length xs \<le> max_size r - use_size r" "use_size r < max_size r" "a = []" "c = content r @ xs" "u = unread r @ xs"
    using q by (auto split: if_splits)
  then show ?thesis using ring_put_ok[OF ok, of xs] Put by auto
next
  case (Take n)
  then have "n \<le> length (unread r)" "a = take n (unread r)" "c = content r" "u = drop n (unread r)"
    using q by (auto split: if_splits)
  then show ?thesis using ring_read_finish_ok[OF ok, of n] ring_reading[OF ok] Take by auto
next
  case (Release n)
  then have "n + length (unread r) \<le> length (content r)" "a = []" "c = drop n (content r)" "u = unread r"
    using q by (auto split: if_splits)
  then show ?thesis using ring_read_release_ok[OF ok, of n] Release by auto
qed

lemma ring_run_refines:
  "ring_ok r \<Longrightarrow> queue_run (max_size r) ops (content r, unread r) = Some (a, c, u) \<Longrightarrow>
   \<exists>r'. ring_run ops r = Some (a, r') \<and> ring_ok r' \<and> content r' = c \<and> unread r' = u"
proof (induction ops arbitrary: r a)
  case (Cons x ops)
  obtain a1 c1 u1 a2 where x: "queue_step (max_size r) x (content r, unread r) = Some (a1, c1, u1)"
    "queue_run (max_size r) ops (c1, u1) = Some (a2, c, u)" "a = a1 @ a2"
    using Cons.prems(2) by (auto simp: bind_eq_Some_conv)
  obtain r1 where r1: "ring_step x r = Some (a1, r1)" "ring_ok r1" "content r1 = c1" "unread r1 = u1" "max_size r1 = max_size r"
    using ring_step_refines[OF Cons.prems(1) x(1)] by blast
  then show ?case using Cons.IH[OF r1(2), of a2] x by auto
qed simp

text \<open>
  C7. The ring buffer is a queue. A fresh buffer of \<open>s\<close> bytes of the stack, whatever they hold,
  does every sequence of operations that a queue of capacity \<open>s\<close> allows without an access out of
  the buffer, hands on the same bytes and ends with the same content and the same unread part; the
  wrap-around of the positions does not show.
\<close>

theorem ring_refines_queue:
  assumes "0 < s" "s < 2 ^ 32" "s \<le> length stk" and "queue_run s ops ([], []) = Some (a, c, u)"
  shows "\<exists>r. ring_run ops (hev_ring_buffer_alloca stk s) = Some (a, r) \<and> content r = c \<and> unread r = u"
  using ring_run_refines[of "hev_ring_buffer_alloca stk s" ops a c u] ring_alloca_ok[OF assms(1-3)] assms(4) by auto

lemma ring_refines_queue_witness:
  "\<exists>r. ring_run [Put [1, 2, 3], Take 3, Release 2, Put [4, 5, 6], Take 2] (hev_ring_buffer_alloca [9, 9, 9, 9] 4)
     = Some ([1, 2, 3, 4, 5], r) \<and> content r = [3, 4, 5, 6] \<and> unread r = [6]"
  by (rule ring_refines_queue) simp_all

end
