(* ===== verification/Tcpsess.thy ===== *)
theory Tcpsess
  imports Ringbuf
begin

text \<open>
  A TCP session of the tunnel, \<open>hev-socks5-session-tcp.c\<close>: it moves bytes between lwIP's end of a
  connection and the socket to the proxy. The task of the session and the callbacks of lwIP
  interleave wherever the task waits, also while it waits for the mutex in the middle of its two
  copy functions; the session is a step relation over that.

  The contract of lwIP is \<open>lwip_ok\<close>: it never delivers more than the receive window allows and
  never acknowledges bytes it was not given.
\<close>

section \<open>The queue of received packet buffers\<close>

text \<open>
  A chain of \<open>pbuf\<close>s is the list of its payloads. \<open>pbuf_cat\<close> appends, \<open>tot_len\<close> is 16 bits
  wide, and \<open>pbuf_free_header\<close> takes a 16 bit count.
\<close>

definition tot_len :: "bytes list \<Rightarrow> nat" where
  "tot_len q = length (concat q) mod 65536"

fun free_header_loop :: "bytes list \<Rightarrow> nat \<Rightarrow> bytes list" where
  "free_header_loop [] n = []"
| "free_header_loop (p # ps) n =
     (if n = 0 then p # ps
      else if length p \<le> n then free_header_loop ps (n - length p)
      else drop n p # ps)"

definition pbuf_free_header :: "bytes list \<Rightarrow> nat \<Rightarrow> bytes list" where
  "pbuf_free_header q sz = free_header_loop q (sz mod 65536)"

definition TCP_WND_MAX :: nat where
  "TCP_WND_MAX = 8 * 8191"

section \<open>The session\<close>

text \<open>
  The task is before \<open>tcp_splice_f\<close>, before \<open>tcp_splice_b\<close>, before the yield, in the loop that
  waits for the last acknowledgements, or done.
\<close>

datatype task_pc = At_F | At_B | At_Yield | Draining | Done

text \<open>
  \<open>ts_pcb\<close>: the pcb is not null. The last six fields are not the code's: they record the bytes
  lwIP delivered, the bytes written to the proxy, the bytes of window given back, the bytes read
  from the proxy, those lwIP accepted, and those it has acknowledged.
\<close>

record tsess =
  ts_pc :: task_pc
  ts_pcb :: bool
  ts_queue :: "bytes list"
  ts_ring :: ring
  ts_timeout :: int
  ts_resf :: int
  ts_resb :: int
  ts_rcvd :: bytes
  ts_up :: bytes
  ts_wnd :: nat
  ts_got :: bytes
  ts_given :: bytes
  ts_acked :: bytes

section \<open>The callbacks\<close>

datatype lwip_ev = Tcp_recv "bytes list option" | Tcp_sent nat | Tcp_err

definition hev_socks5_session_terminate :: "tsess \<Rightarrow> tsess" where
  "hev_socks5_session_terminate s = s\<lparr>ts_timeout := 0\<rparr>"

definition tcp_recv_handler :: "bytes list option \<Rightarrow> tsess \<Rightarrow> tsess" where
  "tcp_recv_handler p s =
     (case p of
        None \<Rightarrow> hev_socks5_session_terminate s
      | Some ps \<Rightarrow>
          if ts_queue s = [] then s\<lparr>ts_queue := ps, ts_rcvd := ts_rcvd s @ concat ps\<rparr>
          else if tot_len (ts_queue s) > TCP_WND_MAX then s
          else s\<lparr>ts_queue := ts_queue s @ ps, ts_rcvd := ts_rcvd s @ concat ps\<rparr>)"

definition tcp_sent_handler :: "nat \<Rightarrow> tsess \<Rightarrow> tsess" where
  "tcp_sent_handler len s =
     s\<lparr>ts_acked := ts_acked s @ take len (content (ts_ring s)),
       ts_ring := hev_ring_buffer_read_release (ts_ring s) len\<rparr>"

definition tcp_err_handler :: "tsess \<Rightarrow> tsess" where
  "tcp_err_handler s = hev_socks5_session_terminate (s\<lparr>ts_pcb := False\<rparr>)"

fun callback :: "lwip_ev \<Rightarrow> tsess \<Rightarrow> tsess" where
  "callback (Tcp_recv p) s = tcp_recv_handler p s"
| "callback (Tcp_sent n) s = tcp_sent_handler n s"
| "callback Tcp_err s = tcp_err_handler s"

text \<open>What lwIP promises.\<close>

fun lwip_ok :: "lwip_ev \<Rightarrow> tsess \<Rightarrow> bool" where
  "lwip_ok (Tcp_recv None) s \<longleftrightarrow> ts_pcb s"
| "lwip_ok (Tcp_recv (Some ps)) s \<longleftrightarrow> ts_pcb s \<and> ps \<noteq> [] \<and> [] \<notin> set ps \<and>
     length (ts_rcvd s) + length (concat ps) \<le> ts_wnd s + TCP_WND_MAX"
| "lwip_ok (Tcp_sent n) s \<longleftrightarrow> ts_pcb s \<and> n + length (ts_acked s) \<le> length (ts_given s)"
| "lwip_ok Tcp_err s \<longleftrightarrow> ts_pcb s"

fun callbacks :: "lwip_ev list \<Rightarrow> tsess \<Rightarrow> tsess" where
  "callbacks [] s = s"
| "callbacks (e # es) s = callbacks es (callback e s)"

fun lwip_oks :: "lwip_ev list \<Rightarrow> tsess \<Rightarrow> bool" where
  "lwip_oks [] s \<longleftrightarrow> True"
| "lwip_oks (e # es) s \<longleftrightarrow> lwip_ok e s \<and> lwip_oks es (callback e s)"

section \<open>From lwIP to the proxy\<close>

text \<open>
  The result of \<open>writev\<close>: it would block, it fails, or it takes at most so many bytes. The
  vectors are the first 64 buffers.
\<close>

datatype wres = W_again | W_fail | W_n nat

definition splice_f_write :: "wres \<Rightarrow> tsess \<Rightarrow> int + (nat \<times> tsess)" where
  "splice_f_write w s =
     (if ts_queue s = [] then Inl 0
      else case w of
        W_again \<Rightarrow> Inl 0
      | W_fail \<Rightarrow> Inl (- 1)
      | W_n n \<Rightarrow>
          let d = take n (concat (take 64 (ts_queue s)))
          in if d = [] then Inl (- 1) else Inr (length d, s\<lparr>ts_up := ts_up s @ d\<rparr>))"

definition splice_f_free :: "nat \<Rightarrow> tsess \<Rightarrow> int \<times> tsess" where
  "splice_f_free n s =
     (let s = s\<lparr>ts_queue := pbuf_free_header (ts_queue s) n\<rparr>;
          s = (if ts_pcb s then s\<lparr>ts_wnd := ts_wnd s + n mod 65536\<rparr> else s)
      in (if ts_queue s = [] then 0 else 1, s))"

text \<open>\<open>mid\<close> are the callbacks that run while the task waits for the mutex.\<close>

definition tcp_splice_f :: "wres \<Rightarrow> lwip_ev list \<Rightarrow> tsess \<Rightarrow> int \<times> tsess" where
  "tcp_splice_f w mid s =
     (case splice_f_write w s of
        Inl r \<Rightarrow> (r, s)
      | Inr (n, s) \<Rightarrow> splice_f_free n (callbacks mid s))"

section \<open>From the proxy to lwIP\<close>

text \<open>\<open>readv\<close> would block, fails, or returns these bytes, none at the end of the stream.\<close>

datatype rres = R_again | R_fail | R_data bytes

definition splice_b_read :: "rres \<Rightarrow> tsess \<Rightarrow> (int + tsess) option" where
  "splice_b_read r s =
     (let b = ts_ring s in
      if hev_ring_buffer_writing b = [] then Some (Inl 0)
      else case r of
        R_again \<Rightarrow> Some (Inl 0)
      | R_fail \<Rightarrow>
          if hev_ring_buffer_reading b = [] then Some (Inl (- 1))
          else Some (Inr (s\<lparr>ts_ring := hev_ring_buffer_write_finish b (nat (c_size (- 1)))\<rparr>))
      | R_data xs \<Rightarrow>
          if xs = [] then
            (if hev_ring_buffer_reading b = [] then Some (Inl (- 1))
             else Some (Inr (s\<lparr>ts_ring := hev_ring_buffer_write_finish b 0\<rparr>)))
          else do {
            b \<leftarrow> ring_put b xs;
            Some (Inr (s\<lparr>ts_ring := b, ts_got := ts_got s @ xs\<rparr>))
          })"

text \<open>
  \<open>oks\<close> says which of the calls of \<open>tcp_write\<close> lwIP accepts, \<open>ook\<close> whether \<open>tcp_output\<close>
  succeeds. The errors are collected, the loop goes on, and everything counts as read.
\<close>

definition splice_b_write :: "bool list \<Rightarrow> bool \<Rightarrow> tsess \<Rightarrow> (int \<times> tsess) option" where
  "splice_b_write oks ook s =
     (if \<not> ts_pcb s then Some (- 1, s)
      else do {
        let b = ts_ring s;
        xs \<leftarrow> ring_gather (rdata b) (hev_ring_buffer_reading b);
        let given = concat (map snd (filter fst (zip oks xs)));
        let n = sum_list (map snd (hev_ring_buffer_reading b));
        let s = s\<lparr>ts_ring := hev_ring_buffer_read_finish b n, ts_given := ts_given s @ given\<rparr>;
        Some (if list_all id (take (length xs) oks) \<and> ook then 1 else - 1, s)
      })"

definition tcp_splice_b ::
  "rres \<Rightarrow> lwip_ev list \<Rightarrow> bool list \<Rightarrow> bool \<Rightarrow> tsess \<Rightarrow> (int \<times> tsess) option" where
  "tcp_splice_b r mid oks ook s = do {
     x \<leftarrow> splice_b_read r s;
     case x of
       Inl v \<Rightarrow> Some (v, s)
     | Inr s \<Rightarrow> splice_b_write oks ook (callbacks mid s)
   }"

section \<open>The task\<close>

text \<open>The yield at the end of a round of \<open>hev_socks5_session_tcp_splice\<close>, and of the loop behind.\<close>

definition splice_yield :: "int \<Rightarrow> tsess \<Rightarrow> tsess" where
  "splice_yield left s =
     (if ts_resf s < 0 \<and> ts_resb s < 0 then s\<lparr>ts_pc := Draining\<rparr>
      else let type = (if ts_resf s > 0 \<or> ts_resb s > 0 then HEV_TASK_YIELD else HEV_TASK_WAITIO)
        in if task_io_yielder type (ts_timeout s) left < 0 then s\<lparr>ts_pc := Draining\<rparr>
           else s\<lparr>ts_pc := At_F\<rparr>)"

definition splice_drain :: "int \<Rightarrow> tsess \<Rightarrow> tsess" where
  "splice_drain left s =
     (if \<not> ts_pcb s then s\<lparr>ts_pc := Done\<rparr>
      else if use_size (ts_ring s) = 0 then s\<lparr>ts_pc := Done\<rparr>
      else if task_io_yielder HEV_TASK_WAITIO (ts_timeout s) left < 0 then s\<lparr>ts_pc := Done\<rparr>
      else s)"

text \<open>A session with what lwIP has delivered before the handshake was over.\<close>

definition sess_start :: "bytes \<Rightarrow> nat \<Rightarrow> bytes list \<Rightarrow> int \<Rightarrow> tsess" where
  "sess_start stk sndbuf q t =
     \<lparr>ts_pc = At_F, ts_pcb = True, ts_queue = q, ts_ring = hev_ring_buffer_alloca stk sndbuf,
      ts_timeout = t, ts_resf = 1, ts_resb = 1, ts_rcvd = concat q, ts_up = [], ts_wnd = 0,
      ts_got = [], ts_given = [], ts_acked = []\<rparr>"

text \<open>
  The steps end with \<open>Done\<close>, the return of the splice: its frame holds the memory of the buffer,
  so a callback behind it, before the destructor takes the session from lwIP, has no buffer to
  work on and is not a step of the model.
\<close>

inductive sess_step :: "tsess \<Rightarrow> tsess \<Rightarrow> bool" where
  cb: "ts_pc s \<noteq> Done \<Longrightarrow> lwip_ok e s \<Longrightarrow> sess_step s (callback e s)"
| f: "ts_pc s = At_F \<Longrightarrow> 0 \<le> ts_resf s \<Longrightarrow> tcp_splice_f w mid s = (r, s') \<Longrightarrow>
     (\<And>n s1. splice_f_write w s = Inr (n, s1) \<Longrightarrow> lwip_oks mid s1) \<Longrightarrow>
     sess_step s (s'\<lparr>ts_pc := At_B, ts_resf := r\<rparr>)"
| f_over: "ts_pc s = At_F \<Longrightarrow> ts_resf s < 0 \<Longrightarrow> sess_step s (s\<lparr>ts_pc := At_B\<rparr>)"
| b: "ts_pc s = At_B \<Longrightarrow> 0 \<le> ts_resb s \<Longrightarrow> tcp_splice_b r mid oks ook s = Some (v, s') \<Longrightarrow>
     (\<And>s1. splice_b_read r s = Some (Inr s1) \<Longrightarrow> lwip_oks mid s1) \<Longrightarrow> length oks = 2 \<Longrightarrow>
     sess_step s (s'\<lparr>ts_pc := At_Yield, ts_resb := v\<rparr>)"
| b_over: "ts_pc s = At_B \<Longrightarrow> ts_resb s < 0 \<Longrightarrow> sess_step s (s\<lparr>ts_pc := At_Yield\<rparr>)"
| yield: "ts_pc s = At_Yield \<Longrightarrow> (0 \<le> ts_timeout s \<Longrightarrow> left \<le> ts_timeout s) \<Longrightarrow> sess_step s (splice_yield left s)"
| drain: "ts_pc s = Draining \<Longrightarrow> (0 \<le> ts_timeout s \<Longrightarrow> left \<le> ts_timeout s) \<Longrightarrow> sess_step s (splice_drain left s)"

inductive sess_reach :: "tsess \<Rightarrow> tsess \<Rightarrow> bool" for s0 where
  start: "sess_reach s0 s0"
| step: "sess_reach s0 s \<Longrightarrow> sess_step s t \<Longrightarrow> sess_reach s0 t"

section \<open>The invariant\<close>

lemma concat_free_header: "concat (free_header_loop q n) = drop n (concat q)"
  by (induction q n rule: free_header_loop.induct) auto

lemma set_free_header: "[] \<notin> set q \<Longrightarrow> [] \<notin> set (free_header_loop q n)"
  by (induction q n rule: free_header_loop.induct) auto

text \<open>
  The bytes towards the proxy: what lwIP delivered is what is before the queue, \<open>u\<close>, followed by
  the queue, and fits the window.
\<close>

definition up_ok :: "bytes \<Rightarrow> tsess \<Rightarrow> bool" where
  "up_ok u s \<longleftrightarrow> ts_rcvd s = u @ concat (ts_queue s) \<and> (ts_pcb s \<longrightarrow> ts_wnd s = length u) \<and>
     length (concat (ts_queue s)) \<le> TCP_WND_MAX \<and> [] \<notin> set (ts_queue s)"

text \<open>
  The bytes towards lwIP. As long as no write has failed (\<open>g\<close>), what was read is what lwIP was given
  followed by what is unread.
\<close>

definition down_ok :: "bool \<Rightarrow> tsess \<Rightarrow> bool" where
  "down_ok g s \<longleftrightarrow> ring_ok (ts_ring s) \<and> ts_got s = ts_acked s @ content (ts_ring s) \<and>
     length (ts_acked s) \<le> length (ts_given s) \<and>
     (g \<longrightarrow> ts_got s = ts_given s @ unread (ts_ring s)) \<and>
     length (ts_given s) + length (unread (ts_ring s)) \<le> length (ts_got s)"

lemma up_ok_frame:
  "up_ok u s \<Longrightarrow> ts_rcvd t = ts_rcvd s \<Longrightarrow> ts_queue t = ts_queue s \<Longrightarrow> ts_pcb t = ts_pcb s \<Longrightarrow>
   ts_wnd t = ts_wnd s \<Longrightarrow> up_ok u t"
  by (simp add: up_ok_def)

lemma down_ok_frame:
  "down_ok g s \<Longrightarrow> ts_ring t = ts_ring s \<Longrightarrow> ts_got t = ts_got s \<Longrightarrow> ts_given t = ts_given s \<Longrightarrow>
   ts_acked t = ts_acked s \<Longrightarrow> (h \<Longrightarrow> g) \<Longrightarrow> down_ok h t"
  by (auto simp: down_ok_def)

lemma callback_up:
  assumes "up_ok u s" "lwip_ok e s"
  shows "up_ok u (callback e s)"
proof (cases e)
  case (Tcp_recv p)
  show ?thesis
  proof (cases p)
    case (Some ps)
    then have "length (concat (ts_queue s)) + length (concat ps) \<le> TCP_WND_MAX" "[] \<notin> set ps"
      using assms Tcp_recv by (auto simp: up_ok_def)
    then show ?thesis
      using assms Tcp_recv Some by (auto simp: up_ok_def tcp_recv_handler_def)
  qed (use assms Tcp_recv in \<open>simp add: up_ok_def tcp_recv_handler_def hev_socks5_session_terminate_def\<close>)
qed (use assms in \<open>simp_all add: up_ok_def tcp_sent_handler_def tcp_err_handler_def hev_socks5_session_terminate_def\<close>)

lemma callback_down:
  assumes d: "down_ok g s" and l: "lwip_ok e s"
  shows "down_ok g (callback e s)"
proof (cases e)
  case (Tcp_sent n)
  have r: "ring_ok (ts_ring s)" "ts_got s = ts_acked s @ content (ts_ring s)"
    "length (ts_given s) + length (unread (ts_ring s)) \<le> length (ts_got s)"
    "n + length (ts_acked s) \<le> length (ts_given s)"
    using d l Tcp_sent by (auto simp: down_ok_def)
  have "length (ts_got s) = length (ts_acked s) + length (content (ts_ring s))"
    by (subst r(2)) (rule length_append)
  then have n: "n + length (unread (ts_ring s)) \<le> length (content (ts_ring s))" using r(3,4) by linarith
  then have "n \<le> length (content (ts_ring s))" by linarith
  then show ?thesis
    using rb.ack[OF r(1) n] d Tcp_sent r(4) by (auto simp: down_ok_def tcp_sent_handler_def min_def)
qed (use d in \<open>auto simp: down_ok_def tcp_recv_handler_def tcp_err_handler_def hev_socks5_session_terminate_def
      split: option.splits\<close>)

lemma callbacks_ok:
  "up_ok u s \<Longrightarrow> down_ok g s \<Longrightarrow> lwip_oks es s \<Longrightarrow> up_ok u (callbacks es s) \<and> down_ok g (callbacks es s)"
  by (induction es arbitrary: s) (auto intro: callback_up callback_down)

lemma callback_frame [simp]:
  "ts_pc (callback e s) = ts_pc s" "ts_resf (callback e s) = ts_resf s" "ts_resb (callback e s) = ts_resb s"
  "ts_up (callback e s) = ts_up s"
  by (cases e; simp add: tcp_recv_handler_def tcp_sent_handler_def tcp_err_handler_def
      hev_socks5_session_terminate_def split: option.splits)+

lemma callbacks_frame [simp]:
  "ts_pc (callbacks es s) = ts_pc s" "ts_resf (callbacks es s) = ts_resf s" "ts_resb (callbacks es s) = ts_resb s"
  "ts_up (callbacks es s) = ts_up s"
  by (induction es arbitrary: s) auto

lemma callbacks_rcvd: "\<exists>x. ts_rcvd (callbacks es s) = ts_rcvd s @ x"
proof (induction es arbitrary: s)
  case (Cons e es)
  have "\<exists>x. ts_rcvd (callback e s) = ts_rcvd s @ x"
    by (cases e) (auto simp: tcp_recv_handler_def tcp_sent_handler_def tcp_err_handler_def
        hev_socks5_session_terminate_def split: option.splits)
  then show ?case using Cons.IH[of "callback e s"] by auto
qed simp

definition sess_inv :: "tsess \<Rightarrow> bool" where
  "sess_inv s \<longleftrightarrow> up_ok (ts_up s) s \<and> down_ok (0 \<le> ts_resb s) s \<and> (0 \<le> ts_resb s \<longrightarrow> unread (ts_ring s) = [])"

lemma callback_unread:
  assumes "down_ok g s" "lwip_ok e s"
  shows "unread (ts_ring (callback e s)) = unread (ts_ring s)"
proof (cases e)
  case (Tcp_sent n)
  have r: "ring_ok (ts_ring s)" "ts_got s = ts_acked s @ content (ts_ring s)"
    "length (ts_given s) + length (unread (ts_ring s)) \<le> length (ts_got s)"
    "n + length (ts_acked s) \<le> length (ts_given s)"
    using assms Tcp_sent by (auto simp: down_ok_def)
  have "length (ts_got s) = length (ts_acked s) + length (content (ts_ring s))"
    by (subst r(2)) (rule length_append)
  then have n: "n + length (unread (ts_ring s)) \<le> length (content (ts_ring s))" using r(3,4) by linarith
  show ?thesis using rb.ack[OF r(1) n] Tcp_sent by (simp add: tcp_sent_handler_def)
qed (simp_all add: tcp_recv_handler_def tcp_err_handler_def hev_socks5_session_terminate_def split: option.splits)

lemma callbacks_unread:
  "up_ok u s \<Longrightarrow> down_ok g s \<Longrightarrow> lwip_oks es s \<Longrightarrow> unread (ts_ring (callbacks es s)) = unread (ts_ring s)"
proof (induction es arbitrary: s)
  case (Cons e es)
  then have "up_ok u (callback e s)" "down_ok g (callback e s)"
    using callback_up callback_down by auto
  then show ?case using Cons callback_unread[of g s e] by simp
qed simp

lemma splice_f_ok:
  assumes inv: "sess_inv s" and f: "tcp_splice_f w mid s = (r, s')"
    and l: "\<And>n s1. splice_f_write w s = Inr (n, s1) \<Longrightarrow> lwip_oks mid s1"
  shows "sess_inv s' \<and> ts_resb s' = ts_resb s"
proof (cases "splice_f_write w s")
  case (Inl v)
  then show ?thesis using f inv by (simp add: tcp_splice_f_def)
next
  case (Inr p)
  obtain n where n: "ts_queue s \<noteq> []" "w = W_n n" using Inr
    by (cases w) (auto simp: splice_f_write_def split: if_splits)
  define d where "d = take n (concat (take 64 (ts_queue s)))"
  define s1 where "s1 = s\<lparr>ts_up := ts_up s @ d\<rparr>"
  have p: "p = (length d, s1)"
    using Inr n by (auto simp: splice_f_write_def Let_def d_def s1_def split: if_splits)
  have i: "up_ok (ts_up s) s" "down_ok (0 \<le> ts_resb s) s" using inv by (simp_all add: sess_inv_def)
  have u: "up_ok (ts_up s) s1" by (rule up_ok_frame[OF i(1)]) (simp_all add: s1_def)
  have d: "down_ok (0 \<le> ts_resb s) s1" by (rule down_ok_frame[OF i(2)]) (simp_all add: s1_def)
  have lm: "lwip_oks mid s1" using l Inr p by simp
  define s2 where "s2 = callbacks mid s1"
  have s2: "up_ok (ts_up s) s2" "down_ok (0 \<le> ts_resb s) s2" "ts_up s2 = ts_up s @ d" "ts_resb s2 = ts_resb s"
    "unread (ts_ring s2) = unread (ts_ring s)"
    using callbacks_ok[OF u d lm] callbacks_unread[OF u d lm] by (simp_all add: s2_def s1_def)
  obtain x where "ts_rcvd s2 = ts_rcvd s1 @ x" using callbacks_rcvd s2_def by blast
  then have q: "concat (ts_queue s2) = concat (ts_queue s) @ x"
    using u s2(1) by (simp add: up_ok_def s1_def)
  have "concat (ts_queue s) = concat (take 64 (ts_queue s)) @ concat (drop 64 (ts_queue s))"
    by (simp flip: concat_append)
  also have "\<dots> = d @ drop n (concat (take 64 (ts_queue s))) @ concat (drop 64 (ts_queue s))"
    by (simp add: d_def flip: append.assoc)
  finally obtain y where y: "concat (ts_queue s) = d @ y" by blast
  have ld: "length d mod 65536 = length d"
    using u y by (simp add: up_ok_def s1_def TCP_WND_MAX_def)
  define s3 where "s3 = snd (splice_f_free (length d) s2)"
  have s': "s' = s3"
    using f Inr p by (simp add: tcp_splice_f_def s2_def s3_def)
  have c: "concat (ts_queue s3) = y @ x" "[] \<notin> set (ts_queue s3)" "ts_up s3 = ts_up s @ d" "ts_rcvd s3 = ts_rcvd s2"
    "ts_pcb s3 = ts_pcb s2" "ts_wnd s3 = (if ts_pcb s2 then ts_wnd s2 + length d else ts_wnd s2)"
    using s2(1,3) q y set_free_header[of "ts_queue s2" "length d"]
    by (simp_all add: s3_def splice_f_free_def Let_def up_ok_def pbuf_free_header_def concat_free_header ld)
  have "up_ok (ts_up s3) s3"
    using s2(1) q y c by (simp add: up_ok_def)
  moreover have "ts_ring s3 = ts_ring s2" "ts_resb s3 = ts_resb s"
    using s2(4) by (simp_all add: s3_def splice_f_free_def Let_def)
  moreover have "down_ok (0 \<le> ts_resb s) s3"
    by (rule down_ok_frame[OF s2(2)]) (simp_all add: s3_def splice_f_free_def Let_def)
  ultimately show ?thesis using inv s2(5) s' by (simp add: sess_inv_def)
qed

lemma ring_fill_length: "ring_fill vs d bs = Some d' \<Longrightarrow> length bs \<le> sum_list (map snd vs)"
proof (induction vs d bs rule: ring_fill.induct)
  case (2 i n vs d bs)
  then show ?case by (fastforce simp: bind_eq_Some_conv)
qed (simp split: if_splits)

lemma ring_put_space:
  assumes ok: "ring_ok b" and p: "ring_put b xs = Some b'" "xs \<noteq> []"
  shows "0 < ring_space b \<and> length xs \<le> ring_space b"
proof -
  have o: "max_size b < 2 ^ 32" "use_size b \<le> max_size b" "wp b < max_size b"
    using ok by (auto simp: ring_ok_def)
  have "length xs \<le> sum_list (map snd (hev_ring_buffer_writing b))"
    using p(1) ring_fill_length by (auto simp: ring_put_def bind_eq_Some_conv)
  also have "\<dots> \<le> ring_space b"
    using o by (auto simp: hev_ring_buffer_writing_def Let_def ring_space_def)
  finally show ?thesis using p(2) by (cases xs) auto
qed

lemma accepted_all:
  "length xs \<le> length oks \<Longrightarrow> list_all id (take (length xs) oks) \<Longrightarrow> map snd (filter fst (zip oks xs)) = xs"
proof (induction xs arbitrary: oks)
  case (Cons x xs)
  then show ?case by (cases oks) auto
qed simp

lemma accepted_length: "length (concat (map snd (filter fst (zip oks xs)))) \<le> length (concat xs)"
proof (induction xs arbitrary: oks)
  case (Cons x xs)
  then show ?case by (cases oks) (auto intro: le_SucI trans_le_add2)
qed simp

lemma reading_none: "ring_ok b \<Longrightarrow> unread b = [] \<Longrightarrow> hev_ring_buffer_reading b = []"
  using ring_suffix[of b] by (simp add: hev_ring_buffer_reading_def)

lemma splice_b_mid:
  assumes inv: "sess_inv s" "0 \<le> ts_resb s" and x: "splice_b_read r s = Some (Inr s1)"
    and l: "lwip_oks mid s1"
  shows "up_ok (ts_up s) (callbacks mid s1)" "down_ok True (callbacks mid s1)"
    "ts_up (callbacks mid s1) = ts_up s"
proof -
  have i: "up_ok (ts_up s) s" "down_ok True s" "unread (ts_ring s) = []"
    using inv by (simp_all add: sess_inv_def)
  have ro: "ring_ok (ts_ring s)" using i(2) by (simp add: down_ok_def)
  obtain xs b where b: "r = R_data xs" "xs \<noteq> []" "ring_put (ts_ring s) xs = Some b"
    "s1 = s\<lparr>ts_ring := b, ts_got := ts_got s @ xs\<rparr>"
    using x reading_none[OF ro i(3)]
    by (cases r) (auto simp: splice_b_read_def Let_def bind_eq_Some_conv split: if_splits)
  obtain b' where b': "ring_put (ts_ring s) xs = Some b'" "ring_ok b'" "content b' = content (ts_ring s) @ xs"
    "unread b' = unread (ts_ring s) @ xs"
    using rb.put[OF ro] ring_put_space[OF ro b(3,2)] by blast
  have u: "up_ok (ts_up s) s1" by (rule up_ok_frame[OF i(1)]) (simp_all add: b(4))
  have d: "down_ok True s1"
  proof -
    have d: "ts_got s = ts_acked s @ content (ts_ring s)" "ts_got s = ts_given s @ unread (ts_ring s)"
      "length (ts_acked s) \<le> length (ts_given s)"
      using i(2) unfolding down_ok_def by blast+
    have "ts_got s @ xs = ts_acked s @ content b'" "ts_got s @ xs = ts_given s @ unread b'"
      by (simp only: b'(3) d(1) append_assoc, simp only: b'(4) d(2) append_assoc)
    moreover from this(2) have "length (ts_got s @ xs) = length (ts_given s) + length (unread b')"
      by (simp only: length_append)
    moreover have "ts_ring s1 = b'" "ts_got s1 = ts_got s @ xs" "ts_acked s1 = ts_acked s" "ts_given s1 = ts_given s"
      using b(3) b'(1) by (simp_all add: b(4))
    ultimately show ?thesis using b'(2) d(3) by (simp add: down_ok_def)
  qed
  show "up_ok (ts_up s) (callbacks mid s1)" "down_ok True (callbacks mid s1)" "ts_up (callbacks mid s1) = ts_up s"
    using callbacks_ok[OF u d l] b(4) by simp_all
qed

lemma splice_b_ok:
  assumes inv: "sess_inv s" "0 \<le> ts_resb s" and f: "tcp_splice_b r mid oks ook s = Some (v, s')"
    and l: "\<And>s1. splice_b_read r s = Some (Inr s1) \<Longrightarrow> lwip_oks mid s1" and ol: "length oks = 2"
  shows "sess_inv (s'\<lparr>ts_resb := v\<rparr>)"
proof -
  have i: "up_ok (ts_up s) s" "down_ok True s" "unread (ts_ring s) = []"
    using inv by (simp_all add: sess_inv_def)
  obtain x where x: "splice_b_read r s = Some x" using f by (auto simp: tcp_splice_b_def bind_eq_Some_conv)
  show ?thesis
  proof (cases x)
    case (Inl k)
    then have "s' = s" using f x by (simp add: tcp_splice_b_def)
    moreover have "up_ok (ts_up s) (s\<lparr>ts_resb := v\<rparr>)" by (rule up_ok_frame[OF i(1)]) simp_all
    moreover have "down_ok (0 \<le> v) (s\<lparr>ts_resb := v\<rparr>)" by (rule down_ok_frame[OF i(2)]) simp_all
    ultimately show ?thesis using i(3) by (simp add: sess_inv_def)
  next
    case (Inr s1)
    define s2 where "s2 = callbacks mid s1"
    have s2: "up_ok (ts_up s) s2" "down_ok True s2" "ts_up s2 = ts_up s"
      using splice_b_mid[OF inv _ l] x Inr by (simp_all add: s2_def)
    have w: "splice_b_write oks ook s2 = Some (v, s')"
      using f x Inr by (simp add: tcp_splice_b_def s2_def)
    show ?thesis
    proof (cases "ts_pcb s2")
      case False
      then have "s' = s2" "v = - 1" using w by (simp_all add: splice_b_write_def)
      moreover have "up_ok (ts_up s) (s2\<lparr>ts_resb := - 1\<rparr>)" by (rule up_ok_frame[OF s2(1)]) simp_all
      moreover have "down_ok False (s2\<lparr>ts_resb := - 1\<rparr>)" by (rule down_ok_frame[OF s2(2)]) simp_all
      ultimately show ?thesis using s2(3) by (simp add: sess_inv_def)
    next
      case True
      let ?b = "ts_ring s2"
      have ok: "ring_ok ?b" using s2(2) by (simp add: down_ok_def)
      obtain ys where ys: "ring_gather (rdata ?b) (hev_ring_buffer_reading ?b) = Some ys" "concat ys = unread ?b"
        "map length ys = map snd (hev_ring_buffer_reading ?b)"
        using ring_reading[OF ok] by blast
      define gv where "gv = concat (map snd (filter fst (zip oks ys)))"
      have n: "sum_list (map snd (hev_ring_buffer_reading ?b)) = length (unread ?b)"
        unfolding ys(2)[symmetric] ys(3)[symmetric] by (simp add: length_concat)
      have "length (hev_ring_buffer_reading ?b) \<le> 2" by (simp add: hev_ring_buffer_reading_def Let_def)
      then have ly: "length ys \<le> length oks" using ol ys(3) by (metis length_map)
      have s': "s' = s2\<lparr>ts_ring := hev_ring_buffer_read_finish ?b (length (unread ?b)), ts_given := ts_given s2 @ gv\<rparr>"
        and v: "v = (if list_all id (take (length ys) oks) \<and> ook then 1 else - 1)"
        using w True ys(1) n by (simp_all add: splice_b_write_def gv_def Let_def)
      have rf: "ring_ok (ts_ring s')" "content (ts_ring s') = content ?b" "unread (ts_ring s') = []"
        using rb.sent[OF ok order_refl] by (simp_all add: s')
      have gl: "length gv \<le> length (unread ?b)"
        using accepted_length[of oks ys] by (simp add: gv_def ys(2))
      have gall: "gv = unread ?b" if "0 \<le> v"
        using accepted_all[OF ly] that ys(2) by (simp add: v gv_def split: if_splits)
      have "down_ok (0 \<le> v) s'"
        using s2(2) rf gl gall by (auto simp: down_ok_def s')
      then have "down_ok (0 \<le> v) (s'\<lparr>ts_resb := v\<rparr>)" by (rule down_ok_frame) simp_all
      moreover have "up_ok (ts_up s) (s'\<lparr>ts_resb := v\<rparr>)" by (rule up_ok_frame[OF s2(1)]) (simp_all add: s')
      ultimately show ?thesis using rf(3) s2(3) by (simp add: sess_inv_def s')
    qed
  qed
qed

lemma callback_got [simp]: "ts_got (callback e s) = ts_got s"
  by (cases e; simp add: tcp_recv_handler_def tcp_sent_handler_def tcp_err_handler_def
      hev_socks5_session_terminate_def split: option.splits)

lemma callbacks_got [simp]: "ts_got (callbacks es s) = ts_got s"
  by (induction es arbitrary: s) auto

lemma splice_b_write_total:
  assumes "ring_ok (ts_ring s)"
  shows "\<exists>v s'. splice_b_write oks ook s = Some (v, s') \<and> ts_got s' = ts_got s"
  using ring_reading[OF assms] by (fastforce simp: splice_b_write_def Let_def)

lemma splice_b_data:
  assumes inv: "sess_inv s" "0 \<le> ts_resb s"
    and xs: "xs \<noteq> []" "use_size (ts_ring s) + length xs \<le> max_size (ts_ring s)" "length oks = 2"
    and l: "\<And>s1. splice_b_read (R_data xs) s = Some (Inr s1) \<Longrightarrow> lwip_oks mid s1"
  shows "\<exists>v s'. tcp_splice_b (R_data xs) mid oks ook s = Some (v, s') \<and> ts_got s' = ts_got s @ xs \<and>
    (0 \<le> v \<longrightarrow> ts_given s' = ts_got s')"
proof -
  have i: "ring_ok (ts_ring s)" using inv by (simp add: sess_inv_def down_ok_def)
  have sp: "0 < length xs" "length xs \<le> ring_space (ts_ring s)"
    using xs(1,2) i by (auto simp: ring_space_def ring_ok_def)
  then have "0 < ring_space (ts_ring s)" by linarith
  then obtain b where b: "ring_put (ts_ring s) xs = Some b" "ring_ok b"
    using rb.put[OF i _ sp(2)] by blast
  define s1 where "s1 = s\<lparr>ts_ring := b, ts_got := ts_got s @ xs\<rparr>"
  have "hev_ring_buffer_writing (ts_ring s) \<noteq> []"
    using \<open>0 < ring_space _\<close> by (simp add: ring_space_def hev_ring_buffer_writing_def Let_def)
  then have r: "splice_b_read (R_data xs) s = Some (Inr s1)"
    using b(1) xs(1) by (simp add: splice_b_read_def Let_def s1_def)
  have "ring_ok (ts_ring (callbacks mid s1))"
    using splice_b_mid[OF inv r] l[OF r] by (simp add: down_ok_def)
  then obtain v s' where w: "splice_b_write oks ook (callbacks mid s1) = Some (v, s')" "ts_got s' = ts_got s @ xs"
    using splice_b_write_total by (fastforce simp: s1_def)
  have f: "tcp_splice_b (R_data xs) mid oks ook s = Some (v, s')"
    using r w(1) by (simp add: tcp_splice_b_def)
  have "sess_inv (s'\<lparr>ts_resb := v\<rparr>)"
    using splice_b_ok[OF inv f l xs(3)] by blast
  then have "0 \<le> v \<longrightarrow> ts_given s' = ts_got s'" by (auto simp: sess_inv_def down_ok_def)
  then show ?thesis using f w(2) by blast
qed

lemma sess_start_inv:
  assumes "0 < sndbuf" "sndbuf < 2 ^ 32" "sndbuf \<le> length stk" "length (concat q) \<le> TCP_WND_MAX" "[] \<notin> set q"
  shows "sess_inv (sess_start stk sndbuf q t)"
  using ring_alloca_ok[OF assms(1-3)] assms(4,5) by (simp add: sess_inv_def sess_start_def up_ok_def down_ok_def)

lemma sess_inv_frame:
  assumes "sess_inv s" "ts_rcvd t = ts_rcvd s" "ts_queue t = ts_queue s" "ts_pcb t = ts_pcb s" "ts_wnd t = ts_wnd s"
    "ts_up t = ts_up s" "ts_ring t = ts_ring s" "ts_got t = ts_got s" "ts_given t = ts_given s"
    "ts_acked t = ts_acked s" "ts_resb t = ts_resb s"
  shows "sess_inv t"
proof -
  have i: "up_ok (ts_up s) s" "down_ok (0 \<le> ts_resb s) s" using assms(1) by (simp_all add: sess_inv_def)
  have "up_ok (ts_up s) t" by (rule up_ok_frame[OF i(1) assms(2-5)])
  moreover have "down_ok (0 \<le> ts_resb s) t" by (rule down_ok_frame[OF i(2) assms(7-10)])
  ultimately show ?thesis using assms(1,6,7,11) by (simp add: sess_inv_def)
qed

lemma splice_yield_inv: "sess_inv s \<Longrightarrow> sess_inv (splice_yield left s)"
  by (erule sess_inv_frame; simp add: splice_yield_def Let_def)

lemma splice_drain_inv: "sess_inv s \<Longrightarrow> sess_inv (splice_drain left s)"
  by (erule sess_inv_frame; simp add: splice_drain_def)

lemma callback_inv:
  assumes "sess_inv s" "lwip_ok e s"
  shows "sess_inv (callback e s)"
  using assms callback_up[of "ts_up s" s e] callback_down[of "0 \<le> ts_resb s" s e]
    callback_unread[of "0 \<le> ts_resb s" s e] by (simp add: sess_inv_def)

lemma sess_step_inv:
  assumes "sess_step s t" "sess_inv s"
  shows "sess_inv t"
  using assms
proof (induction rule: sess_step.induct)
  case (f s w mid r s')
  then have "sess_inv s'" using splice_f_ok[of s w mid r s'] by blast
  then show ?case by (rule sess_inv_frame) simp_all
next
  case (b s r mid oks ook v s')
  then have "sess_inv (s'\<lparr>ts_resb := v\<rparr>)" using splice_b_ok[of s r mid oks ook v s'] by blast
  then show ?case by (rule sess_inv_frame) simp_all
next
  case (f_over s)
  then show ?case by - (rule sess_inv_frame[of s]; simp)
next
  case (b_over s)
  then show ?case by - (rule sess_inv_frame[of s]; simp)
qed (simp_all add: callback_inv splice_yield_inv splice_drain_inv)

lemma sess_reach_inv: "sess_reach s0 s \<Longrightarrow> sess_inv s0 \<Longrightarrow> sess_inv s"
  by (induction rule: sess_reach.induct) (auto intro: sess_step_inv)

section \<open>Streams\<close>

text \<open>
  C5. The TCP session loses no byte and repeats none, in either direction. In every state that a
  session reaches up to the return of its splice, whatever lwIP, the kernel and the other tasks do:
  the bytes lwIP delivered are those written to the proxy followed by those in the queue, the
  queue fits the receive window, and as long as the connection is there the window given back
  counts exactly the bytes written. The bytes read from the proxy are those acknowledged followed by
  the content of the ring buffer; until a write fails lwIP has been given all of them, and
  the bytes it has and has not acknowledged still stand at the front of the buffer, to which
  it holds pointers.
\<close>

theorem tcp_session_streams:
  assumes "0 < sndbuf" "sndbuf < 2 ^ 32" "sndbuf \<le> length stk"
    and "length (concat q) \<le> TCP_WND_MAX" "[] \<notin> set q"
    and "sess_reach (sess_start stk sndbuf q t) s"
  shows "ts_rcvd s = ts_up s @ concat (ts_queue s) \<and> length (concat (ts_queue s)) \<le> TCP_WND_MAX \<and>
    (ts_pcb s \<longrightarrow> ts_wnd s = length (ts_up s)) \<and>
    ts_got s = ts_acked s @ content (ts_ring s) \<and> use_size (ts_ring s) \<le> max_size (ts_ring s) \<and>
    (0 \<le> ts_resb s \<longrightarrow> ts_given s = ts_got s \<and>
       take (length (ts_given s) - length (ts_acked s)) (content (ts_ring s)) = drop (length (ts_acked s)) (ts_given s))"
proof -
  have i: "sess_inv s" using sess_reach_inv[OF assms(6)] sess_start_inv[OF assms(1-5)] by blast
  then have "ts_rcvd s = ts_up s @ concat (ts_queue s)" "length (concat (ts_queue s)) \<le> TCP_WND_MAX"
    "ts_pcb s \<longrightarrow> ts_wnd s = length (ts_up s)" "use_size (ts_ring s) \<le> max_size (ts_ring s)"
    by (simp_all add: sess_inv_def up_ok_def down_ok_def ring_ok_def)
  moreover have "down_ok (0 \<le> ts_resb s) s" "0 \<le> ts_resb s \<longrightarrow> unread (ts_ring s) = []"
    using i by (simp_all add: sess_inv_def)
  from this(1,2) have d: "ts_got s = ts_acked s @ content (ts_ring s)" "length (ts_acked s) \<le> length (ts_given s)"
    "0 \<le> ts_resb s \<longrightarrow> ts_got s = ts_given s @ unread (ts_ring s) \<and> unread (ts_ring s) = []"
    unfolding down_ok_def by blast+
  moreover from this have "0 \<le> ts_resb s \<longrightarrow> ts_given s = ts_got s \<and>
       take (length (ts_given s) - length (ts_acked s)) (content (ts_ring s)) = drop (length (ts_acked s)) (ts_given s)"
    using rb.stream_kept[OF d(1) _ d(2)] by auto
  ultimately show ?thesis using d(1) by blast
qed

section \<open>The copy towards lwIP\<close>

text \<open>
  C10. \<open>tcp_splice_b\<close> in every state a session can reach in which it is called: the bytes \<open>readv\<close>
  returns go into the free space, no access leaves the buffer, and all of them are added to the
  stream. If the copy reports success, lwIP was given every one. When the proxy has
  closed or the read fails, it reports \<open>- 1\<close> and changes nothing: the size \<open>- 1\<close> never reaches
  \<open>hev_ring_buffer_write_finish\<close>, where it would be a huge one.
\<close>

theorem tcp_splice_b_returns:
  assumes "0 < sndbuf" "sndbuf < 2 ^ 32" "sndbuf \<le> length stk"
    and "length (concat q) \<le> TCP_WND_MAX" "[] \<notin> set q"
    and "sess_reach (sess_start stk sndbuf q t) s" "0 \<le> ts_resb s" "use_size (ts_ring s) < max_size (ts_ring s)"
    and "use_size (ts_ring s) + length xs \<le> max_size (ts_ring s)" "length oks = 2"
    and "\<And>s1. splice_b_read (R_data xs) s = Some (Inr s1) \<Longrightarrow> lwip_oks mid s1"
  shows "tcp_splice_b R_fail mid oks ook s = Some (- 1, s) \<and>
    (if xs = [] then tcp_splice_b (R_data xs) mid oks ook s = Some (- 1, s)
     else \<exists>v s'. tcp_splice_b (R_data xs) mid oks ook s = Some (v, s') \<and> ts_got s' = ts_got s @ xs \<and>
       (0 \<le> v \<longrightarrow> ts_given s' = ts_got s'))"
proof -
  have i: "sess_inv s" using sess_reach_inv[OF assms(6)] sess_start_inv[OF assms(1-5)] by blast
  then have ro: "ring_ok (ts_ring s)" and u: "unread (ts_ring s) = []"
    using assms(7) by (simp_all add: sess_inv_def down_ok_def)
  have w: "hev_ring_buffer_writing (ts_ring s) \<noteq> []"
    using assms(8) by (simp add: hev_ring_buffer_writing_def Let_def)
  have e: "tcp_splice_b r mid oks ook s = Some (- 1, s)" if "r \<in> {R_fail, R_data []}" for r
    using that w reading_none[OF ro u] by (auto simp: tcp_splice_b_def splice_b_read_def Let_def)
  then show ?thesis using splice_b_data[OF i assms(7) _ assms(9-11)] by auto
qed

section \<open>The end of a session\<close>

text \<open>
  After an error lwIP calls nothing any more, nothing is waited for, and every round in which the
  first copy asks to be called again has written at least a byte of the queue.
\<close>

definition queued :: "tsess \<Rightarrow> nat" where
  "queued s = length (concat (ts_queue s))"

fun steps_left :: "tsess \<Rightarrow> nat" where
  "steps_left s =
     (case ts_pc s of
        At_F \<Rightarrow> 3 * queued s + 5
      | At_B \<Rightarrow> if 0 < ts_resf s then 3 * queued s + 7 else 4
      | At_Yield \<Rightarrow> if 0 < ts_resf s \<or> 0 < ts_resb s then 3 * queued s + 6 else 3
      | Draining \<Rightarrow> 1
      | Done \<Rightarrow> 0)"

definition over :: "tsess \<Rightarrow> bool" where
  "over s \<longleftrightarrow> \<not> ts_pcb s \<and> ts_timeout s = 0 \<and> queued s \<le> TCP_WND_MAX"

lemma over_lwip: "\<not> ts_pcb s \<Longrightarrow> \<not> lwip_ok e s"
  by (induction e s rule: lwip_ok.induct) auto

lemma over_lwips: "\<not> ts_pcb s \<Longrightarrow> lwip_oks es s \<Longrightarrow> es = []"
  using over_lwip by (cases es) auto

lemma splice_f_over:
  assumes o: "over s" and f: "tcp_splice_f w mid s = (r, s')"
    and l: "\<And>n s1. splice_f_write w s = Inr (n, s1) \<Longrightarrow> lwip_oks mid s1"
  shows "over s' \<and> (r \<le> 0 \<or> queued s' < queued s) \<and> ts_resb s' = ts_resb s"
proof (cases "splice_f_write w s")
  case (Inl v)
  then have "r \<le> 0" "s' = s"
    using f by (auto simp: tcp_splice_f_def splice_f_write_def Let_def split: wres.splits if_splits)
  then show ?thesis using o by simp
next
  case (Inr p)
  obtain n where n: "ts_queue s \<noteq> []" "w = W_n n" using Inr
    by (cases w) (auto simp: splice_f_write_def split: if_splits)
  define d where "d = take n (concat (take 64 (ts_queue s)))"
  define s1 where "s1 = s\<lparr>ts_up := ts_up s @ d\<rparr>"
  have p: "p = (length d, s1)" "d \<noteq> []"
    using Inr n by (auto simp: splice_f_write_def Let_def d_def s1_def split: if_splits)
  have "\<not> ts_pcb s1" using o by (simp add: over_def s1_def)
  moreover have "lwip_oks mid s1" using l Inr p(1) by simp
  ultimately have "mid = []" by (rule over_lwips)
  then have "splice_f_free (length d) s1 = (r, s')" using f Inr p(1) by (simp add: tcp_splice_f_def)
  then have s': "s' = s\<lparr>ts_up := ts_up s @ d, ts_queue := pbuf_free_header (ts_queue s) (length d)\<rparr>"
    using o by (simp add: splice_f_free_def Let_def s1_def over_def)
  have "concat (ts_queue s) = concat (take 64 (ts_queue s)) @ concat (drop 64 (ts_queue s))"
    by (simp flip: concat_append)
  then have ld: "length d \<le> queued s" by (simp add: d_def queued_def)
  then have "length d mod 65536 = length d" using o by (simp add: over_def TCP_WND_MAX_def)
  then have "queued s' = queued s - length d"
    by (simp add: s' queued_def pbuf_free_header_def concat_free_header)
  moreover have "0 < length d" using p(2) by blast
  ultimately have "queued s' < queued s" using ld by linarith
  then show ?thesis using o by (simp add: s' over_def)
qed

lemma splice_b_over:
  assumes o: "over s" and f: "tcp_splice_b r mid oks ook s = Some (v, s')"
    and l: "\<And>s1. splice_b_read r s = Some (Inr s1) \<Longrightarrow> lwip_oks mid s1"
  shows "over s' \<and> v \<le> 0 \<and> queued s' = queued s \<and> ts_resf s' = ts_resf s"
proof -
  obtain x where x: "splice_b_read r s = Some x" using f by (auto simp: tcp_splice_b_def bind_eq_Some_conv)
  show ?thesis
  proof (cases x)
    case (Inl k)
    then have "k \<le> 0"
      using x by (cases r) (auto simp: splice_b_read_def Let_def bind_eq_Some_conv split: if_splits)
    then show ?thesis using Inl x f o by (simp add: tcp_splice_b_def)
  next
    case (Inr s1)
    then have s1: "ts_pcb s1 = ts_pcb s" "ts_timeout s1 = ts_timeout s" "ts_queue s1 = ts_queue s" "ts_resf s1 = ts_resf s"
      using x by (cases r; auto simp: splice_b_read_def Let_def bind_eq_Some_conv split: if_splits)+
    then have "\<not> ts_pcb s1" using o by (simp add: over_def)
    moreover have "lwip_oks mid s1" using l Inr x by simp
    ultimately have "mid = []" by (rule over_lwips)
    then have "splice_b_write oks ook s1 = Some (v, s')" using f x Inr by (simp add: tcp_splice_b_def)
    then show ?thesis
      using s1 o by (simp add: splice_b_write_def over_def queued_def)
  qed
qed

lemma over_step:
  assumes "sess_step s t" "over s"
  shows "over t \<and> steps_left t < steps_left s"
  using assms
proof (induction rule: sess_step.induct)
  case (cb e s)
  then show ?case using over_lwip by (auto simp: over_def)
next
  case (f s w mid r s')
  have x: "over s' \<and> (r \<le> 0 \<or> queued s' < queued s) \<and> ts_resb s' = ts_resb s"
    using splice_f_over[OF f(5) f(3)] f(4) by blast
  show ?case using x f(1) by (auto simp: over_def queued_def)
next
  case (b s r mid oks ook v s')
  have x: "over s' \<and> v \<le> 0 \<and> queued s' = queued s \<and> ts_resf s' = ts_resf s"
    using splice_b_over[OF b(6) b(3)] b(4) by blast
  show ?case using x b(1) by (auto simp: over_def queued_def)
next
  case (yield s left)
  then have "task_io_yielder HEV_TASK_WAITIO (ts_timeout s) left < 0" by (simp add: over_def task_io_yielder_def)
  then show ?case using yield by (auto simp: splice_yield_def Let_def over_def queued_def task_io_yielder_def)
next
  case (drain s left)
  then show ?case by (auto simp: splice_drain_def over_def queued_def)
qed (auto simp: over_def queued_def)

lemma over_progress:
  assumes "over s" "ts_pc s \<noteq> Done"
  shows "\<exists>t. sess_step s t"
proof (cases "ts_pc s")
  case At_F
  show ?thesis
  proof (cases "0 \<le> ts_resf s")
    case True
    then show ?thesis using sess_step.f[OF At_F True, of W_again "[]" 0 s]
      by (cases "ts_queue s = []") (auto simp: tcp_splice_f_def splice_f_write_def)
  next
    case False
    then show ?thesis using sess_step.f_over[OF At_F] by auto
  qed
next
  case At_B
  show ?thesis
  proof (cases "0 \<le> ts_resb s")
    case True
    then show ?thesis using sess_step.b[OF At_B True, of R_again "[]" "[True, True]" True 0 s]
      by (cases "hev_ring_buffer_writing (ts_ring s) = []") (auto simp: tcp_splice_b_def splice_b_read_def Let_def)
  next
    case False
    then show ?thesis using sess_step.b_over[OF At_B] by auto
  qed
next
  case At_Yield
  then show ?thesis using sess_step.yield[OF At_Yield, of 0] assms(1) by (auto simp: over_def)
next
  case Draining
  then show ?thesis using sess_step.drain[OF Draining, of 0] assms(1) by (auto simp: over_def)
qed (use assms in simp)

lemma over_run: "(sess_step ^^ n) s t \<Longrightarrow> over s \<Longrightarrow> over t \<and> n + steps_left t \<le> steps_left s"
proof (induction n arbitrary: t)
  case (Suc n)
  then obtain u where "(sess_step ^^ n) s u" "sess_step u t" by auto
  then show ?case using Suc.IH[of u] Suc.prems(2) over_step[of u t] by auto
qed simp

text \<open>
  C6. A session of which lwIP reports an error ends. From the state \<open>tcp_err_handler\<close> leaves,
  wherever the task stands, every run comes to the end of the splice after at most three steps for
  each byte in the queue and seven more, and before that there is always a next step. The bound on
  the queue is that of every reachable session.
\<close>

theorem reset_session_ends:
  assumes "length (concat (ts_queue s)) \<le> TCP_WND_MAX" "(sess_step ^^ n) (tcp_err_handler s) t"
  shows "n \<le> 3 * length (concat (ts_queue s)) + 7 \<and> (ts_pc t = Done \<longleftrightarrow> (\<nexists>u. sess_step t u))"
proof -
  have o: "over (tcp_err_handler s)"
    using assms(1) by (simp add: over_def queued_def tcp_err_handler_def hev_socks5_session_terminate_def)
  have t: "over t" "n + steps_left t \<le> steps_left (tcp_err_handler s)" using over_run[OF assms(2) o] by simp_all
  have "steps_left (tcp_err_handler s) \<le> 3 * length (concat (ts_queue s)) + 7"
    by (cases "ts_pc s") (auto simp: tcp_err_handler_def hev_socks5_session_terminate_def queued_def)
  then have "n \<le> 3 * length (concat (ts_queue s)) + 7" using t(2) by linarith
  moreover have "ts_pc t = Done \<longleftrightarrow> (\<nexists>u. sess_step t u)"
    using over_progress[OF t(1)] over_step[of t] t(1) by fastforce
  ultimately show ?thesis by blast
qed

section \<open>A run\<close>

text \<open>
  A session with three bytes queued and a buffer of four. The first copy writes one byte while
  lwIP delivers another; the second reads three bytes, and lwIP takes them.
\<close>

definition demo_sess :: tsess where
  "demo_sess = sess_start [9, 9, 9, 9] 4 [[1, 2], [3]] 5"

definition demo_sess1 :: tsess where
  "demo_sess1 = (snd (tcp_splice_f (W_n 1) [Tcp_recv (Some [[4]])] demo_sess))\<lparr>ts_pc := At_B, ts_resf := 1\<rparr>"

definition demo_sess2 :: tsess where
  "demo_sess2 = (snd (the (tcp_splice_b (R_data [5, 6, 7]) [] [True, True] True demo_sess1)))
     \<lparr>ts_pc := At_Yield, ts_resb := 1\<rparr>"

lemmas demo_simps = demo_sess_def demo_sess1_def demo_sess2_def sess_start_def hev_ring_buffer_alloca_def
  tcp_splice_f_def splice_f_write_def splice_f_free_def tcp_recv_handler_def tot_len_def pbuf_free_header_def
  TCP_WND_MAX_def tcp_splice_b_def splice_b_read_def splice_b_write_def ring_put_def Let_def
  hev_ring_buffer_writing_def hev_ring_buffer_reading_def hev_ring_buffer_write_finish_def
  hev_ring_buffer_read_finish_def wrn_def rdn_def

lemma demo_step1: "sess_step demo_sess demo_sess1"
proof -
  have "ts_pc demo_sess = At_F" "0 \<le> ts_resf demo_sess" by (simp_all add: demo_sess_def sess_start_def)
  moreover have "tcp_splice_f (W_n 1) [Tcp_recv (Some [[4]])] demo_sess =
      (1, snd (tcp_splice_f (W_n 1) [Tcp_recv (Some [[4]])] demo_sess))"
    by (simp add: demo_simps)
  moreover have "lwip_oks [Tcp_recv (Some [[4]])] s1" if "splice_f_write (W_n 1) demo_sess = Inr (n, s1)" for n s1
    using that by (auto simp: demo_simps)
  ultimately show ?thesis unfolding demo_sess1_def by (rule sess_step.f)
qed

lemma demo_step2: "sess_step demo_sess1 demo_sess2"
proof -
  have "ts_pc demo_sess1 = At_B" "0 \<le> ts_resb demo_sess1" by (simp_all add: demo_simps)
  moreover have "tcp_splice_b (R_data [5, 6, 7]) [] [True, True] True demo_sess1 =
      Some (1, snd (the (tcp_splice_b (R_data [5, 6, 7]) [] [True, True] True demo_sess1)))"
    by (simp add: demo_simps)
  moreover have "lwip_oks [] s1" if "splice_b_read (R_data [5, 6, 7]) demo_sess1 = Some (Inr s1)" for s1
    by simp
  moreover have "length [True, True] = 2" by simp
  ultimately show ?thesis unfolding demo_sess2_def by (rule sess_step.b)
qed

lemma demo_reach: "sess_reach demo_sess demo_sess2"
  by (rule sess_reach.step[OF sess_reach.step[OF sess_reach.start demo_step1] demo_step2])

lemma tcp_session_streams_witness:
  "ts_rcvd demo_sess2 = [1, 2, 3, 4] \<and> ts_up demo_sess2 = [1] \<and> ts_wnd demo_sess2 = 1 \<and>
   ts_given demo_sess2 = [5, 6, 7] \<and> take 3 (content (ts_ring demo_sess2)) = [5, 6, 7]"
proof -
  have a: "(0::nat) < 4" "(4::nat) < 2 ^ 32" "4 \<le> length [9, 9, 9, 9 :: byte]"
    "length (concat [[1, 2], [3 :: byte]]) \<le> TCP_WND_MAX" "[] \<notin> set [[1, 2], [3 :: byte]]"
    by (simp_all add: TCP_WND_MAX_def)
  note x = tcp_session_streams[OF a, of 5 demo_sess2, folded demo_sess_def, OF demo_reach]
  have f: "ts_up demo_sess2 = [1]" "concat (ts_queue demo_sess2) = [2, 3, 4]" "ts_pcb demo_sess2"
    "0 \<le> ts_resb demo_sess2" "ts_given demo_sess2 = [5, 6, 7]" "ts_acked demo_sess2 = []"
    by (simp_all add: demo_simps)
  from x have "ts_rcvd demo_sess2 = ts_up demo_sess2 @ concat (ts_queue demo_sess2)"
    "ts_pcb demo_sess2 \<longrightarrow> ts_wnd demo_sess2 = length (ts_up demo_sess2)"
    "0 \<le> ts_resb demo_sess2 \<longrightarrow> take (length (ts_given demo_sess2) - length (ts_acked demo_sess2))
       (content (ts_ring demo_sess2)) = drop (length (ts_acked demo_sess2)) (ts_given demo_sess2)"
    by blast+
  then have "ts_rcvd demo_sess2 = [1, 2, 3, 4]" "ts_wnd demo_sess2 = 1"
    "take (length [5, 6, 7 :: byte] - 0) (content (ts_ring demo_sess2)) = [5, 6, 7]"
    using f by (simp_all only: f list.size drop0 append.simps length_Cons simp_thms)
  then show ?thesis using f by (simp add: numeral_3_eq_3)
qed

lemma tcp_splice_b_returns_witness:
  "tcp_splice_b (R_data []) [] [True, True] True demo_sess1 = Some (- 1, demo_sess1) \<and>
   (\<exists>v s'. tcp_splice_b (R_data [5, 6, 7]) [] [True, True] True demo_sess1 = Some (v, s') \<and>
      ts_got s' = ts_got demo_sess1 @ [5, 6, 7] \<and> (0 \<le> v \<longrightarrow> ts_given s' = ts_got s'))"
proof -
  have a: "(0::nat) < 4" "(4::nat) < 2 ^ 32" "4 \<le> length [9, 9, 9, 9 :: byte]"
    "length (concat [[1, 2], [3 :: byte]]) \<le> TCP_WND_MAX" "[] \<notin> set [[1, 2], [3 :: byte]]"
    by (simp_all add: TCP_WND_MAX_def)
  have r: "sess_reach demo_sess demo_sess1" by (rule sess_reach.step[OF sess_reach.start demo_step1])
  have u: "0 \<le> ts_resb demo_sess1" "use_size (ts_ring demo_sess1) < max_size (ts_ring demo_sess1)"
    "use_size (ts_ring demo_sess1) + length [5, 6, 7 :: byte] \<le> max_size (ts_ring demo_sess1)"
    by (simp_all add: demo_simps)
  note x = tcp_splice_b_returns[OF a, of 5 demo_sess1, folded demo_sess_def, OF r u(1,2),
      where mid = "[]" and oks = "[True, True]" and ook = True]
  have l: "length [True, True] = 2" "\<And>s1. lwip_oks [] s1" by simp_all
  have u0: "use_size (ts_ring demo_sess1) + length ([] :: bytes) \<le> max_size (ts_ring demo_sess1)" using u(2) by simp
  have ne: "[5, 6, 7 :: byte] \<noteq> []" by simp
  from x[OF u0 l] have "tcp_splice_b (R_data []) [] [True, True] True demo_sess1 = Some (- 1, demo_sess1)"
    unfolding if_P[OF refl] by (rule conjunct2)
  moreover from x[OF u(3) l] have "\<exists>v s'. tcp_splice_b (R_data [5, 6, 7]) [] [True, True] True demo_sess1 = Some (v, s') \<and>
      ts_got s' = ts_got demo_sess1 @ [5, 6, 7] \<and> (0 \<le> v \<longrightarrow> ts_given s' = ts_got s')"
    unfolding if_not_P[OF ne] by (rule conjunct2)
  ultimately show ?thesis by (rule conjI)
qed

lemma reset_session_ends_witness:
  "\<exists>t. (sess_step ^^ 1) (tcp_err_handler demo_sess) t \<and> ts_pc t = At_B \<and> 1 \<le> 3 * length (concat (ts_queue demo_sess)) + 7 \<and>
     (\<exists>u. sess_step t u)"
proof -
  have q: "length (concat (ts_queue demo_sess)) \<le> TCP_WND_MAX" by (simp add: demo_simps)
  have "ts_pc (tcp_err_handler demo_sess) = At_F" "0 \<le> ts_resf (tcp_err_handler demo_sess)"
    by (simp_all add: demo_simps tcp_err_handler_def hev_socks5_session_terminate_def)
  then have "sess_step (tcp_err_handler demo_sess) (tcp_err_handler demo_sess\<lparr>ts_pc := At_B, ts_resf := 0\<rparr>)"
    by (rule sess_step.f[where w = W_again and mid = "[]"])
      (simp_all add: demo_simps tcp_err_handler_def hev_socks5_session_terminate_def)
  then have s: "(sess_step ^^ 1) (tcp_err_handler demo_sess) (tcp_err_handler demo_sess\<lparr>ts_pc := At_B, ts_resf := 0\<rparr>)"
    by (simp only: relpowp_1)
  have p: "ts_pc (tcp_err_handler demo_sess\<lparr>ts_pc := At_B, ts_resf := 0\<rparr>) = At_B" by simp
  then have "ts_pc (tcp_err_handler demo_sess\<lparr>ts_pc := At_B, ts_resf := 0\<rparr>) \<noteq> Done"
    by (simp only: task_pc.distinct simp_thms)
  then show ?thesis using s p reset_session_ends[OF q s] by blast
qed

end
