(* ===== verification/Hevlist.thy ===== *)
theory Hevlist
  imports Prelude
begin

text \<open>
  The doubly linked list of the tunnel, \<open>misc/hev-list.c\<close>: its nodes are members of the objects
  they link, so the list is pointers into a store and nothing else. The lemmas show that a list
  in the store refines a list of nodes without repetition, and the locale \<open>node_list\<close> is what
  its users, the session set and the frames of a UDP session, rely on.
\<close>

section \<open>The list\<close>

text \<open>Pointers are numbers, the null pointer is \<open>None\<close>; a node that is not allocated is undefined.\<close>

record list_node =
  nd_next :: "nat option"
  nd_prev :: "nat option"

record hev_list =
  li_head :: "nat option"
  li_tail :: "nat option"
  li_nodes :: "nat \<Rightarrow> list_node option"

definition set_node :: "nat \<Rightarrow> (list_node \<Rightarrow> list_node) \<Rightarrow> hev_list \<Rightarrow> hev_list option" where
  "set_node p f l = do {
     n \<leftarrow> li_nodes l p;
     Some (l\<lparr>li_nodes := (li_nodes l)(p := Some (f n))\<rparr>)
   }"

definition hev_list_first :: "hev_list \<Rightarrow> nat option" where
  "hev_list_first l = li_head l"

definition hev_list_node_next :: "nat \<Rightarrow> hev_list \<Rightarrow> nat option option" where
  "hev_list_node_next p l = do { n \<leftarrow> li_nodes l p; Some (nd_next n) }"

definition hev_list_add_tail :: "nat \<Rightarrow> hev_list \<Rightarrow> hev_list option" where
  "hev_list_add_tail p l = do {
     l \<leftarrow> set_node p (\<lambda>n. n\<lparr>nd_prev := li_tail l\<rparr>) l;
     l \<leftarrow> set_node p (\<lambda>n. n\<lparr>nd_next := None\<rparr>) l;
     l \<leftarrow> (case li_tail l of
            Some t \<Rightarrow> set_node t (\<lambda>n. n\<lparr>nd_next := Some p\<rparr>) l
          | None \<Rightarrow> Some (l\<lparr>li_head := Some p\<rparr>));
     Some (l\<lparr>li_tail := Some p\<rparr>)
   }"

definition hev_list_del :: "nat \<Rightarrow> hev_list \<Rightarrow> hev_list option" where
  "hev_list_del p l = do {
     n \<leftarrow> li_nodes l p;
     l \<leftarrow> (case nd_prev n of
            Some q \<Rightarrow> set_node q (\<lambda>m. m\<lparr>nd_next := nd_next n\<rparr>) l
          | None \<Rightarrow> Some (l\<lparr>li_head := nd_next n\<rparr>));
     n \<leftarrow> li_nodes l p;
     case nd_next n of
       Some q \<Rightarrow> set_node q (\<lambda>m. m\<lparr>nd_prev := nd_prev n\<rparr>) l
     | None \<Rightarrow> Some (l\<lparr>li_tail := nd_prev n\<rparr>)
   }"

section \<open>What the store holds\<close>

text \<open>\<open>segment h p xs q\<close>: the nodes \<open>xs\<close> are linked in this order, between \<open>p\<close> and \<open>q\<close>.\<close>

definition first_or :: "nat option \<Rightarrow> nat list \<Rightarrow> nat option" where
  "first_or q xs = (case xs of [] \<Rightarrow> q | x # _ \<Rightarrow> Some x)"

definition last_or :: "nat option \<Rightarrow> nat list \<Rightarrow> nat option" where
  "last_or p xs = (if xs = [] then p else Some (last xs))"

fun segment :: "(nat \<Rightarrow> list_node option) \<Rightarrow> nat option \<Rightarrow> nat list \<Rightarrow> nat option \<Rightarrow> bool" where
  "segment h p [] q \<longleftrightarrow> True"
| "segment h p (x # xs) q \<longleftrightarrow>
     h x = Some \<lparr>nd_next = first_or q xs, nd_prev = p\<rparr> \<and> segment h (Some x) xs q"

definition holds :: "hev_list \<Rightarrow> nat list \<Rightarrow> bool" where
  "holds l xs \<longleftrightarrow> distinct xs \<and> li_head l = first_or None xs \<and> li_tail l = last_or None xs \<and>
     segment (li_nodes l) None xs None"

lemma ends_simps [simp]:
  "first_or q [] = q" "first_or q (x # xs) = Some x" "last_or p [] = p" "last_or p (xs @ [x]) = Some x"
  "first_or q (xs @ x # ys) = first_or (Some x) xs" "last_or p (xs @ x # ys) = last_or (Some x) ys"
  "last_or p (x # xs) = last_or (Some x) xs"
  by (cases xs; simp add: first_or_def last_or_def)+

lemma segment_append:
  "segment h p (xs @ ys) q \<longleftrightarrow> segment h p xs (first_or q ys) \<and> segment h (last_or p xs) ys q"
proof (induction xs arbitrary: p)
  case (Cons x xs)
  have "first_or q (xs @ ys) = first_or (first_or q ys) xs" by (cases xs) (simp_all add: first_or_def)
  then show ?case using Cons by auto
qed simp

lemma segment_frame [simp]: "x \<notin> set xs \<Longrightarrow> segment (h(x := v)) p xs q = segment h p xs q"
  by (induction xs arbitrary: p) auto

lemma holds_empty: "holds \<lparr>li_head = None, li_tail = None, li_nodes = h\<rparr> []"
  by (simp add: holds_def)

lemma holds_store:
  "holds l xs \<Longrightarrow> p \<notin> set xs \<Longrightarrow> holds (l\<lparr>li_nodes := (li_nodes l)(p := v)\<rparr>) xs"
  by (simp add: holds_def)

lemma holds_first: "holds l xs \<Longrightarrow> hev_list_first l = (case xs of [] \<Rightarrow> None | x # _ \<Rightarrow> Some x)"
  by (simp add: holds_def hev_list_first_def first_or_def)

lemma holds_node:
  "holds l (xs @ x # ys) \<Longrightarrow>
   li_nodes l x = Some \<lparr>nd_next = first_or None ys, nd_prev = last_or None xs\<rparr>"
  by (simp add: holds_def segment_append)

lemma holds_next: "holds l (xs @ x # ys) \<Longrightarrow> hev_list_node_next x l = Some (first_or None ys)"
  by (simp add: hev_list_node_next_def holds_node)

lemma add_tail_holds:
  assumes l: "holds l xs" "p \<notin> set xs" "li_nodes l p = Some n"
  shows "\<exists>l'. hev_list_add_tail p l = Some l' \<and> holds l' (xs @ [p]) \<and> dom (li_nodes l') = dom (li_nodes l)"
proof (cases xs rule: rev_cases)
  case Nil
  then show ?thesis using l
    by (auto simp: hev_list_add_tail_def set_node_def holds_def dom_def)
next
  case (snoc ys t)
  then have t: "li_tail l = Some t" "li_head l = first_or (Some t) ys" "distinct (ys @ [t])"
    "segment (li_nodes l) None ys (Some t)"
    "li_nodes l t = Some \<lparr>nd_next = None, nd_prev = last_or None ys\<rparr>" "p \<noteq> t" "p \<notin> set ys" "t \<notin> set ys"
    using l by (simp_all add: holds_def segment_append)
  define h where "h = (li_nodes l)(p := Some \<lparr>nd_next = None, nd_prev = Some t\<rparr>,
      t := Some \<lparr>nd_next = Some p, nd_prev = last_or None ys\<rparr>)"
  have "hev_list_add_tail p l = Some \<lparr>li_head = li_head l, li_tail = Some p, li_nodes = h\<rparr>"
    using t(1,5,6) l(3) by (cases n) (simp add: hev_list_add_tail_def set_node_def h_def)
  moreover have "segment h None (ys @ [t, p]) None"
    using t(4,6-8) by (simp add: segment_append h_def)
  moreover have "dom h = dom (li_nodes l)" using t(5) l(3) by (auto simp: h_def dom_def)
  ultimately show ?thesis using t snoc by (simp add: holds_def)
qed

lemma del_holds:
  assumes l: "holds l (xs @ p # ys)"
  shows "\<exists>l'. hev_list_del p l = Some l' \<and> holds l' (xs @ ys) \<and> dom (li_nodes l') = dom (li_nodes l)"
proof -
  have n: "li_nodes l p = Some \<lparr>nd_next = first_or None ys, nd_prev = last_or None xs\<rparr>"
    by (rule holds_node[OF l])
  have s: "distinct (xs @ p # ys)" "li_head l = first_or (Some p) xs" "li_tail l = last_or (Some p) ys"
    "segment (li_nodes l) None xs (Some p)" "segment (li_nodes l) (Some p) ys None"
    using l by (simp_all add: holds_def segment_append)
  obtain l1 where l1: "(case last_or None xs of
            Some q \<Rightarrow> set_node q (\<lambda>m. m\<lparr>nd_next := first_or None ys\<rparr>) l
          | None \<Rightarrow> Some (l\<lparr>li_head := first_or None ys\<rparr>)) = Some l1"
    and h1: "li_head l1 = first_or None (xs @ ys)" "li_tail l1 = li_tail l" "li_nodes l1 p = li_nodes l p"
      "segment (li_nodes l1) None xs (first_or None ys)" "segment (li_nodes l1) (Some p) ys None"
      "dom (li_nodes l1) = dom (li_nodes l)"
  proof (cases xs rule: rev_cases)
    case Nil
    then show ?thesis using s by (intro that[of "l\<lparr>li_head := first_or None ys\<rparr>"]) simp_all
  next
    case (snoc zs q)
    then have q: "li_nodes l q = Some \<lparr>nd_next = Some p, nd_prev = last_or None zs\<rparr>" "q \<noteq> p" "q \<notin> set ys" "q \<notin> set zs"
      "segment (li_nodes l) None zs (Some q)"
      using s by (auto simp: segment_append)
    show ?thesis
      using q snoc s by (intro that[of "l\<lparr>li_nodes := (li_nodes l)(q := Some \<lparr>nd_next = first_or None ys, nd_prev = last_or None zs\<rparr>)\<rparr>"])
        (auto simp: set_node_def segment_append dom_def)
  qed
  obtain l2 where l2: "(case first_or None ys of
            Some q \<Rightarrow> set_node q (\<lambda>m. m\<lparr>nd_prev := last_or None xs\<rparr>) l1
          | None \<Rightarrow> Some (l1\<lparr>li_tail := last_or None xs\<rparr>)) = Some l2"
    and h2: "li_head l2 = first_or None (xs @ ys)" "li_tail l2 = last_or None (xs @ ys)"
      "segment (li_nodes l2) None xs (first_or None ys)" "segment (li_nodes l2) (last_or None xs) ys None"
      "dom (li_nodes l2) = dom (li_nodes l)"
  proof (cases ys)
    case Nil
    then show ?thesis using s h1 by (intro that[of "l1\<lparr>li_tail := last_or None xs\<rparr>"]) simp_all
  next
    case (Cons q zs)
    then have q: "li_nodes l1 q = Some \<lparr>nd_next = first_or None zs, nd_prev = Some p\<rparr>" "q \<notin> set xs" "q \<notin> set zs"
      "segment (li_nodes l1) (Some q) zs None"
      using h1(5) s(1) by auto
    show ?thesis
      using q Cons s h1 by (intro that[of "l1\<lparr>li_nodes := (li_nodes l1)(q := Some \<lparr>nd_next = first_or None zs, nd_prev = last_or None xs\<rparr>)\<rparr>"])
        (auto simp: set_node_def dom_def)
  qed
  have "hev_list_del p l = Some l2"
    unfolding hev_list_del_def n Option.bind.bind_lunit list_node.simps l1 h1(3) l2 by (rule refl)
  moreover have "holds l2 (xs @ ys)" using h2 s(1) by (simp add: holds_def segment_append)
  ultimately show ?thesis using h2(5) by blast
qed

section \<open>The contract\<close>

text \<open>
  \<open>lst l xs\<close>: the list \<open>l\<close> links the nodes \<open>xs\<close>, in this order. \<open>mem\<close> are the nodes that are
  allocated. A client walks a list with \<open>first\<close> and \<open>follow\<close>, and a walk visits every node once.
\<close>

locale node_list =
  fixes lst :: "'l \<Rightarrow> nat list \<Rightarrow> bool" and mem :: "'l \<Rightarrow> nat set"
    and first :: "'l \<Rightarrow> nat option" and follow :: "nat \<Rightarrow> 'l \<Rightarrow> nat option option"
    and add :: "nat \<Rightarrow> 'l \<Rightarrow> 'l option" and del :: "nat \<Rightarrow> 'l \<Rightarrow> 'l option"
  assumes lst_distinct: "lst l xs \<Longrightarrow> distinct xs"
    and lst_first: "lst l xs \<Longrightarrow> first l = (case xs of [] \<Rightarrow> None | x # _ \<Rightarrow> Some x)"
    and lst_follow: "lst l (xs @ x # ys) \<Longrightarrow> follow x l = Some (case ys of [] \<Rightarrow> None | y # _ \<Rightarrow> Some y)"
    and lst_add: "lst l xs \<Longrightarrow> p \<notin> set xs \<Longrightarrow> p \<in> mem l \<Longrightarrow>
      \<exists>l'. add p l = Some l' \<and> lst l' (xs @ [p]) \<and> mem l' = mem l"
    and lst_del: "lst l (xs @ p # ys) \<Longrightarrow> \<exists>l'. del p l = Some l' \<and> lst l' (xs @ ys) \<and> mem l' = mem l"
begin

lemma pop: "lst l (x # xs) \<Longrightarrow> first l = Some x \<and> (\<exists>l'. del x l = Some l' \<and> lst l' xs \<and> mem l' = mem l)"
  using lst_first[of l "x # xs"] lst_del[of l "[]" x xs] by simp

lemma pop_only: "lst l xs \<Longrightarrow> first l = Some x \<Longrightarrow> \<exists>ys. xs = x # ys"
  using lst_first[of l xs] by (cases xs) simp_all

lemma empty_first: "lst l xs \<Longrightarrow> first l = None \<longleftrightarrow> xs = []"
  using lst_first[of l xs] by (cases xs) simp_all

end

interpretation hl: node_list holds "\<lambda>l. dom (li_nodes l)" hev_list_first hev_list_node_next hev_list_add_tail hev_list_del
proof unfold_locales
  fix l xs x ys assume "holds l (xs @ x # ys)"
  then show "hev_list_node_next x l = Some (case ys of [] \<Rightarrow> None | y # _ \<Rightarrow> Some y)"
    using holds_next by (simp add: first_or_def)
next
  fix l xs p assume "holds l xs" "p \<notin> set xs" "p \<in> dom (li_nodes l)"
  then show "\<exists>l'. hev_list_add_tail p l = Some l' \<and> holds l' (xs @ [p]) \<and> dom (li_nodes l') = dom (li_nodes l)"
    using add_tail_holds by blast
next
  fix l xs p ys assume "holds l (xs @ p # ys)"
  then show "\<exists>l'. hev_list_del p l = Some l' \<and> holds l' (xs @ ys) \<and> dom (li_nodes l') = dom (li_nodes l)"
    by (rule del_holds)
qed (simp_all add: holds_first, simp add: holds_def)

section \<open>Runs\<close>

text \<open>
  What the users of a list do to it, and what they mean by it: a sequence of nodes to which an
  allocated node outside it is appended, and from which a node in it is taken.
\<close>

datatype list_op = Add_tail nat | Del nat

fun list_step :: "list_op \<Rightarrow> hev_list \<Rightarrow> hev_list option" where
  "list_step (Add_tail p) l = hev_list_add_tail p l"
| "list_step (Del p) l = hev_list_del p l"

fun list_run :: "list_op list \<Rightarrow> hev_list \<Rightarrow> hev_list option" where
  "list_run [] l = Some l"
| "list_run (x # xs) l = do { l \<leftarrow> list_step x l; list_run xs l }"

fun seq_step :: "nat set \<Rightarrow> list_op \<Rightarrow> nat list \<Rightarrow> nat list option" where
  "seq_step A (Add_tail p) xs = (if p \<in> A \<and> p \<notin> set xs then Some (xs @ [p]) else None)"
| "seq_step A (Del p) xs = (if p \<in> set xs then Some (remove1 p xs) else None)"

fun seq_run :: "nat set \<Rightarrow> list_op list \<Rightarrow> nat list \<Rightarrow> nat list option" where
  "seq_run A [] xs = Some xs"
| "seq_run A (x # ops) xs = do { xs \<leftarrow> seq_step A x xs; seq_run A ops xs }"

text \<open>Walking a list from a pointer until the null pointer, at most \<open>n\<close> nodes.\<close>

fun list_walk :: "nat \<Rightarrow> nat option \<Rightarrow> hev_list \<Rightarrow> nat list option" where
  "list_walk n None l = Some []"
| "list_walk 0 (Some p) l = None"
| "list_walk (Suc n) (Some p) l = do { q \<leftarrow> hev_list_node_next p l; xs \<leftarrow> list_walk n q l; Some (p # xs) }"

lemma list_step_refines:
  assumes "holds l xs" and "seq_step (dom (li_nodes l)) x xs = Some ys"
  shows "\<exists>l'. list_step x l = Some l' \<and> holds l' ys \<and> dom (li_nodes l') = dom (li_nodes l)"
proof (cases x)
  case (Add_tail p)
  then show ?thesis
    using assms hl.lst_add[of l xs p] by (auto split: if_splits)
next
  case (Del p)
  then obtain as bs where "xs = as @ p # bs" "p \<notin> set as"
    using assms(2) split_list_first[of p xs] by (auto split: if_splits)
  then show ?thesis
    using assms Del hl.lst_del[of l as p bs] by (auto simp: remove1_append)
qed

lemma list_run_holds:
  "holds l xs \<Longrightarrow> seq_run (dom (li_nodes l)) ops xs = Some ys \<Longrightarrow> \<exists>l'. list_run ops l = Some l' \<and> holds l' ys"
proof (induction ops arbitrary: l xs)
  case (Cons x ops)
  obtain zs where zs: "seq_step (dom (li_nodes l)) x xs = Some zs" "seq_run (dom (li_nodes l)) ops zs = Some ys"
    using Cons.prems(2) by (auto simp: bind_eq_Some_conv)
  obtain l1 where "list_step x l = Some l1" "holds l1 zs" "dom (li_nodes l1) = dom (li_nodes l)"
    using list_step_refines[OF Cons.prems(1) zs(1)] by blast
  then show ?case
    using Cons.IH[of l1 zs] zs(2) by simp
qed simp

lemma list_walk_holds:
  "holds l (xs @ ys) \<Longrightarrow> length ys \<le> n \<Longrightarrow> list_walk n (first_or None ys) l = Some ys"
proof (induction ys arbitrary: xs n)
  case (Cons y ys)
  obtain m where m: "n = Suc m" "length ys \<le> m"
    using Cons.prems(2) by (cases n) auto
  show ?case
    using Cons.IH[of "xs @ [y]" m] Cons.prems(1) holds_next[OF Cons.prems(1)] m by simp
qed simp

text \<open>
  C9. The linked list of the tunnel is a sequence of nodes. From an empty list, whatever its
  store holds, every sequence of appending and taking out that makes sense for a sequence (a node
  is appended only while it is outside the list, and taken out only while it is in it) runs without
  an access outside the allocated nodes, and a walk from the first node along \<open>next\<close> then ends
  and visits exactly the nodes of the sequence, in its order.
\<close>

theorem list_run_refines:
  assumes "li_head l = None" and "li_tail l = None" and "seq_run (dom (li_nodes l)) ops [] = Some ys"
  shows "\<exists>l'. list_run ops l = Some l' \<and> list_walk (length ys) (hev_list_first l') l' = Some ys"
proof -
  have "holds l []"
    using assms(1,2) by (simp add: holds_def)
  then obtain l' where l': "list_run ops l = Some l'" "holds l' ys"
    using list_run_holds assms(3) by blast
  moreover have "hev_list_first l' = first_or None ys"
    using l'(2) by (simp add: holds_def hev_list_first_def)
  ultimately show ?thesis
    using list_walk_holds[of l' "[]" ys "length ys"] by simp
qed

theorem list_run_refines_witness:
  "\<exists>l'. list_run [Add_tail 1, Add_tail 2, Add_tail 3, Del 2, Del 1, Add_tail 2]
       \<lparr>li_head = None, li_tail = None, li_nodes = (\<lambda>_. Some \<lparr>nd_next = Some 7, nd_prev = Some 8\<rparr>)\<rparr> = Some l'
     \<and> list_walk (length [3::nat, 2]) (hev_list_first l') l' = Some [3, 2]"
  by (rule list_run_refines) simp_all

end
