(* ===== verification/Udpsess.thy ===== *)
theory Udpsess
  imports Hevudp Hevlist
begin

text \<open>
  A UDP session of the tunnel, \<open>hev-socks5-session-udp.c\<close>, and the conversion of addresses in
  \<open>misc/hev-utils.c\<close>. lwIP's callback puts datagrams into a list of frames, the task of the
  session sends them to the proxy in order, a second task gives the proxy's datagrams to lwIP.
  The lemmas show that no frame is lost, sent twice or leaked while callbacks and task interleave.
\<close>

section \<open>Addresses of lwIP\<close>

text \<open>\<open>ip_bytes\<close> are the 16 bytes of the union; an IPv4 address is the first four.\<close>

datatype ip_type = IPADDR_TYPE_V4 | IPADDR_TYPE_V6 | IPADDR_TYPE_ANY

record ip_addr =
  ip_type :: ip_type
  ip_bytes :: bytes

definition lwip_to_sock_addr :: "ip_addr \<Rightarrow> int \<Rightarrow> bytes \<Rightarrow> bytes" where
  "lwip_to_sock_addr ip port addr =
     (let (p0, p1) = htons_bytes port in
      if ip_type ip = IPADDR_TYPE_V4 then
        set_sin_addr (take 4 (ip_bytes ip)) (set_port p0 p1 (set_family AF_INET addr))
      else if ip_type ip = IPADDR_TYPE_V6 then
        set_sin6_addr (take 16 (ip_bytes ip)) (set_port p0 p1 (set_family AF_INET6 addr))
      else addr)"

definition ntohs_bytes :: "bytes \<Rightarrow> int" where
  "ntohs_bytes p = uint (p ! 0) * 256 + uint (p ! 1)"

text \<open>The result, the address and the port; the last two are those passed in when it fails.\<close>

definition sock_to_lwip_addr :: "bytes \<Rightarrow> ip_addr \<Rightarrow> int \<Rightarrow> int \<times> ip_addr \<times> int" where
  "sock_to_lwip_addr addr ip port =
     (if sa_family addr = AF_INET then
        (0, \<lparr>ip_type = IPADDR_TYPE_V4, ip_bytes = sin_addr addr @ drop 4 (ip_bytes ip)\<rparr>, ntohs_bytes (sin_port addr))
      else if sa_family addr = AF_INET6 then
        (0, \<lparr>ip_type = IPADDR_TYPE_V6, ip_bytes = sin6_addr addr @ drop 16 (ip_bytes ip)\<rparr>, ntohs_bytes (sin_port addr))
      else (- 1, ip, port))"

lemma lwip_addr_round_trip:
  assumes "sockaddr_ok a" "length (ip_bytes ip) = 16" "length (ip_bytes ip') = 16" "0 \<le> port" "port < 65536"
    and "ip_type ip \<noteq> IPADDR_TYPE_ANY"
  shows "\<exists>ip2. sock_to_lwip_addr (lwip_to_sock_addr ip port a) ip' q = (0, ip2, port) \<and> ip_type ip2 = ip_type ip \<and>
    take (if ip_type ip = IPADDR_TYPE_V4 then 4 else 16) (ip_bytes ip2) =
    take (if ip_type ip = IPADDR_TYPE_V4 then 4 else 16) (ip_bytes ip)"
proof -
  have p: "ntohs_bytes [fst (htons_bytes port), snd (htons_bytes port)] = port"
    using htons_round_trip[OF assms(4,5)] by (simp add: ntohs_bytes_def)
  have "2 \<le> length a" using assms(1) by (simp add: sockaddr_ok_def)
  then have "sa_family (set_family AF_INET a) = AF_INET" "sa_family (set_family AF_INET6 a) = AF_INET6"
    using family_set by simp_all
  then show ?thesis
    using assms p by (cases "ip_type ip")
      (simp_all add: lwip_to_sock_addr_def sock_to_lwip_addr_def sin_port_def split_beta)
qed

section \<open>The session\<close>

text \<open>
  A frame is the address and the \<open>pbuf\<close> chain of a datagram, as the list of its payloads. The
  store of frames and that of their nodes are one in the code: a frame holds its node.
  \<open>us_acc\<close> and \<open>us_gone\<close> are not the code's: they record the frames taken from lwIP and those
  handed to \<open>hev_socks5_udp_sendto\<close>.
\<close>

definition UDP_POOL_SIZE :: int where
  "UDP_POOL_SIZE = 512"

definition UDP_BUF_SIZE :: nat where
  "UDP_BUF_SIZE = 1500"

record frame_obj =
  fr_addr :: bytes
  fr_data :: "bytes list"

record usess =
  us_type :: hev_type
  us_list :: hev_list
  us_mem :: "nat \<Rightarrow> frame_obj option"
  us_frames :: int
  us_timeout :: int
  us_running :: bool
  us_sock :: sock
  us_acc :: "frame_obj list"
  us_gone :: "frame_obj list"

text \<open>\<open>hev_malloc\<close> and \<open>hev_free\<close> of a frame; the node is cleared by the \<open>memset\<close> that follows.\<close>

definition new_frame :: "nat \<Rightarrow> frame_obj \<Rightarrow> usess \<Rightarrow> usess" where
  "new_frame q f s = s\<lparr>us_mem := (us_mem s)(q := Some f),
     us_list := (us_list s)\<lparr>li_nodes := (li_nodes (us_list s))(q := Some \<lparr>nd_next = None, nd_prev = None\<rparr>)\<rparr>\<rparr>"

definition free_frame :: "nat \<Rightarrow> usess \<Rightarrow> usess" where
  "free_frame q s = s\<lparr>us_mem := (us_mem s)(q := None),
     us_list := (us_list s)\<lparr>li_nodes := (li_nodes (us_list s))(q := None)\<rparr>\<rparr>"

text \<open>
  \<open>udp_recv_handler\<close>: the datagram or null, the local address and port of the pcb, and what the
  allocation returns, with the bytes \<open>g\<close> the memory of the address holds.
\<close>

record udp_ev =
  ev_data :: "bytes list option"
  ev_ip :: ip_addr
  ev_port :: int
  ev_ptr :: "nat option"
  ev_mem :: bytes

definition udp_recv_handler :: "udp_ev \<Rightarrow> usess \<Rightarrow> usess option" where
  "udp_recv_handler e s =
     (case ev_data e of
        None \<Rightarrow> Some (s\<lparr>us_timeout := 0\<rparr>)
      | Some p \<Rightarrow>
          if us_frames s > UDP_POOL_SIZE then Some s
          else case ev_ptr e of
            None \<Rightarrow> Some s
          | Some q \<Rightarrow> do {
              let f = \<lparr>fr_addr = lwip_to_sock_addr (ev_ip e) (ev_port e) (ev_mem e), fr_data = p\<rparr>;
              let s = new_frame q f s;
              let s = s\<lparr>us_frames := us_frames s + 1\<rparr>;
              l \<leftarrow> hev_list_add_tail q (us_list s);
              Some (s\<lparr>us_list := l, us_acc := us_acc s @ [f]\<rparr>)
            })"

fun udp_recvs :: "udp_ev list \<Rightarrow> usess \<Rightarrow> usess option" where
  "udp_recvs [] s = Some s"
| "udp_recvs (e # es) s = do { s \<leftarrow> udp_recv_handler e s; udp_recvs es s }"

text \<open>
  \<open>hev_socks5_session_udp_fwd_f\<close> with a frame in the list; \<open>mid\<close> are the callbacks that run while
  the task waits in the send. Only the first buffer of a chain is sent.
\<close>

definition fwd_f_send :: "bytes \<Rightarrow> udp_ev list \<Rightarrow> nat \<Rightarrow> usess \<Rightarrow> (int \<times> usess) option" where
  "fwd_f_send stk mid q s = do {
     f \<leftarrow> us_mem s q;
     d \<leftarrow> (case fr_data f of [] \<Rightarrow> None | d # _ \<Rightarrow> Some d);
     (res, k) \<leftarrow> hev_socks5_udp_sendto stk (us_type s) d (length d) (fr_addr f) (us_sock s);
     let res = (if res \<le> 0 then - 1 else res);
     let s = s\<lparr>us_sock := k\<rparr>;
     s \<leftarrow> udp_recvs mid s;
     l \<leftarrow> hev_list_del q (us_list s);
     let s = free_frame q (s\<lparr>us_list := l\<rparr>);
     Some (res, s\<lparr>us_frames := us_frames s - 1, us_gone := us_gone s @ [f]\<rparr>)
   }"

text \<open>
  \<open>hev_socks5_session_udp_fwd_b\<close>: \<open>pb\<close> is the allocated buffer, \<open>remote\<close> the type of the
  pcb's remote address, \<open>ok\<close> whether \<open>udp_sendfrom\<close> succeeds. Besides the result, what lwIP is
  given.
\<close>

definition hev_socks5_session_udp_fwd_b ::
  "bytes \<Rightarrow> bytes option \<Rightarrow> ip_type \<Rightarrow> ip_addr \<Rightarrow> int \<Rightarrow> bool \<Rightarrow> hev_type \<Rightarrow> sock \<Rightarrow>
   (int \<times> (bytes \<times> ip_addr \<times> int) option \<times> sock) option" where
  "hev_socks5_session_udp_fwd_b stk pb remote addr port ok type k =
     (let saddr = (if remote = IPADDR_TYPE_V4 then set_family AF_INET (replicate 28 0)
                   else if remote = IPADDR_TYPE_V6 then set_family AF_INET6 (replicate 28 0)
                   else replicate 28 0)
      in case pb of
        None \<Rightarrow> Some (- 1, None, k)
      | Some payload \<Rightarrow> do {
          (res, payload, saddr, k) \<leftarrow> hev_socks5_udp_recvfrom stk type payload UDP_BUF_SIZE saddr k;
          if res \<le> 0 then Some (- 1, None, k)
          else do {
            d \<leftarrow> rdn payload 0 res;
            let (r, addr, port) = sock_to_lwip_addr saddr addr port;
            if r < 0 then Some (- 1, None, k)
            else Some (if ok then 0 else - 1, Some (d, addr, port), k)
          }
        })"

section \<open>The sending task\<close>

text \<open>
  What holds of an allocation: it returns memory that is not in use. A datagram of lwIP has at
  least one buffer, and none of them is empty.
\<close>

definition ev_ok :: "udp_ev \<Rightarrow> usess \<Rightarrow> bool" where
  "ev_ok e s \<longleftrightarrow> (\<forall>q. ev_ptr e = Some q \<longrightarrow> us_mem s q = None) \<and> ev_data e \<noteq> Some []"

fun evs_ok :: "udp_ev list \<Rightarrow> usess \<Rightarrow> bool" where
  "evs_ok [] s \<longleftrightarrow> True"
| "evs_ok (e # es) s \<longleftrightarrow> ev_ok e s \<and> (\<forall>s'. udp_recv_handler e s = Some s' \<longrightarrow> evs_ok es s')"

definition udp_start :: "hev_type \<Rightarrow> int \<Rightarrow> sock \<Rightarrow> usess" where
  "udp_start t tm k =
     \<lparr>us_type = t, us_list = \<lparr>li_head = None, li_tail = None, li_nodes = Map.empty\<rparr>, us_mem = Map.empty,
      us_frames = 0, us_timeout = tm, us_running = True, us_sock = k, us_acc = [], us_gone = []\<rparr>"

inductive udp_step :: "bytes \<Rightarrow> usess \<Rightarrow> usess \<Rightarrow> bool" for stk where
  recv: "ev_ok e s \<Longrightarrow> udp_recv_handler e s = Some s' \<Longrightarrow> udp_step stk s s'"
| wait: "us_running s \<Longrightarrow> hev_list_first (us_list s) = None \<Longrightarrow> (0 \<le> us_timeout s \<Longrightarrow> left \<le> us_timeout s) \<Longrightarrow>
    udp_step stk s (s\<lparr>us_running := 0 \<le> task_io_yielder HEV_TASK_WAITIO (us_timeout s) left\<rparr>)"
| send: "us_running s \<Longrightarrow> hev_list_first (us_list s) = Some q \<Longrightarrow>
    (\<And>k. evs_ok mid (s\<lparr>us_sock := k\<rparr>)) \<Longrightarrow> fwd_f_send stk mid q s = Some (res, s') \<Longrightarrow>
    udp_step stk s (s'\<lparr>us_running := 0 \<le> res\<rparr>)"

text \<open>The environment of the socket may change between two steps: a new list of ticks.\<close>

inductive udp_reach :: "bytes \<Rightarrow> usess \<Rightarrow> usess \<Rightarrow> bool" for stk s0 where
  start: "udp_reach stk s0 s0"
| step: "udp_reach stk s0 s \<Longrightarrow> udp_step stk (s\<lparr>us_sock := (us_sock s)\<lparr>sk_ticks := ts\<rparr>\<rparr>) t \<Longrightarrow> udp_reach stk s0 t"

section \<open>The invariant\<close>

text \<open>\<open>udp_queue s qs\<close>: the list links the frames \<open>qs\<close>, and they are the ones allocated.\<close>

definition udp_queue :: "usess \<Rightarrow> nat list \<Rightarrow> bool" where
  "udp_queue s qs \<longleftrightarrow> holds (us_list s) qs \<and> dom (us_mem s) = set qs \<and> us_frames s = int (length qs) \<and>
     int (length qs) \<le> UDP_POOL_SIZE + 1 \<and> us_acc s = us_gone s @ map (\<lambda>q. the (us_mem s q)) qs \<and>
     (\<forall>q f. us_mem s q = Some f \<longrightarrow> fr_data f \<noteq> [])"

lemma queued_start: "udp_queue (udp_start t tm k) []"
  using hl.lst_distinct by (auto simp: udp_queue_def udp_start_def holds_empty UDP_POOL_SIZE_def)

lemma queued_cong:
  "udp_queue s qs \<Longrightarrow> us_list t = us_list s \<Longrightarrow> us_mem t = us_mem s \<Longrightarrow> us_frames t = us_frames s \<Longrightarrow>
   us_acc t = us_acc s \<Longrightarrow> us_gone t = us_gone s \<Longrightarrow> udp_queue t qs"
  by (simp add: udp_queue_def)

lemma recv_queued:
  assumes s: "udp_queue s qs" "ev_ok e s"
  shows "\<exists>s' ps. udp_recv_handler e s = Some s' \<and> udp_queue s' (qs @ ps) \<and> (\<forall>q \<in> set qs. us_mem s' q = us_mem s q) \<and>
    us_gone s' = us_gone s \<and> us_sock s' = us_sock s \<and> us_running s' = us_running s \<and> us_type s' = us_type s"
proof -
  consider (over) "ev_data e = None" | (drop) p where "ev_data e = Some p" "us_frames s > UDP_POOL_SIZE \<or> ev_ptr e = None"
    | (take) p q where "ev_data e = Some p" "\<not> us_frames s > UDP_POOL_SIZE" "ev_ptr e = Some q"
    by (cases "ev_data e"; cases "ev_ptr e") auto
  then show ?thesis
  proof cases
    case over
    then show ?thesis using s(1)
      by (intro exI[of _ "s\<lparr>us_timeout := 0\<rparr>"] exI[of _ "[]"]) (simp add: udp_recv_handler_def udp_queue_def)
  next
    case drop
    then show ?thesis using s(1) by (intro exI[of _ s] exI[of _ "[]"]) (auto simp: udp_recv_handler_def)
  next
    case take
    define f where "f = \<lparr>fr_addr = lwip_to_sock_addr (ev_ip e) (ev_port e) (ev_mem e), fr_data = p\<rparr>"
    have q: "us_mem s q = None" "p \<noteq> []" using s(2) take by (auto simp: ev_ok_def)
    then have qn: "q \<notin> set qs" using s(1) by (auto simp: udp_queue_def)
    let ?s = "new_frame q f s"
    have "holds (us_list s) qs" using s(1) by (simp add: udp_queue_def)
    then have h: "holds (us_list ?s) qs" using holds_store qn by (simp add: new_frame_def)
    have "q \<in> dom (li_nodes (us_list ?s))" by (simp add: new_frame_def)
    then obtain l where l: "hev_list_add_tail q (us_list ?s) = Some l" "holds l (qs @ [q])"
      using hl.lst_add[OF h qn] by blast
    define s' where "s' = ?s\<lparr>us_frames := us_frames s + 1, us_list := l, us_acc := us_acc s @ [f]\<rparr>"
    have r: "udp_recv_handler e s = Some s'"
      using take l(1) by (simp add: udp_recv_handler_def Let_def f_def[symmetric] s'_def new_frame_def)
    have m: "us_mem s' = (us_mem s)(q := Some f)" by (simp add: s'_def new_frame_def)
    have "map (\<lambda>x. the (us_mem s' x)) qs = map (\<lambda>x. the (us_mem s x)) qs" using qn by (auto simp: m)
    then have "udp_queue s' (qs @ [q])"
      using s(1) l(2) take(2) q(2) m by (auto simp: udp_queue_def s'_def new_frame_def f_def)
    moreover have "\<forall>x \<in> set qs. us_mem s' x = us_mem s x" using qn by (auto simp: m)
    ultimately show ?thesis using r by (intro exI[of _ s'] exI[of _ "[q]"]) (simp add: s'_def new_frame_def)
  qed
qed

lemma recvs_queued:
  "udp_queue s qs \<Longrightarrow> evs_ok es s \<Longrightarrow>
   \<exists>s' ps. udp_recvs es s = Some s' \<and> udp_queue s' (qs @ ps) \<and> (\<forall>q \<in> set qs. us_mem s' q = us_mem s q) \<and>
    us_gone s' = us_gone s \<and> us_sock s' = us_sock s \<and> us_running s' = us_running s \<and> us_type s' = us_type s"
proof (induction es arbitrary: s qs)
  case Nil
  then show ?case by (intro exI[of _ s] exI[of _ "[]"]) simp
next
  case (Cons e es)
  then obtain s1 ps where s1: "udp_recv_handler e s = Some s1" "udp_queue s1 (qs @ ps)" "\<forall>q \<in> set qs. us_mem s1 q = us_mem s q"
    "us_gone s1 = us_gone s" "us_sock s1 = us_sock s" "us_running s1 = us_running s" "us_type s1 = us_type s"
    using recv_queued[of s qs e] by auto
  have "evs_ok es s1" using Cons.prems(2) s1(1) by simp
  then obtain s2 rs where "udp_recvs es s1 = Some s2" "udp_queue s2 ((qs @ ps) @ rs)" "\<forall>q \<in> set (qs @ ps). us_mem s2 q = us_mem s1 q"
    "us_gone s2 = us_gone s1" "us_sock s2 = us_sock s1" "us_running s2 = us_running s1" "us_type s2 = us_type s1"
    using Cons.IH[OF s1(2)] by blast
  then show ?case using s1 by (intro exI[of _ s2] exI[of _ "ps @ rs"]) simp
qed

lemma send_queued:
  assumes s: "udp_queue s qs" "hev_list_first (us_list s) = Some q" "\<And>k. evs_ok mid (s\<lparr>us_sock := k\<rparr>)"
    and k: "hev_socks5_udp_sendto stk (us_type s) (hd (fr_data f)) (length (hd (fr_data f))) (fr_addr f) (us_sock s) = Some (res, k)"
    and f: "us_mem s q = Some f"
  shows "\<exists>s' ps. fwd_f_send stk mid q s = Some (if res \<le> 0 then - 1 else res, s') \<and> udp_queue s' (tl qs @ ps) \<and>
    us_sock s' = k \<and> us_gone s' = us_gone s @ [f]"
proof -
  obtain rs where qs: "qs = q # rs"
    using hl.pop_only[of "us_list s" qs q] s(1,2) by (auto simp: udp_queue_def)
  obtain d ds where d: "fr_data f = d # ds" using s(1) f by (cases "fr_data f") (auto simp: udp_queue_def)
  let ?s = "s\<lparr>us_sock := k\<rparr>"
  have "udp_queue ?s qs" using s(1) by (rule queued_cong) simp_all
  then obtain s1 ps where s1: "udp_recvs mid ?s = Some s1" "udp_queue s1 (qs @ ps)" "\<forall>q \<in> set qs. us_mem s1 q = us_mem s q"
    "us_gone s1 = us_gone s" "us_sock s1 = k"
    using recvs_queued[of ?s qs mid] s(3) by auto
  have h: "holds (us_list s1) (q # rs @ ps)" using s1(2) by (simp add: udp_queue_def qs)
  then obtain l where l: "hev_list_del q (us_list s1) = Some l" "holds l (rs @ ps)"
    using hl.pop by blast
  have q: "q \<notin> set (rs @ ps)" "us_mem s1 q = Some f" using hl.lst_distinct[OF h] s1(3) f by (auto simp: qs)
  define s' where "s' = (free_frame q (s1\<lparr>us_list := l\<rparr>))\<lparr>us_frames := us_frames s1 - 1, us_gone := us_gone s1 @ [f]\<rparr>"
  have r: "fwd_f_send stk mid q s = Some (if res \<le> 0 then - 1 else res, s')"
    using f d k s1(1) l(1) by (simp add: fwd_f_send_def Let_def s'_def free_frame_def)
  have m: "us_mem s' = (us_mem s1)(q := None)" by (simp add: s'_def free_frame_def)
  have "map (\<lambda>x. the (us_mem s' x)) (rs @ ps) = map (\<lambda>x. the (us_mem s1 x)) (rs @ ps)" using q(1) by (auto simp: m)
  moreover have "holds (us_list s') (rs @ ps)" using holds_store[OF l(2) q(1)] by (simp add: s'_def free_frame_def)
  moreover have "dom (us_mem s') = set (rs @ ps)" using s1(2) q(1) by (auto simp: udp_queue_def qs m)
  ultimately have "udp_queue s' (rs @ ps)"
    using s1(2) q(2) unfolding udp_queue_def by (auto simp: qs s'_def free_frame_def)
  then show ?thesis using r s1(4,5) by (intro exI[of _ s'] exI[of _ ps]) (simp add: qs s'_def free_frame_def)
qed

text \<open>
  The oldest frame goes out whatever callbacks run meanwhile: in the stream as one message with its
  length, on the datagram socket as one datagram.
\<close>

lemma send_one:
  assumes s: "udp_queue s qs" "hev_list_first (us_list s) = Some q" "us_mem s q = Some f"
      "\<And>k. evs_ok mid (s\<lparr>us_sock := k\<rparr>)"
    and k: "hev_socks5_udp_sendto stk (us_type s) (hd (fr_data f)) (length (hd (fr_data f))) (fr_addr f) (us_sock s) =
      Some (int (length m), k)" "m \<noteq> []"
  shows "\<exists>s' res. fwd_f_send stk mid q s = Some (res, s') \<and> 0 < res \<and> us_gone s' = us_gone s @ [f] \<and> us_sock s' = k"
proof -
  have "0 < length m" using k(2) by simp
  then show ?thesis
    using send_queued[OF s(1,2,4) k(1) s(3)] by fastforce
qed

lemma send_frame:
  assumes s: "udp_queue s qs" "hev_list_first (us_list s) = Some q" "us_mem s q = Some f"
      "\<And>k. evs_ok mid (s\<lparr>us_sock := k\<rparr>)"
    and t: "us_type s = HEV_SOCKS5_TYPE_UDP_IN_TCP" "inet_addr (fr_addr f)" "263 \<le> length stk"
      "steady (length (frame_msg (fr_addr f) (hd (fr_data f)))) (us_sock s)"
  shows "\<exists>s' res. fwd_f_send stk mid q s = Some (res, s') \<and> 0 < res \<and> us_gone s' = us_gone s @ [f] \<and>
      concat (sk_out (us_sock s')) = concat (sk_out (us_sock s)) @ frame_msg (fr_addr f) (hd (fr_data f))"
proof -
  let ?d = "hd (fr_data f)" and ?m = "frame_msg (fr_addr f) (hd (fr_data f))"
  have ne: "?m \<noteq> []" by (simp add: frame_msg_def)
  obtain k where k: "hev_task_io_socket_send ?m True (us_sock s) = Some (int (length ?m), k)" "ran [] ?m (us_sock s) k"
    using send_ok[OF t(4) ne] by blast
  have "hev_socks5_udp_sendto stk (us_type s) ?d (length ?d) (fr_addr f) (us_sock s) = Some (int (length ?m), k)"
    using udp_sendto_is_send[OF t(2,3), of ?d ?d] k(1) by (simp add: t(1))
  then show ?thesis
    using send_one[OF s _ ne] k(2) by (fastforce simp: ran_def)
qed

lemma send_datagram:
  assumes s: "udp_queue s qs" "hev_list_first (us_list s) = Some q" "us_mem s q = Some f"
      "\<And>k. evs_ok mid (s\<lparr>us_sock := k\<rparr>)"
    and t: "us_type s = HEV_SOCKS5_TYPE_UDP_IN_UDP" "inet_addr (fr_addr f)" "263 \<le> length stk"
      "sk_dgram (us_sock s)" "sk_ticks (us_sock s) = Move n # ts"
  shows "\<exists>s' res. fwd_f_send stk mid q s = Some (res, s') \<and> 0 < res \<and> us_gone s' = us_gone s @ [f] \<and>
      sk_out (us_sock s') = sk_out (us_sock s) @ [udp_msg (fr_addr f) (hd (fr_data f))]"
proof -
  let ?d = "hd (fr_data f)" and ?m = "udp_msg (fr_addr f) (hd (fr_data f))"
  have ne: "?m \<noteq> []" by (simp add: udp_msg_def)
  have "hev_socks5_udp_sendto stk (us_type s) ?d (length ?d) (fr_addr f) (us_sock s) =
      Some (int (length ?m), (us_sock s)\<lparr>sk_out := sk_out (us_sock s) @ [?m], sk_ticks := ts\<rparr>)"
    using udp_sendto_is_send[OF t(2,3), of ?d ?d] send_dgram[OF t(4,5) ne] by (simp add: t(1))
  then show ?thesis
    using send_one[OF s _ ne] by fastforce
qed

lemma step_queued:
  assumes "udp_step stk s t" "udp_queue s qs"
  shows "\<exists>ps. udp_queue t ps \<and> (\<exists>fs. us_gone t = us_gone s @ fs)"
  using assms
proof (induction rule: udp_step.induct)
  case (recv e s s')
  then show ?case using recv_queued[of s qs e] by auto
next
  case (wait s left)
  have "udp_queue (s\<lparr>us_running := 0 \<le> task_io_yielder HEV_TASK_WAITIO (us_timeout s) left\<rparr>) qs"
    using wait(4) by (rule queued_cong) simp_all
  then show ?case by (intro exI[of _ qs]) simp
next
  case (send s q mid res s')
  obtain f where f: "us_mem s q = Some f"
    using send(4) by (auto simp: fwd_f_send_def bind_eq_Some_conv)
  obtain r k where k: "hev_socks5_udp_sendto stk (us_type s) (hd (fr_data f)) (length (hd (fr_data f))) (fr_addr f) (us_sock s) = Some (r, k)"
    using send(4) f by (auto simp: fwd_f_send_def bind_eq_Some_conv split: list.splits)
  obtain ps where "udp_queue s' (tl qs @ ps)" "us_gone s' = us_gone s @ [f]"
    using send_queued[OF send(5,2,3) k f] send(4) by auto
  moreover from this(1) have "udp_queue (s'\<lparr>us_running := 0 \<le> res\<rparr>) (tl qs @ ps)" by (rule queued_cong) simp_all
  ultimately show ?case by auto
qed

lemma reach_queued:
  "udp_reach stk s0 s \<Longrightarrow> udp_queue s0 [] \<Longrightarrow> \<exists>qs. udp_queue s qs"
proof (induction rule: udp_reach.induct)
  case (step s ts t)
  then obtain qs where "udp_queue s qs" by blast
  then have "udp_queue (s\<lparr>us_sock := (us_sock s)\<lparr>sk_ticks := ts\<rparr>\<rparr>) qs" by (rule queued_cong) simp_all
  then show ?case using step_queued[OF step(2)] by blast
qed blast

section \<open>The frames of a session\<close>

text \<open>
  C8. A UDP session sends the datagrams of lwIP in order, none twice. In every state it can
  reach, with callbacks between any two of its steps and while it waits in a send: the frames taken
  are those sent followed by those in the list, \<open>frames\<close> counts the list and never exceeds the
  pool size by more than one, and exactly the frames in the list are allocated, so none leaks and none
  is used after it was freed. The next step with a frame in the list, on a socket that does not
  fail, whatever callbacks run during it, puts exactly one message on the wire, made of the oldest
  frame's address and the first buffer of its datagram: as a datagram of its own when the session
  uses UDP, the mode the application configures, and as a frame in the stream when it uses TCP.
\<close>

theorem udp_session_fifo:
  assumes "udp_reach stk (udp_start type tm k) s"
  shows "\<exists>qs. holds (us_list s) qs \<and> us_frames s = int (length qs) \<and> us_frames s \<le> UDP_POOL_SIZE + 1 \<and>
    dom (us_mem s) = set qs \<and> us_acc s = us_gone s @ map (\<lambda>q. the (us_mem s q)) qs \<and>
    (\<forall>q f mid. hev_list_first (us_list s) = Some q \<and> us_mem s q = Some f \<and> inet_addr (fr_addr f) \<and> 263 \<le> length stk \<and>
       (\<forall>k. evs_ok mid (s\<lparr>us_sock := k\<rparr>)) \<longrightarrow>
       (us_type s = HEV_SOCKS5_TYPE_UDP_IN_UDP \<and> sk_dgram (us_sock s) \<and> (\<exists>n ts. sk_ticks (us_sock s) = Move n # ts) \<longrightarrow>
          (\<exists>s' res. fwd_f_send stk mid q s = Some (res, s') \<and> 0 < res \<and> us_gone s' = us_gone s @ [f] \<and>
             sk_out (us_sock s') = sk_out (us_sock s) @ [udp_msg (fr_addr f) (hd (fr_data f))])) \<and>
       (us_type s = HEV_SOCKS5_TYPE_UDP_IN_TCP \<and> steady (length (frame_msg (fr_addr f) (hd (fr_data f)))) (us_sock s) \<longrightarrow>
          (\<exists>s' res. fwd_f_send stk mid q s = Some (res, s') \<and> 0 < res \<and> us_gone s' = us_gone s @ [f] \<and>
             concat (sk_out (us_sock s')) = concat (sk_out (us_sock s)) @ frame_msg (fr_addr f) (hd (fr_data f)))))"
proof -
  obtain qs where qs: "udp_queue s qs" using reach_queued[OF assms] queued_start by blast
  have tcp: "\<exists>s' res. fwd_f_send stk mid q s = Some (res, s') \<and> 0 < res \<and> us_gone s' = us_gone s @ [f] \<and>
      concat (sk_out (us_sock s')) = concat (sk_out (us_sock s)) @ frame_msg (fr_addr f) (hd (fr_data f))"
    if a: "hev_list_first (us_list s) = Some q" "us_mem s q = Some f" "\<forall>k. evs_ok mid (s\<lparr>us_sock := k\<rparr>)"
      "us_type s = HEV_SOCKS5_TYPE_UDP_IN_TCP" "inet_addr (fr_addr f)" "263 \<le> length stk"
      "steady (length (frame_msg (fr_addr f) (hd (fr_data f)))) (us_sock s)" for q f mid
    using send_frame[OF qs a(1,2) _ a(4-7)] a(3) by blast
  have udp: "\<exists>s' res. fwd_f_send stk mid q s = Some (res, s') \<and> 0 < res \<and> us_gone s' = us_gone s @ [f] \<and>
      sk_out (us_sock s') = sk_out (us_sock s) @ [udp_msg (fr_addr f) (hd (fr_data f))]"
    if a: "hev_list_first (us_list s) = Some q" "us_mem s q = Some f" "\<forall>k. evs_ok mid (s\<lparr>us_sock := k\<rparr>)"
      "us_type s = HEV_SOCKS5_TYPE_UDP_IN_UDP" "inet_addr (fr_addr f)" "263 \<le> length stk"
      "sk_dgram (us_sock s)" "sk_ticks (us_sock s) = Move n # ts" for q f mid n ts
    using send_datagram[OF qs a(1,2) _ a(4-8)] a(3) by blast
  have "holds (us_list s) qs \<and> us_frames s = int (length qs) \<and> us_frames s \<le> UDP_POOL_SIZE + 1 \<and>
    dom (us_mem s) = set qs \<and> us_acc s = us_gone s @ map (\<lambda>q. the (us_mem s q)) qs"
    using qs by (auto simp: udp_queue_def)
  moreover have "(us_type s = HEV_SOCKS5_TYPE_UDP_IN_UDP \<and> sk_dgram (us_sock s) \<and> (\<exists>n ts. sk_ticks (us_sock s) = Move n # ts) \<longrightarrow>
          (\<exists>s' res. fwd_f_send stk mid q s = Some (res, s') \<and> 0 < res \<and> us_gone s' = us_gone s @ [f] \<and>
             sk_out (us_sock s') = sk_out (us_sock s) @ [udp_msg (fr_addr f) (hd (fr_data f))])) \<and>
       (us_type s = HEV_SOCKS5_TYPE_UDP_IN_TCP \<and> steady (length (frame_msg (fr_addr f) (hd (fr_data f)))) (us_sock s) \<longrightarrow>
          (\<exists>s' res. fwd_f_send stk mid q s = Some (res, s') \<and> 0 < res \<and> us_gone s' = us_gone s @ [f] \<and>
             concat (sk_out (us_sock s')) = concat (sk_out (us_sock s)) @ frame_msg (fr_addr f) (hd (fr_data f))))"
    if "hev_list_first (us_list s) = Some q \<and> us_mem s q = Some f \<and> inet_addr (fr_addr f) \<and> 263 \<le> length stk \<and>
       (\<forall>k. evs_ok mid (s\<lparr>us_sock := k\<rparr>))" for q f mid
    using tcp[of q f mid] udp[of q f mid] that by blast
  ultimately show ?thesis
    by (intro exI[of _ qs]) simp
qed

section \<open>From the proxy to lwIP\<close>

text \<open>A frame in the stream is given to lwIP with its sender; an empty one ends the session.\<close>

lemma fwd_b_frame:
  assumes sa: "inet_addr sa" and i: "sk_in k = frame_msg sa d @ z" and st: "steady (length (frame_msg sa d)) k"
    and len: "length d \<le> UDP_BUF_SIZE" "length payload = UDP_BUF_SIZE" "263 \<le> length stk"
  shows "\<exists>addr' port' k'. hev_socks5_session_udp_fwd_b stk (Some payload) IPADDR_TYPE_V6 addr port True HEV_SOCKS5_TYPE_UDP_IN_TCP k =
      (if d = [] then Some (- 1, None, k') else Some (0, Some (d, addr', port'), k')) \<and>
    ip_type addr' = IPADDR_TYPE_V6 \<and> take 16 (ip_bytes addr') = ip6_of sa \<and> port' = ntohs_bytes (sin_port sa) \<and>
    sk_in k' = z"
proof -
  let ?d = "set_family AF_INET6 (replicate 28 0)"
  have dst: "sockaddr_ok ?d" "readable sa ?d" and fam: "sa_family ?d \<noteq> AF_INET"
    by (simp_all add: sockaddr_ok_def set_family_def sa_family_def readable_def)
  have st0: "steady (length (frame_msg sa d) + 0) k" using st by simp
  have ld: "length d < 65536" "UDP_BUF_SIZE \<le> length payload" using len(1,2) by (simp_all add: UDP_BUF_SIZE_def)
  obtain u dst' k' where r: "hev_socks5_udp_recvfrom_tcp stk payload UDP_BUF_SIZE ?d k = Some (int (length d), u, dst', k')"
    "take (length d) u = d" "ip6_of dst' = ip6_of sa" "sin_port dst' = sin_port sa" "ran (frame_msg sa d) [] k k'"
    and a: "sa_family dst' = AF_INET6"
    using recvfrom_tcp_frame[OF sa i st0 len(1) ld(2,1) len(3) dst] fam by auto
  have z: "sk_in k' = z" using ran_in[OF r(5)] i by simp
  have l: "length d \<le> length u" using r(2) by (metis length_take min.cobounded1)
  then have d: "rdn u 0 (int (length d)) = Some d" using r(2) by (simp add: rdn_def)
  let ?a = "\<lparr>ip_type = IPADDR_TYPE_V6, ip_bytes = sin6_addr dst' @ drop 16 (ip_bytes addr)\<rparr>"
  have "length (ip6_of sa) = 16" using sa by (simp add: inet_addr_def ip6_of_def length_mapped4)
  moreover have "sin6_addr dst' = ip6_of sa" using a r(3) by (simp add: ip6_of_def)
  ultimately have "take 16 (ip_bytes ?a) = ip6_of sa" by simp
  moreover have "hev_socks5_session_udp_fwd_b stk (Some payload) IPADDR_TYPE_V6 addr port True HEV_SOCKS5_TYPE_UDP_IN_TCP k =
      (if d = [] then Some (- 1, None, k') else Some (0, Some (d, ?a, ntohs_bytes (sin_port sa)), k'))"
    using r(1,4) d a(1)
    by (simp add: hev_socks5_session_udp_fwd_b_def hev_socks5_udp_recvfrom_def sock_to_lwip_addr_def)
  ultimately show ?thesis using z by (intro exI[of _ ?a] exI[of _ "ntohs_bytes (sin_port sa)"] exI[of _ k']) simp
qed

text \<open>A datagram of two buffers, of which the first is sent.\<close>

definition demo_ev :: udp_ev where
  "demo_ev = \<lparr>ev_data = Some [[1, 2], [3]], ev_ip = \<lparr>ip_type = IPADDR_TYPE_V4, ip_bytes = [8, 8, 4, 4] @ replicate 12 0\<rparr>,
     ev_port = 53, ev_ptr = Some 1, ev_mem = replicate 28 0\<rparr>"

definition demo_dgram :: sock where
  "demo_dgram = (demo_sock [])\<lparr>sk_dgram := True, sk_ticks := [Move 0]\<rparr>"

definition demo_udp :: usess where
  "demo_udp = the (udp_recv_handler demo_ev (udp_start HEV_SOCKS5_TYPE_UDP_IN_UDP 5 demo_dgram))"

lemmas demo_udp_simps = demo_udp_def demo_ev_def udp_recv_handler_def udp_start_def new_frame_def
  UDP_POOL_SIZE_def hev_list_add_tail_def set_node_def hev_list_first_def Let_def

lemma demo_udp_recv:
  "udp_recv_handler demo_ev (udp_start HEV_SOCKS5_TYPE_UDP_IN_UDP 5 demo_dgram) = Some demo_udp"
  by (simp add: demo_udp_simps)

lemma demo_udp_reach:
  "udp_reach (replicate 263 0) (udp_start HEV_SOCKS5_TYPE_UDP_IN_UDP 5 demo_dgram) demo_udp"
proof -
  let ?s = "udp_start HEV_SOCKS5_TYPE_UDP_IN_UDP 5 demo_dgram"
  have "?s\<lparr>us_sock := (us_sock ?s)\<lparr>sk_ticks := sk_ticks (us_sock ?s)\<rparr>\<rparr> = ?s" by simp
  moreover have "ev_ok demo_ev ?s" by (simp add: ev_ok_def demo_ev_def udp_start_def)
  ultimately show ?thesis
    using udp_reach.step[OF udp_reach.start, where ts = "sk_ticks (us_sock ?s)" and t = demo_udp]
      udp_step.recv[OF _ demo_udp_recv] by simp
qed

lemma udp_session_fifo_witness:
  "us_frames demo_udp = 1 \<and> (\<exists>s' res. fwd_f_send (replicate 263 0) [] 1 demo_udp = Some (res, s') \<and> 0 < res \<and>
     sk_out (us_sock s') = [[0, 0, 0, 1, 8, 8, 4, 4, 0, 53, 1, 2]])"
proof -
  define sa where "sa = lwip_to_sock_addr \<lparr>ip_type = IPADDR_TYPE_V4, ip_bytes = [8, 8, 4, 4] @ replicate 12 0\<rparr> 53 (replicate 28 0)"
  define f where "f = \<lparr>fr_addr = sa, fr_data = [[1, 2], [3 :: byte]]\<rparr>"
  have sa: "sa = [2, 0, 0, 53, 8, 8, 4, 4] @ replicate 20 0"
    by (simp add: sa_def lwip_to_sock_addr_def set_sin_addr_def set_port_def set_family_def htons_bytes_def numeral_eq_Suc)
  have "sa_family sa = AF_INET" by (simp add: sa sa_family_def)
  moreover from this have "wire sa = [1, 8, 8, 4, 4, 0, 53]"
    by (simp add: wire_def) (simp add: sa sin_addr_def sin_port_def)
  ultimately have w: "inet_addr sa" "wire sa = [1, 8, 8, 4, 4, 0, 53]"
    by (simp_all add: inet_addr_def sockaddr_ok_def sa)
  then have m: "udp_msg sa [1, 2] = [0, 0, 0, 1, 8, 8, 4, 4, 0, 53, 1, 2]"
    by (simp add: udp_msg_def)
  have d: "hev_list_first (us_list demo_udp) = Some 1" "us_mem demo_udp 1 = Some f" "us_type demo_udp = HEV_SOCKS5_TYPE_UDP_IN_UDP"
    "us_sock demo_udp = demo_dgram" "us_frames demo_udp = 1"
    by (simp_all add: demo_udp_simps f_def sa_def)
  have k: "sk_dgram demo_dgram" "\<exists>n ts. sk_ticks demo_dgram = Move n # ts" "sk_out demo_dgram = []"
    by (simp_all add: demo_dgram_def demo_sock_simps)
  have h: "inet_addr (fr_addr f)" "263 \<le> length (replicate 263 (0 :: byte))" "\<forall>k. evs_ok [] (demo_udp\<lparr>us_sock := k\<rparr>)"
    using w by (simp_all add: f_def)
  obtain qs where "\<forall>q f mid. hev_list_first (us_list demo_udp) = Some q \<and> us_mem demo_udp q = Some f \<and> inet_addr (fr_addr f) \<and>
       263 \<le> length (replicate 263 (0 :: byte)) \<and> (\<forall>k. evs_ok mid (demo_udp\<lparr>us_sock := k\<rparr>)) \<longrightarrow>
       us_type demo_udp = HEV_SOCKS5_TYPE_UDP_IN_UDP \<and> sk_dgram (us_sock demo_udp) \<and>
         (\<exists>n ts. sk_ticks (us_sock demo_udp) = Move n # ts) \<longrightarrow>
       (\<exists>s' res. fwd_f_send (replicate 263 0) mid q demo_udp = Some (res, s') \<and> 0 < res \<and> us_gone s' = us_gone demo_udp @ [f] \<and>
          sk_out (us_sock s') = sk_out (us_sock demo_udp) @ [udp_msg (fr_addr f) (hd (fr_data f))])"
    using udp_session_fifo[OF demo_udp_reach] by blast
  from this[rule_format, of 1 f "[]"] have "\<exists>s' res. fwd_f_send (replicate 263 0) [] 1 demo_udp = Some (res, s') \<and> 0 < res \<and>
      us_gone s' = us_gone demo_udp @ [f] \<and> sk_out (us_sock s') = sk_out (us_sock demo_udp) @ [udp_msg (fr_addr f) (hd (fr_data f))]"
    using d(1-3) h k(1,2) unfolding d(4) by blast
  then show ?thesis using d(5) by (auto simp: d(4) k(3) f_def m)
qed

end
