(* ===== verification/Sessions.thy ===== *)
theory Sessions
  imports Tcpsess Udpsess
begin

text \<open>
  The life of a session before it splices, \<open>hev-socks5-session.c\<close>, and the set of sessions of
  \<open>hev-socks5-tunnel.c\<close>: a connection of lwIP adds a session, the end of its task removes it,
  and stopping the tunnel terminates all of them.
\<close>

section \<open>A session up to its splice\<close>

record server_conf =
  srv_addr :: bytes
  srv_port :: int
  srv_user :: "bytes option"
  srv_pass :: "bytes option"
  srv_pipeline :: bool

record session =
  se_client :: hclient
  se_timeout :: int
  se_sock :: sock

text \<open>
  \<open>hev_socks5_session_run\<close>, up to the call of the splicer: the result says whether it is called.
  \<open>tc\<close> and \<open>th\<close> say whether \<open>hev_socks5_session_terminate\<close> runs while the task waits in the connect
  or in the handshake; the effect on the wait itself is in the results of the environment.
\<close>

definition terminate_if :: "bool \<Rightarrow> session \<Rightarrow> session" where
  "terminate_if b s = (if b then s\<lparr>se_timeout := 0\<rparr> else s)"

definition hev_socks5_client_connect ::
  "(bytes \<Rightarrow> bytes option) \<Rightarrow> (bytes \<Rightarrow> bytes option) \<Rightarrow> (bytes \<Rightarrow> int \<Rightarrow> bytes option) \<Rightarrow>
   hev_env \<Rightarrow> bytes \<Rightarrow> int \<Rightarrow> int \<Rightarrow> int \<times> (int \<times> bytes) option" where
  "hev_socks5_client_connect pton4 pton6 dns e addr port addr_type =
     (let (res, c) = hev_socks5_client_connect_server pton4 pton6 dns e addr port addr_type
      in (if res < 0 then - 1 else 0, c))"

definition hev_socks5_session_run ::
  "(bytes \<Rightarrow> bytes option) \<Rightarrow> (bytes \<Rightarrow> bytes option) \<Rightarrow> (bytes \<Rightarrow> int \<Rightarrow> bytes option) \<Rightarrow>
   hev_env \<Rightarrow> bytes \<Rightarrow> server_conf \<Rightarrow> int \<Rightarrow> int \<Rightarrow> int \<Rightarrow> bool \<Rightarrow> bool \<Rightarrow> session \<Rightarrow> (bool \<times> session) option" where
  "hev_socks5_session_run pton4 pton6 dns e stk srv addr_type connect_timeout read_write_timeout tc th s =
     (let s = s\<lparr>se_timeout := connect_timeout\<rparr>;
          (res, fd) = hev_socks5_client_connect pton4 pton6 dns e (srv_addr srv) (srv_port srv) addr_type;
          s = terminate_if tc s
      in if res < 0 then Some (False, s)
      else do {
        let s = s\<lparr>se_timeout := read_write_timeout\<rparr>;
        let c = (if srv_user srv \<noteq> None \<and> srv_pass srv \<noteq> None
                 then hev_socks5_client_set_auth (srv_user srv) (srv_pass srv) (se_client s) else se_client s);
        (res, c, k) \<leftarrow> hev_socks5_client_handshake e stk (srv_pipeline srv) c (se_sock s);
        let s = terminate_if th (s\<lparr>se_client := c, se_sock := k\<rparr>);
        if res < 0 then Some (False, s) else Some (True, s)
      })"

text \<open>
  A termination before the connection stands is forgotten: whatever the timeout was and whether
  the session was terminated while it connected, it splices with the full timeout.
\<close>

lemma run_forgets_terminate:
  assumes "hev_socks5_session_run pton4 pton6 dns e stk srv ty ct rwt tc False s = Some (True, s')"
  shows "se_timeout s' = rwt \<and>
    hev_socks5_session_run pton4 pton6 dns e stk srv ty ct rwt True False (s\<lparr>se_timeout := 0\<rparr>) = Some (True, s')"
  using assms
  by (auto simp: hev_socks5_session_run_def terminate_if_def Let_def bind_eq_Some_conv split: prod.splits if_splits)

section \<open>The set of sessions\<close>

text \<open>
  A session is its node in the set; \<open>tn_timeout\<close> is the timeout of each. \<open>new\<close> is the node of the
  session \<open>hev_socks5_session_tcp_new\<close> or \<open>hev_socks5_session_udp_new\<close> makes, \<open>task\<close> whether there is a
  task for it. A failed handler destroys the session.
\<close>

datatype err_t = ERR_OK | ERR_MEM | ERR_ABRT | ERR_OTHER

record tunnel_state =
  tn_run :: bool
  tn_set :: hev_list
  tn_timeout :: "nat \<Rightarrow> int"

definition start_session :: "nat \<Rightarrow> tunnel_state \<Rightarrow> tunnel_state option" where
  "start_session p t = do {
     let l = (tn_set t)\<lparr>li_nodes := (li_nodes (tn_set t))(p := Some \<lparr>nd_next = None, nd_prev = None\<rparr>)\<rparr>;
     l \<leftarrow> hev_list_add_tail p l;
     Some (t\<lparr>tn_set := l, tn_timeout := (tn_timeout t)(p := - 1)\<rparr>)
   }"

definition tcp_accept_handler :: "err_t \<Rightarrow> nat option \<Rightarrow> bool \<Rightarrow> tunnel_state \<Rightarrow> (err_t \<times> tunnel_state) option" where
  "tcp_accept_handler code new task t =
     (if code \<noteq> ERR_OK then Some (code, t)
      else case new of
        None \<Rightarrow> Some (ERR_MEM, t)
      | Some p \<Rightarrow>
          if \<not> task then Some (ERR_ABRT, t)
          else do { t \<leftarrow> start_session p t; Some (ERR_OK, t) })"

definition udp_accept_handler :: "nat option \<Rightarrow> bool \<Rightarrow> tunnel_state \<Rightarrow> tunnel_state option" where
  "udp_accept_handler new task t =
     (case new of
        None \<Rightarrow> Some t
      | Some p \<Rightarrow> if \<not> task then Some t else start_session p t)"

text \<open>The end of \<open>hev_socks5_session_task_entry\<close>, with the object freed.\<close>

definition session_task_end :: "nat \<Rightarrow> tunnel_state \<Rightarrow> tunnel_state option" where
  "session_task_end p t = do {
     l \<leftarrow> hev_list_del p (tn_set t);
     Some (t\<lparr>tn_set := l\<lparr>li_nodes := (li_nodes l)(p := None)\<rparr>\<rparr>)
   }"

text \<open>The loop of \<open>event_task_entry\<close>; the number is the rounds it may take.\<close>

fun terminate_from :: "nat \<Rightarrow> nat option \<Rightarrow> tunnel_state \<Rightarrow> tunnel_state option" where
  "terminate_from n None t = Some t"
| "terminate_from 0 (Some p) t = None"
| "terminate_from (Suc n) (Some p) t = do {
     let t = t\<lparr>tn_timeout := (tn_timeout t)(p := 0)\<rparr>;
     q \<leftarrow> hev_list_node_next p (tn_set t);
     terminate_from n q t
   }"

definition event_task_entry :: "nat \<Rightarrow> tunnel_state \<Rightarrow> tunnel_state option" where
  "event_task_entry n t = (let t = t\<lparr>tn_run := False\<rparr> in terminate_from n (hev_list_first (tn_set t)) t)"

lemma start_session_ok:
  assumes "holds (tn_set t) xs" "p \<notin> set xs"
  shows "\<exists>t'. start_session p t = Some t' \<and> holds (tn_set t') (xs @ [p]) \<and> tn_run t' = tn_run t"
proof -
  let ?l = "(tn_set t)\<lparr>li_nodes := (li_nodes (tn_set t))(p := Some \<lparr>nd_next = None, nd_prev = None\<rparr>)\<rparr>"
  have h: "holds ?l xs" by (rule holds_store[OF assms])
  have "p \<in> dom (li_nodes ?l)" by simp
  then obtain l where "hev_list_add_tail p ?l = Some l" "holds l (xs @ [p])"
    using hl.lst_add[OF h assms(2)] by blast
  then show ?thesis by (simp add: start_session_def Let_def)
qed

lemma session_task_end_ok:
  assumes "holds (tn_set t) (xs @ p # ys)"
  shows "\<exists>t'. session_task_end p t = Some t' \<and> holds (tn_set t') (xs @ ys) \<and> tn_timeout t' = tn_timeout t"
proof -
  obtain l where l: "hev_list_del p (tn_set t) = Some l" "holds l (xs @ ys)"
    using hl.lst_del[OF assms] by blast
  have "p \<notin> set (xs @ ys)" using hl.lst_distinct[OF assms] by auto
  then show ?thesis using l holds_store by (simp add: session_task_end_def)
qed

lemma terminate_from_all:
  "holds (tn_set t) (xs @ ys) \<Longrightarrow> length ys \<le> n \<Longrightarrow>
   terminate_from n (first_or None ys) t =
     Some (t\<lparr>tn_timeout := \<lambda>p. if p \<in> set ys then 0 else tn_timeout t p\<rparr>)"
proof (induction ys arbitrary: n xs t)
  case Nil
  then show ?case by (cases n) simp_all
next
  case (Cons y ys)
  then obtain m where n: "n = Suc m" "length ys \<le> m" by (cases n) auto
  let ?t = "t\<lparr>tn_timeout := (tn_timeout t)(y := 0)\<rparr>"
  have h: "holds (tn_set ?t) ((xs @ [y]) @ ys)" using Cons.prems(1) by simp
  have "hev_list_node_next y (tn_set ?t) = Some (first_or None ys)"
    using holds_next[of "tn_set t" xs y ys] Cons.prems(1) by simp
  then show ?case using Cons.IH[OF h n(2)] by (auto simp: n(1) Let_def fun_eq_iff)
qed

text \<open>
  Stopping the tunnel ends the loop after one round for each session, terminates every session in
  the set and no other, and leaves the set as it is.
\<close>

lemma stop_terminates_all:
  assumes "holds (tn_set t) xs"
  shows "event_task_entry (length xs) t =
    Some (t\<lparr>tn_run := False, tn_timeout := \<lambda>p. if p \<in> set xs then 0 else tn_timeout t p\<rparr>)"
proof -
  have "holds (tn_set (t\<lparr>tn_run := False\<rparr>)) ([] @ xs)" using assms by simp
  from terminate_from_all[OF this order_refl] show ?thesis
    using assms by (simp add: event_task_entry_def holds_def hev_list_first_def Let_def cong: if_cong)
qed

end
