(* ===== verification/Spec2Isabelle.thy ===== *)
theory Spec2Isabelle
  imports Native Relay Invariant Tunnel Sessions
begin

text \<open>
  \<^bold>\<open>The native code of tg-ws-proxy-android.\<close>

  The application runs a local SOCKS proxy, a copy of byedpi in C
  (\<open>src/app/src/main/cpp\<close>), in the process of an Android VPN service. The proxy accepts SOCKS4
  and SOCKS5 requests, connects to the destination and relays the bytes. The first packet of a
  connection is modified and sent in a way that a censor's middlebox does not reassemble; when
  an answer looks blocked, the connection is made again with the next strategy, and the
  strategy that worked is cached per address.

  The packets of the device reach the proxy through a tunnel, \<open>hev-socks5-tunnel\<close>, in the same
  process: a user-space TCP/IP stack, lwIP, ends the connections of the applications, and for each
  of them a task connects to the proxy as a SOCKS5 client and copies bytes or datagrams.

  \<^bold>\<open>Theories of the proxy.\<close> Paths are under \<open>src/app/src/main/cpp\<close>.

  \<^item> \<open>Prelude\<close>: checked memory. A C buffer is a list of bytes; \<open>rd\<close>, \<open>wr\<close>, \<open>rdn\<close>, \<open>wrn\<close>,
    \<open>memmove\<close>, \<open>memchr\<close> and the like are \<open>None\<close> outside of it, \<open>c_assert\<close> is \<open>None\<close> when the
    condition fails. A definition that returns \<open>Some\<close> has made no access out of range.
  \<^item> \<open>Packets\<close> (\<open>byedpi/packets.c\<close>): parsing of TLS hello messages and HTTP requests, splitting
    of TLS records, changes to HTTP headers. The lemmas bound every access and say what is
    found and what is changed.
  \<^item> \<open>Kavl\<close> (\<open>byedpi/kavl.h\<close>) and \<open>Mpool\<close> (\<open>byedpi/mpool.c\<close>): the AVL tree with the path arrays of
    the macros, and the pool of strings on top of it, which refines a finite map. The contract of
    the pool is the locales \<open>byte_store\<close> and \<open>byte_cache\<close>.
  \<^item> \<open>Params\<close> (\<open>byedpi/params.h\<close>, \<open>conev.h\<close>): the structures and their initial values.
  \<^item> \<open>Os\<close>: the calls to the operating system. A kernel is a function from the calls made so far
    to the reply of the next one, a parameter of everything that makes calls; what is relied on
    is stated as a contract (\<open>send_contract\<close>, \<open>io_contract\<close>, \<open>wait_ok\<close>, \<open>epoll_contract\<close>).
  \<^item> \<open>Conev\<close> (\<open>byedpi/conev.c\<close>): the table of connections over epoll. \<open>del_event\<close> closes the chain of
    pairs (\<open>chained\<close>) and nothing else; \<open>churn\<close> collects what the handlers do to the table between
    two events, and \<open>next_event\<close> skips the events of exactly the slots they touched.
  \<^item> \<open>Desync\<close> (\<open>byedpi/desync.c\<close>): sending a packet in parts; the trace of calls determines the
    stream the peer receives.
  \<^item> \<open>Socks\<close>, \<open>Conn\<close>, \<open>Proxy\<close> (\<open>byedpi/proxy.c\<close>) and \<open>Extend\<close> (\<open>byedpi/extend.c\<close>): the protocol
    messages, outgoing connections, the handlers, the strategies and the event loop. The filters of
    a strategy are in \<open>Extend\<close>: \<open>check_host\<close> matches the host that \<open>packet_host\<close> reads off a packet.
  \<^item> \<open>Relay\<close>: the tunnel loses no byte and repeats none.
  \<^item> \<open>Calm\<close>, \<open>Table\<close>, \<open>Handlers\<close>, \<open>Invariant\<close>: the invariant of the event loop. \<open>Calm\<close> has the rules
    for the results of partial functions and the locale \<open>calm_inv\<close> of the properties that calls
    keep; \<open>Table\<close> the rings of paired connections; \<open>Handlers\<close> one lemma per handler; \<open>Invariant\<close> the
    loop as a step relation with its reachable states.
  \<^item> \<open>Options\<close> (\<open>byedpi/main.c\<close>, \<open>utils.c\<close>) and \<open>Native\<close> (\<open>native-lib.c\<close>): command line, host lists,
    what the port filter makes of the ranges stored, and the entry points of the Android library.

  \<^bold>\<open>Theories of the tunnel.\<close> Paths are under \<open>src/app/src/main/jni/hev-socks5-tunnel\<close>.

  \<^item> \<open>Taskio\<close> (\<open>third-part/hev-task-system/src/lib/io/socket/hev-task-io-socket.c\<close> and the yielder of
    \<open>src/core/src/hev-socks5-misc.c\<close>): the retry loops of socket I/O. What the kernel and the other
    tasks do is a list of ticks, one per call. The loops return and move the bytes asked for.
  \<^item> \<open>Hevaddr\<close> (\<open>src/core/src/hev-socks5-misc.c\<close>), \<open>Hevclient\<close> (\<open>hev-socks5-client.c\<close>,
    \<open>hev-socks5-client-tcp.c\<close>, \<open>hev-socks5-client-udp.c\<close>) and \<open>Hevudp\<close> (\<open>hev-socks5-udp.c\<close>): the
    addresses, the client with both its handshakes and the framing of datagrams.
  \<^item> \<open>Tunnel\<close>: the two programs meet. What the client sends is what the proxy's parser of \<open>Socks\<close> reads,
    and the other way round, for the handshake, the request and the datagrams.
  \<^item> \<open>Ringbuf\<close> (\<open>src/misc/hev-ring-buffer.c\<close>): the buffer of a TCP session, which refines a queue; its
    contract is the locale \<open>fifo_buffer\<close>.
  \<^item> \<open>Tcpsess\<close> (\<open>src/hev-socks5-session-tcp.c\<close>): a TCP session as a step relation \<open>sess_step\<close>, in which
    the callbacks of lwIP run between the steps of the task and while it waits for the mutex. No
    byte is lost, and a session that is reset ends. The steps end where the splice returns: its
    frame holds the memory of the ring buffer.
  \<^item> \<open>Hevlist\<close> (\<open>src/misc/hev-list.c\<close>): doubly linked lists in an explicit store; the locale
    \<open>node_list\<close> is their contract, and every run on the pointers refines a sequence of nodes.
  \<^item> \<open>Udpsess\<close> (\<open>src/hev-socks5-session-udp.c\<close>, \<open>src/misc/hev-utils.c\<close>): a UDP session as a step
    relation \<open>udp_step\<close>; the frames are a queue in a linked list, none of them leaks, and each send
    is one message, over UDP as over TCP.
  \<^item> \<open>Sessions\<close> (\<open>src/hev-socks5-session.c\<close>, \<open>src/hev-socks5-tunnel.c\<close>): a session up to its
    splice, and the set of sessions with its handlers and its end.

  \<^bold>\<open>State.\<close> The record \<open>world\<close> has the options (\<open>params\<close>), the connection table (\<open>poolhd\<close>), the
  trace of calls, \<open>errno\<close>, \<open>NOT_EXIT\<close> and the buffer of the event loop. A connection is an index
  into the items of the table, which stands for the pointer. In the tunnel a session is a record
  of its own (\<open>tsess\<close>, \<open>usess\<close>), with a few fields that record the streams so far; these are not
  the code's and no operation reads them. What is relied on of lwIP is \<open>lwip_ok\<close>: it keeps to its
  receive window and acknowledges only bytes it was given.

  \<^bold>\<open>Fuel.\<close> The loops of the handlers (\<open>on_accept\<close>, \<open>on_udp_tunnel\<close>, \<open>tunnel_loop\<close>) and the event loop
  run until the kernel has nothing more, so they take a number of rounds and return \<open>None\<close>
  when it is used up; statements about their results hold for every number. \<open>del_event\<close>
  takes one round more than the table has items and \<open>next_event\<close> two more than the batch has
  events, which is shown to be enough. The loops of \<open>Taskio\<close> recurse over the ticks, and
  \<open>recv_loop_total\<close> and its like say how many are enough; \<open>terminate_from\<close> of \<open>Sessions\<close> takes one
  round for each session. All other recursions are total.

  \<^bold>\<open>Integers.\<close> Bytes and the iteration counter of the table are machine words and wrap around;
  sizes and positions are mathematical integers, with the unsigned wrap-around written out
  where the code relies on it.

  \<^bold>\<open>Not modelled.\<close> Log output and \<open>free\<close>, except where a leak is the point; the JNI glue of
  \<open>vpn_protect.c\<close>; the Windows service and the code that is only compiled on Windows;
  \<open>getopt_long\<close> and \<open>strtof\<close>, which are parameters. Of the tunnel: reading the configuration with
  libyaml, opening the device, the tasks that move packets between the device and lwIP, the object
  system (class tables and destructors), the SOCKS5 server and the authenticator of its library,
  which the application does not use, and the vendored lwIP, libyaml and task scheduler, which are
  third-party code. The Kotlin code.
\<close>

end
